(* ===== verification/Prelude.thy ===== *)
theory Prelude
  imports Main "HOL-Library.Word"
begin

text \<open>
  The vocabulary every component shares: machine integers and byte strings, the big-endian
  codecs of the integer types (\<open>to_be_bytes\<close> and \<open>from_be_bytes\<close>), slices of fixed arrays
  (\<open>&buf[i..j]\<close> and \<open>copy_from_slice\<close>), the checked arithmetic of the integers, results as
  sums with the error on the left, and the generic facts about them. The collections
  \<open>size_defs\<close> (numeric constants of the program) and \<open>byte_simps\<close> (slices and codecs) carry
  the component proofs.
\<close>

named_theorems size_defs "numeric constants of the program"
named_theorems byte_simps "equations on slices, copies and big-endian codecs"

type_synonym u8 = "8 word"
type_synonym u16 = "16 word"
type_synonym u32 = "32 word"
type_synonym u64 = "64 word"
type_synonym bytes = "8 word list"

section \<open>Results\<close>

text \<open>\<open>Inl\<close> is \<open>Err\<close>, \<open>Inr\<close> is \<open>Ok\<close>; \<open>ebind\<close> is the question mark operator.\<close>

definition ebind :: "'e + 'a \<Rightarrow> ('a \<Rightarrow> 'e + 'b) \<Rightarrow> 'e + 'b" where
  "ebind r f = (case r of Inl e \<Rightarrow> Inl e | Inr a \<Rightarrow> f a)"

lemma ebind_simps [simp]:
  "ebind (Inl e) f = Inl e"
  "ebind (Inr a) f = f a"
  by (simp_all add: ebind_def)

lemma ebind_eq_Inr: "ebind r f = Inr b \<longleftrightarrow> (\<exists>a. r = Inr a \<and> f a = Inr b)"
  by (cases r) auto

definition is_ok :: "'e + 'a \<Rightarrow> bool" where
  "is_ok r \<longleftrightarrow> (case r of Inl _ \<Rightarrow> False | Inr _ \<Rightarrow> True)"

lemma is_ok_simps [simp]: "\<not> is_ok (Inl e)" "is_ok (Inr a)"
  by (simp_all add: is_ok_def)

lemma is_ok_iff: "is_ok r \<longleftrightarrow> (\<exists>a. r = Inr a)"
  by (cases r) auto

section \<open>Time\<close>

text \<open>\<open>Duration\<close> and \<open>Instant\<close> are natural numbers of nanoseconds.\<close>

definition secs :: "nat \<Rightarrow> nat" where [size_defs]: "secs n = n * 1000000000"
definition millis :: "nat \<Rightarrow> nat" where [size_defs]: "millis n = n * 1000000"

section \<open>Checked and saturating arithmetic\<close>

definition checked_add :: "'a::len word \<Rightarrow> 'a word \<Rightarrow> 'a word option" where
  "checked_add a b = (if unat a + unat b < 2 ^ LENGTH('a) then Some (a + b) else None)"

lemma checked_add_Some: "checked_add a b = Some c \<Longrightarrow> unat c = unat a + unat b"
  by (auto simp: checked_add_def unat_word_ariths split: if_splits)

lemma checked_add_None_iff: "checked_add (a :: 'a::len word) b = None \<longleftrightarrow> 2 ^ LENGTH('a) \<le> unat a + unat b"
  by (auto simp: checked_add_def)

lemma checked_add_one: "checked_add w 1 = (if w = - 1 then None else Some (w + 1))"
  for w :: "'a::len word"
proof -
  have max: "unat (- 1 :: 'a word) = 2 ^ LENGTH('a) - 1"
    by (simp add: unsigned_minus_1_eq_mask mask_eq_exp_minus_1)
  have "unat w + 1 < 2 ^ LENGTH('a) \<longleftrightarrow> unat w \<noteq> 2 ^ LENGTH('a) - 1"
  proof -
    have "unat w < 2 ^ LENGTH('a)" by (rule unsigned_less)
    then show ?thesis by linarith
  qed
  also have "\<dots> \<longleftrightarrow> w \<noteq> - 1"
    using max by (metis unsigned_word_eqI)
  finally show ?thesis by (simp add: checked_add_def)
qed

section \<open>Slices of arrays\<close>

definition subslice :: "nat \<Rightarrow> nat \<Rightarrow> 'a list \<Rightarrow> 'a list" where
  "subslice i j xs = take (j - i) (drop i xs)"

text \<open>\<open>put i ys xs\<close> is \<open>xs[i..i + ys.len()].copy_from_slice(&ys)\<close>, in range.\<close>

definition put :: "nat \<Rightarrow> 'a list \<Rightarrow> 'a list \<Rightarrow> 'a list" where
  "put i ys xs = take i xs @ ys @ drop (i + length ys) xs"

lemma length_subslice [byte_simps]: "j \<le> length xs \<Longrightarrow> length (subslice i j xs) = j - i"
  by (simp add: subslice_def)

lemma length_put [byte_simps]: "i + length ys \<le> length xs \<Longrightarrow> length (put i ys xs) = length xs"
  by (simp add: put_def)

lemma subslice_append_left: "j \<le> length xs \<Longrightarrow> subslice i j (xs @ ys) = subslice i j xs"
  by (simp add: subslice_def)

lemma subslice_append_right: "length xs \<le> i \<Longrightarrow> subslice i j (xs @ ys) = subslice (i - length xs) (j - length xs) ys"
  by (simp add: subslice_def)

lemma subslice_full: "length xs \<le> j \<Longrightarrow> subslice 0 j xs = xs"
  by (simp add: subslice_def)

lemma subslice_join: "i \<le> j \<Longrightarrow> j \<le> k \<Longrightarrow> subslice i j xs @ subslice j k xs = subslice i k xs"
proof -
  assume a: "i \<le> j" "j \<le> k"
  have "take (k - i) (drop i xs) = take ((j - i) + (k - j)) (drop i xs)"
    using a by simp
  also have "\<dots> = take (j - i) (drop i xs) @ take (k - j) (drop (j - i) (drop i xs))"
    by (rule take_add)
  finally show ?thesis using a by (simp add: subslice_def)
qed

lemma subslice_take: "j \<le> n \<Longrightarrow> subslice i j (take n xs) = subslice i j xs"
  by (simp add: subslice_def drop_take)

lemma subslice_at: "i = length xs \<Longrightarrow> j = i + length ys \<Longrightarrow> subslice i j (xs @ ys @ zs) = ys"
  by (simp add: subslice_def)

lemma subslice_at_end: "i = length xs \<Longrightarrow> j = i + length ys \<Longrightarrow> subslice i j (xs @ ys) = ys"
  by (simp add: subslice_def)

lemma subslice_put_same: "i + length ys \<le> length xs \<Longrightarrow> subslice i (i + length ys) (put i ys xs) = ys"
  by (simp add: subslice_def put_def)

lemma subslice_put_before: "j \<le> i \<Longrightarrow> i \<le> length xs \<Longrightarrow> subslice a j (put i ys xs) = subslice a j xs"
  by (simp add: subslice_def put_def drop_take)

lemma drop_put_after: "i + length ys \<le> k \<Longrightarrow> i \<le> length xs \<Longrightarrow> drop k (put i ys xs) = drop k xs"
  by (simp add: put_def)

lemma put_append_left: "i + length ys \<le> length xs \<Longrightarrow> put i ys (xs @ zs) = put i ys xs @ zs"
  by (simp add: put_def)

lemma put_append_right: "length xs \<le> i \<Longrightarrow> put i ys (xs @ zs) = xs @ put (i - length xs) ys zs"
  by (simp add: put_def)

lemma put_full: "length ys = length xs \<Longrightarrow> put 0 ys xs = ys"
  by (simp add: put_def)

text \<open>
  A buffer of which a prefix is written and the rest is still zero: filling it from left to
  right is concatenation.
\<close>

definition zpad :: "bytes \<Rightarrow> nat \<Rightarrow> bytes" where
  "zpad xs n = xs @ replicate n 0"

lemma put_zpad:
  "length xs = i \<Longrightarrow> length ys \<le> n \<Longrightarrow> put i ys (zpad xs n) = zpad (xs @ ys) (n - length ys)"
  by (simp add: put_def zpad_def)

lemma replicate_zpad: "replicate n 0 = zpad [] n"
  by (simp add: zpad_def)

lemma zpad_0: "zpad xs 0 = xs"
  by (simp add: zpad_def)

section \<open>Big-endian codecs\<close>

fun to_be_nat :: "nat \<Rightarrow> nat \<Rightarrow> bytes" where
  "to_be_nat 0 x = []"
| "to_be_nat (Suc n) x = to_be_nat n (x div 256) @ [of_nat x]"

definition from_be_nat :: "bytes \<Rightarrow> nat" where
  "from_be_nat bs = foldl (\<lambda>acc b. acc * 256 + unat b) 0 bs"

lemma length_to_be_nat [simp]: "length (to_be_nat n x) = n"
  by (induction n arbitrary: x) auto

lemma from_be_nat_snoc: "from_be_nat (bs @ [b]) = from_be_nat bs * 256 + unat b"
  by (simp add: from_be_nat_def)

lemma from_be_nat_Nil [simp]: "from_be_nat [] = 0"
  by (simp add: from_be_nat_def)

lemma unat_of_nat_u8: "unat (of_nat x :: u8) = x mod 256"
  by (simp add: unat_of_nat)

lemma unat_u8_less: "unat (b :: u8) < 256"
proof -
  have "unat b < 2 ^ LENGTH(8)" by (rule unsigned_less)
  then show ?thesis by simp
qed

lemma unat_u32_less: "unat (w :: u32) < 4294967296"
proof -
  have "unat w < 2 ^ LENGTH(32)" by (rule unsigned_less)
  then show ?thesis by simp
qed

lemma from_to_be_nat: "x < 256 ^ n \<Longrightarrow> from_be_nat (to_be_nat n x) = x"
proof (induction n arbitrary: x)
  case 0
  then show ?case by simp
next
  case (Suc n)
  from Suc.prems have "x div 256 < 256 ^ n"
    by (simp add: div_less_iff_less_mult mult.commute)
  with Suc.IH show ?case
    by (simp add: from_be_nat_snoc unat_of_nat_u8)
qed

lemma from_be_nat_bound: "from_be_nat bs < 256 ^ length bs"
proof (induction bs rule: rev_induct)
  case Nil
  then show ?case by simp
next
  case (snoc b bs)
  have "unat b < 256" using unsigned_less [of b] by simp
  with snoc show ?case by (simp add: from_be_nat_snoc)
qed

lemma to_from_be_nat: "to_be_nat (length bs) (from_be_nat bs) = bs"
proof (induction bs rule: rev_induct)
  case Nil
  then show ?case by simp
next
  case (snoc b bs)
  have b: "unat b < 256" using unsigned_less [of b] by simp
  then have "(from_be_nat bs * 256 + unat b) div 256 = from_be_nat bs" by simp
  moreover have "(of_nat (from_be_nat bs * 256 + unat b) :: u8) = b"
  proof (rule unsigned_word_eqI)
    show "unat (of_nat (from_be_nat bs * 256 + unat b) :: u8) = unat b"
      using b by (simp only: unat_of_nat_u8) simp
  qed
  ultimately show ?case using snoc by (simp add: from_be_nat_snoc)
qed

text \<open>\<open>x.to_be_bytes()\<close> for an integer of \<open>n\<close> bytes, and \<open>from_be_bytes\<close>.\<close>

definition to_be :: "nat \<Rightarrow> 'a::len word \<Rightarrow> bytes" where
  "to_be n w = to_be_nat n (unat w)"

definition from_be :: "bytes \<Rightarrow> 'a::len word" where
  "from_be bs = of_nat (from_be_nat bs)"

lemma length_to_be [simp]: "length (to_be n w) = n"
  by (simp add: to_be_def)

lemma to_be_2: "to_be 2 w = [of_nat (unat w div 256), of_nat (unat w)]"
  by (simp add: to_be_def numeral_2_eq_2)

text \<open>
  The contract of a fixed-width codec, in both directions: the decoder inverts the encoder,
  and on inputs of the right width the encoder inverts the decoder.
\<close>

locale be_codec =
  fixes enc :: "'w \<Rightarrow> bytes" and dec :: "bytes \<Rightarrow> 'w" and width :: nat
  assumes enc_length: "length (enc w) = width"
    and dec_enc: "dec (enc w) = w"
    and enc_dec: "length bs = width \<Longrightarrow> enc (dec bs) = bs"
begin

lemma enc_eq_iff: "enc v = enc w \<longleftrightarrow> v = w"
proof
  assume "enc v = enc w"
  then have "dec (enc v) = dec (enc w)" by simp
  then show "v = w" by (simp add: dec_enc)
qed simp

lemma enc_append_eq_iff: "enc v @ xs = enc w @ ys \<longleftrightarrow> v = w \<and> xs = ys"
  by (simp add: append_eq_append_conv enc_length enc_eq_iff)

lemma subslice_enc: "width = j - i \<Longrightarrow> i = length xs \<Longrightarrow> subslice i j (xs @ enc w @ ys) = enc w"
  by (simp add: subslice_def enc_length)

end

lemma be_codec_word:
  assumes "LENGTH('a::len) = 8 * n"
  shows "be_codec (to_be n :: 'a word \<Rightarrow> bytes) from_be n"
proof
  have pow: "(256::nat) ^ n = 2 ^ LENGTH('a)"
    using assms by (simp add: power_mult)
  fix w :: "'a word" and bs :: bytes
  show "length (to_be n w) = n" by simp
  have "unat w < 256 ^ n" using unsigned_less [of w] by (simp only: pow)
  then show "from_be (to_be n w) = w"
    by (simp add: from_be_def to_be_def from_to_be_nat)
  assume "length bs = n"
  then have "from_be_nat bs < 2 ^ LENGTH('a)" and "to_be_nat n (from_be_nat bs) = bs"
    using from_be_nat_bound [of bs] to_from_be_nat [of bs] by (simp_all only: pow)
  then show "to_be n (from_be bs :: 'a word) = bs"
    by (simp add: from_be_def to_be_def of_nat_inverse)
qed

interpretation be16: be_codec "to_be 2 :: u16 \<Rightarrow> bytes" from_be 2
  by (rule be_codec_word) simp

interpretation be32: be_codec "to_be 4 :: u32 \<Rightarrow> bytes" from_be 4
  by (rule be_codec_word) simp

interpretation be64: be_codec "to_be 8 :: u64 \<Rightarrow> bytes" from_be 8
  by (rule be_codec_word) simp

lemmas be_inverse [byte_simps] =
  be16.dec_enc be32.dec_enc be64.dec_enc be16.enc_dec be32.enc_dec be64.enc_dec

lemma sorted_snoc_last:
  assumes "sorted (a # xs @ [n])"
  shows "a \<le> last (a # xs) \<and> last (a # xs) \<le> n"
  using assms last_in_set [of xs] by (auto simp: sorted_append)

section \<open>Payload codecs\<close>

text \<open>
  The contract of a fallible encoder and decoder: on the values \<open>wf\<close> describes encoding
  succeeds and decoding gives the value back.
\<close>

locale payload_codec =
  fixes wf :: "'a \<Rightarrow> bool" and enc :: "'a \<Rightarrow> 'e + bytes" and dec :: "bytes \<Rightarrow> 'f + 'a"
  assumes round_trip: "wf x \<Longrightarrow> \<exists>bs. enc x = Inr bs \<and> dec bs = Inr x"
begin

lemma enc_ok: "wf x \<Longrightarrow> is_ok (enc x)"
  using round_trip by (auto simp: is_ok_iff)

lemma dec_enc: "wf x \<Longrightarrow> enc x = Inr bs \<Longrightarrow> dec bs = Inr x"
  using round_trip by fastforce

lemma enc_inject: "wf x \<Longrightarrow> wf y \<Longrightarrow> enc x = enc y \<Longrightarrow> x = y"
  using round_trip [of x] round_trip [of y] by auto

end

section \<open>Filters that never accept twice\<close>

text \<open>
  Several components admit a sequence of presented items one at a time and must never admit
  the same key twice: replay windows, sequence numbers, acknowledgement counters, nonce
  registries. \<open>accepted step s ks\<close> lists the items a filter admits from state \<open>s\<close>;
  \<open>after step s ks\<close> is its state then. A refused item leaves the state alone.
\<close>

fun accepted :: "('s \<Rightarrow> 'k \<Rightarrow> 's option) \<Rightarrow> 's \<Rightarrow> 'k list \<Rightarrow> 'k list" where
  "accepted step s [] = []"
| "accepted step s (k # ks) =
     (case step s k of None \<Rightarrow> accepted step s ks | Some s' \<Rightarrow> k # accepted step s' ks)"

fun after :: "('s \<Rightarrow> 'k \<Rightarrow> 's option) \<Rightarrow> 's \<Rightarrow> 'k list \<Rightarrow> 's" where
  "after step s [] = s"
| "after step s (k # ks) =
     (case step s k of None \<Rightarrow> after step s ks | Some s' \<Rightarrow> after step s' ks)"

lemma accepted_append: "accepted step s (ks @ ls) = accepted step s ks @ accepted step (after step s ks) ls"
  by (induction ks arbitrary: s) (auto split: option.splits)

lemma after_append: "after step s (ks @ ls) = after step (after step s ks) ls"
  by (induction ks arbitrary: s) (auto split: option.splits)

text \<open>
  A filter whose refusals may change the state as well answers with the new state and a flag;
  \<open>admitted\<close> lists what it admits.
\<close>

fun admitted :: "('s \<Rightarrow> 'k \<Rightarrow> 's \<times> bool) \<Rightarrow> 's \<Rightarrow> 'k list \<Rightarrow> 'k list" where
  "admitted step s [] = []"
| "admitted step s (k # ks) =
     (case step s k of (s', ok) \<Rightarrow> (if ok then [k] else []) @ admitted step s' ks)"

fun afterwards :: "('s \<Rightarrow> 'k \<Rightarrow> 's \<times> bool) \<Rightarrow> 's \<Rightarrow> 'k list \<Rightarrow> 's" where
  "afterwards step s [] = s"
| "afterwards step s (k # ks) = afterwards step (fst (step s k)) ks"

text \<open>
  The contract: a predicate \<open>refused\<close> that every admission establishes for its own key,
  that no later step retracts, and that implies refusal.
\<close>

locale stateful_filter =
  fixes inv :: "'s \<Rightarrow> bool"
    and step :: "'s \<Rightarrow> 'k \<Rightarrow> 's \<times> bool"
    and key :: "'k \<Rightarrow> 'c"
    and refused :: "'s \<Rightarrow> 'c \<Rightarrow> bool"
  assumes total_inv: "inv s \<Longrightarrow> inv (fst (step s k))"
    and total_admit: "inv s \<Longrightarrow> snd (step s k) \<Longrightarrow> refused (fst (step s k)) (key k)"
    and total_mono: "inv s \<Longrightarrow> refused s c \<Longrightarrow> refused (fst (step s k)) c"
    and total_refuse: "inv s \<Longrightarrow> refused s (key k) \<Longrightarrow> \<not> snd (step s k)"
begin

lemma refused_not_admitted: "inv s \<Longrightarrow> refused s c \<Longrightarrow> c \<notin> key ` set (admitted step s ks)"
proof (induction ks arbitrary: s)
  case (Cons k ks)
  have "c \<notin> key ` set (admitted step (fst (step s k)) ks)"
    using Cons by (blast intro: total_inv total_mono)
  moreover have "snd (step s k) \<Longrightarrow> key k \<noteq> c" using Cons.prems total_refuse by blast
  ultimately show ?case by (auto simp: case_prod_beta)
qed simp

lemma admitted_distinct: "inv s \<Longrightarrow> distinct (map key (admitted step s ks))"
proof (induction ks arbitrary: s)
  case (Cons k ks)
  have i: "inv (fst (step s k))" using Cons.prems by (rule total_inv)
  have "snd (step s k) \<Longrightarrow> key k \<notin> key ` set (admitted step (fst (step s k)) ks)"
    using refused_not_admitted [OF i total_admit] Cons.prems by blast
  with Cons.IH [OF i] show ?case by (simp add: case_prod_beta)
qed simp

lemma afterwards_inv: "inv s \<Longrightarrow> inv (afterwards step s ks)"
  by (induction ks arbitrary: s) (simp_all add: total_inv)

end

text \<open>A filter that leaves its state alone when it refuses is the special case.\<close>

definition totalize :: "('s \<Rightarrow> 'k \<Rightarrow> 's option) \<Rightarrow> 's \<Rightarrow> 'k \<Rightarrow> 's \<times> bool" where
  "totalize step s k = (case step s k of None \<Rightarrow> (s, False) | Some s' \<Rightarrow> (s', True))"

lemma admitted_totalize: "admitted (totalize step) s ks = accepted step s ks"
  by (induction ks arbitrary: s) (auto simp: totalize_def split: option.splits)

lemma afterwards_totalize: "afterwards (totalize step) s ks = after step s ks"
  by (induction ks arbitrary: s) (auto simp: totalize_def split: option.splits)

locale replay_filter =
  fixes inv :: "'s \<Rightarrow> bool"
    and step :: "'s \<Rightarrow> 'k \<Rightarrow> 's option"
    and key :: "'k \<Rightarrow> 'c"
    and refused :: "'s \<Rightarrow> 'c \<Rightarrow> bool"
  assumes step_inv: "inv s \<Longrightarrow> step s k = Some s' \<Longrightarrow> inv s'"
    and accept_refused: "inv s \<Longrightarrow> step s k = Some s' \<Longrightarrow> refused s' (key k)"
    and refused_mono: "inv s \<Longrightarrow> step s k = Some s' \<Longrightarrow> refused s c \<Longrightarrow> refused s' c"
    and refused_None: "inv s \<Longrightarrow> refused s (key k) \<Longrightarrow> step s k = None"

sublocale replay_filter \<subseteq> tot: stateful_filter inv "totalize step" key refused
  by unfold_locales
    (auto simp: totalize_def dest: refused_None split: option.splits
      intro: step_inv accept_refused refused_mono)

context replay_filter
begin

lemma accepted_distinct: "inv s \<Longrightarrow> distinct (map key (accepted step s ks))"
  using tot.admitted_distinct by (simp add: admitted_totalize)

lemma after_inv: "inv s \<Longrightarrow> inv (after step s ks)"
  using tot.afterwards_inv by (simp add: afterwards_totalize)

end

end
