(* ===== verification/Cell.thy ===== *)
theory Cell
  imports Prelude
begin

text \<open>
  The fixed-size protocol cell of \<open>src/src/onion/cell.rs\<close>: the command byte, the record
  \<open>OnionCell\<close> with its constructor, serializer and parser. Arrays of the source are byte
  lists; \<open>wf_cell\<close> states their lengths, which the Rust types fix.
\<close>

definition ONION_CELL_SIZE :: nat where [size_defs]: "ONION_CELL_SIZE = 8192"
definition HEADER_SIZE :: nat where [size_defs]: "HEADER_SIZE = 61"
definition PAYLOAD_SIZE :: nat where [size_defs]: "PAYLOAD_SIZE = ONION_CELL_SIZE - HEADER_SIZE"

datatype CellCommand =
    Create | Created | Relay | Destroy | Extend | Extended | Data | DataAck | Dummy | End
  | Session | SessionAccepted | SessionOpen | SessionOpened | SessionRefused
  | SessionFinish | SessionFinished | SessionReset

text \<open>The discriminants (\<open>command as u8\<close>) and their partial inverse.\<close>

fun cmd_u8 :: "CellCommand \<Rightarrow> u8" where
  "cmd_u8 Create = 1"
| "cmd_u8 Created = 2"
| "cmd_u8 Relay = 3"
| "cmd_u8 Destroy = 4"
| "cmd_u8 Extend = 5"
| "cmd_u8 Extended = 6"
| "cmd_u8 Data = 7"
| "cmd_u8 DataAck = 8"
| "cmd_u8 Dummy = 9"
| "cmd_u8 End = 10"
| "cmd_u8 Session = 11"
| "cmd_u8 SessionAccepted = 12"
| "cmd_u8 SessionOpen = 13"
| "cmd_u8 SessionOpened = 14"
| "cmd_u8 SessionRefused = 15"
| "cmd_u8 SessionFinish = 16"
| "cmd_u8 SessionFinished = 17"
| "cmd_u8 SessionReset = 18"

definition from_u8 :: "u8 \<Rightarrow> CellCommand option" where
  "from_u8 b =
    (if b = 1 then Some Create else if b = 2 then Some Created else if b = 3 then Some Relay
     else if b = 4 then Some Destroy else if b = 5 then Some Extend
     else if b = 6 then Some Extended else if b = 7 then Some Data
     else if b = 8 then Some DataAck else if b = 9 then Some Dummy
     else if b = 10 then Some End else if b = 11 then Some Session
     else if b = 12 then Some SessionAccepted else if b = 13 then Some SessionOpen
     else if b = 14 then Some SessionOpened else if b = 15 then Some SessionRefused
     else if b = 16 then Some SessionFinish else if b = 17 then Some SessionFinished
     else if b = 18 then Some SessionReset else None)"

record OnionCell =
  cell_circuit_id :: u32
  cell_sequence_no :: u32
  cell_command :: CellCommand
  cell_stream_id :: u16
  cell_length :: u16
  cell_ephemeral_key :: bytes
  cell_mac :: bytes
  cell_payload :: bytes

definition wf_cell :: "OnionCell \<Rightarrow> bool" where
  "wf_cell c \<longleftrightarrow> length (cell_ephemeral_key c) = 32 \<and> length (cell_mac c) = 16 \<and>
     length (cell_payload c) = PAYLOAD_SIZE"

datatype cell_error =
    PayloadExceeds nat nat
  | UnknownCommand u8
  | LengthExceeds u16 nat

text \<open>\<open>OnionCell::new\<close>; the 32 bytes drawn from the generator are the first argument.\<close>

definition OnionCell_new ::
  "bytes \<Rightarrow> u32 \<Rightarrow> u32 \<Rightarrow> CellCommand \<Rightarrow> u16 \<Rightarrow> bytes \<Rightarrow> cell_error + OnionCell" where
  "OnionCell_new rnd cid seq cmd sid data =
    (if length data > PAYLOAD_SIZE then Inl (PayloadExceeds (length data) PAYLOAD_SIZE)
     else Inr \<lparr>cell_circuit_id = cid, cell_sequence_no = seq, cell_command = cmd,
               cell_stream_id = sid, cell_length = of_nat (length data),
               cell_ephemeral_key = rnd, cell_mac = replicate 16 0,
               cell_payload = put 0 data (replicate PAYLOAD_SIZE 0)\<rparr>)"

definition serialize :: "OnionCell \<Rightarrow> bytes" where
  "serialize c =
    (let buf = replicate ONION_CELL_SIZE 0;
         buf = put 0 (to_be 4 (cell_circuit_id c)) buf;
         buf = put 4 (to_be 4 (cell_sequence_no c)) buf;
         buf = put 8 [cmd_u8 (cell_command c)] buf;
         buf = put 9 (to_be 2 (cell_stream_id c)) buf;
         buf = put 11 (to_be 2 (cell_length c)) buf;
         buf = put 13 (cell_ephemeral_key c) buf;
         buf = put 45 (cell_payload c) buf
     in put (ONION_CELL_SIZE - 16) (cell_mac c) buf)"

definition parse :: "bytes \<Rightarrow> cell_error + OnionCell" where
  "parse buf =
    (let cid = from_be (subslice 0 4 buf);
         seq = from_be (subslice 4 8 buf)
     in case from_u8 (buf ! 8) of
          None \<Rightarrow> Inl (UnknownCommand (buf ! 8))
        | Some cmd \<Rightarrow>
            let sid = from_be (subslice 9 11 buf);
                len = from_be (subslice 11 13 buf)
            in if unat len > PAYLOAD_SIZE then Inl (LengthExceeds len PAYLOAD_SIZE)
               else Inr \<lparr>cell_circuit_id = cid, cell_sequence_no = seq, cell_command = cmd,
                         cell_stream_id = sid, cell_length = len,
                         cell_ephemeral_key = subslice 13 45 buf,
                         cell_mac = subslice (ONION_CELL_SIZE - 16) ONION_CELL_SIZE buf,
                         cell_payload = subslice 45 (45 + PAYLOAD_SIZE) buf\<rparr>)"

section \<open>The command byte\<close>

lemma from_u8_cmd_u8 [simp]: "from_u8 (cmd_u8 c) = Some c"
  by (cases c) (simp_all add: from_u8_def)

lemma from_u8_Some: "from_u8 b = Some c \<Longrightarrow> b = cmd_u8 c"
  by (auto simp: from_u8_def split: if_splits)

section \<open>The layout of a cell\<close>

lemma PAYLOAD_SIZE_eq: "PAYLOAD_SIZE = 8131"
  by (simp add: size_defs)

definition layout :: "OnionCell \<Rightarrow> bytes" where
  "layout c = to_be 4 (cell_circuit_id c) @ to_be 4 (cell_sequence_no c) @
     [cmd_u8 (cell_command c)] @ to_be 2 (cell_stream_id c) @ to_be 2 (cell_length c) @
     cell_ephemeral_key c @ cell_payload c @ cell_mac c"

lemma serialize_layout:
  assumes "wf_cell c"
  shows "serialize c = layout c"
proof -
  from assms have l: "length (cell_ephemeral_key c) = 32" "length (cell_mac c) = 16"
    "length (cell_payload c) = 8131"
    by (simp_all add: wf_cell_def PAYLOAD_SIZE_eq)
  then show ?thesis
    by (simp add: serialize_def Let_def replicate_zpad put_zpad zpad_0 layout_def size_defs)
qed

lemma length_serialize: "wf_cell c \<Longrightarrow> length (serialize c) = ONION_CELL_SIZE"
  by (simp add: serialize_layout layout_def wf_cell_def size_defs)

lemma parse_layout:
  assumes "wf_cell c"
  shows "parse (layout c) =
    (if unat (cell_length c) > PAYLOAD_SIZE then Inl (LengthExceeds (cell_length c) PAYLOAD_SIZE)
     else Inr c)"
proof -
  from assms have l: "length (cell_ephemeral_key c) = 32" "length (cell_mac c) = 16"
    "length (cell_payload c) = 8131"
    by (simp_all add: wf_cell_def PAYLOAD_SIZE_eq)
  have "subslice 0 4 (layout c) = to_be 4 (cell_circuit_id c)"
    and "subslice 4 8 (layout c) = to_be 4 (cell_sequence_no c)"
    and "layout c ! 8 = cmd_u8 (cell_command c)"
    and "subslice 9 11 (layout c) = to_be 2 (cell_stream_id c)"
    and "subslice 11 13 (layout c) = to_be 2 (cell_length c)"
    and "subslice 13 45 (layout c) = cell_ephemeral_key c"
    and "subslice 45 (45 + PAYLOAD_SIZE) (layout c) = cell_payload c"
    and "subslice (ONION_CELL_SIZE - 16) ONION_CELL_SIZE (layout c) = cell_mac c"
    using l by (simp_all add: layout_def subslice_def size_defs nth_append)
  then show ?thesis
    by (simp add: parse_def Let_def be_inverse)
qed

lemma parse_InrD:
  assumes "parse buf = Inr c" "length buf = ONION_CELL_SIZE"
  shows "wf_cell c" "layout c = buf" "unat (cell_length c) \<le> PAYLOAD_SIZE"
proof -
  from assms(1) obtain cmd where cmd: "from_u8 (buf ! 8) = Some cmd"
    and len: "unat (from_be (subslice 11 13 buf) :: u16) \<le> PAYLOAD_SIZE"
    and c: "c = \<lparr>cell_circuit_id = from_be (subslice 0 4 buf),
       cell_sequence_no = from_be (subslice 4 8 buf), cell_command = cmd,
       cell_stream_id = from_be (subslice 9 11 buf), cell_length = from_be (subslice 11 13 buf),
       cell_ephemeral_key = subslice 13 45 buf,
       cell_mac = subslice (ONION_CELL_SIZE - 16) ONION_CELL_SIZE buf,
       cell_payload = subslice 45 (45 + PAYLOAD_SIZE) buf\<rparr>"
    by (auto simp: parse_def Let_def split: option.splits if_splits)
  from assms(2) have n: "length buf = 8192" by (simp add: ONION_CELL_SIZE_def)
  show "wf_cell c" using n by (simp add: c wf_cell_def byte_simps size_defs)
  show "unat (cell_length c) \<le> PAYLOAD_SIZE" using len by (simp add: c)
  have "[cmd_u8 cmd] = subslice 8 9 buf"
    using from_u8_Some [OF cmd] n by (simp add: subslice_def take_Suc_conv_app_nth hd_drop_conv_nth take_Suc)
  moreover have "to_be 4 (from_be (subslice 0 4 buf) :: u32) = subslice 0 4 buf"
    "to_be 4 (from_be (subslice 4 8 buf) :: u32) = subslice 4 8 buf"
    "to_be 2 (from_be (subslice 9 11 buf) :: u16) = subslice 9 11 buf"
    "to_be 2 (from_be (subslice 11 13 buf) :: u16) = subslice 11 13 buf"
    using n by (simp_all add: byte_simps)
  moreover have "subslice 13 45 buf @ subslice 45 8176 buf @ subslice 8176 8192 buf = subslice 13 8192 buf"
    by (simp add: subslice_join)
  ultimately have "layout c = subslice 0 4 buf @ subslice 4 8 buf @ subslice 8 9 buf @
      subslice 9 11 buf @ subslice 11 13 buf @ subslice 13 8192 buf"
    by (simp add: c layout_def size_defs)
  also have "\<dots> = subslice 0 8192 buf" by (simp add: subslice_join)
  finally show "layout c = buf" using n by (simp add: subslice_full)
qed

section \<open>Properties\<close>

text \<open>
  C17. Parsing inverts serialization. A cell whose arrays have their declared sizes is read
  back exactly, unless its length field exceeds the payload capacity, in which case it is
  refused with that length.
\<close>

theorem parse_serialize:
  assumes "wf_cell c"
  shows "parse (serialize c) =
    (if unat (cell_length c) > PAYLOAD_SIZE then Inl (LengthExceeds (cell_length c) PAYLOAD_SIZE)
     else Inr c)"
  using assms by (simp add: serialize_layout parse_layout)

text \<open>
  The wire form is canonical. A frame of the cell size that parses is the
  serialization of the parsed cell, byte for byte, and that cell is well formed with a length
  inside its payload: no two frames denote the same cell.
\<close>

theorem parse_canonical:
  assumes "length buf = ONION_CELL_SIZE" and "parse buf = Inr c"
  shows "wf_cell c \<and> serialize c = buf \<and> unat (cell_length c) \<le> PAYLOAD_SIZE"
  using parse_InrD [OF assms(2,1)] by (simp add: serialize_layout)

definition zero_cell :: OnionCell where
  "zero_cell = \<lparr>cell_circuit_id = 1, cell_sequence_no = 2, cell_command = Data,
     cell_stream_id = 3, cell_length = 5, cell_ephemeral_key = replicate 32 7,
     cell_mac = replicate 16 9, cell_payload = replicate PAYLOAD_SIZE 0\<rparr>"

lemma wf_zero_cell: "wf_cell zero_cell"
  by (simp add: wf_cell_def zero_cell_def)

theorem parse_serialize_witness: "wf_cell zero_cell \<and> parse (serialize zero_cell) = Inr zero_cell"
  using parse_serialize [OF wf_zero_cell] wf_zero_cell by (simp add: zero_cell_def size_defs)

theorem parse_canonical_witness:
  "length (serialize zero_cell) = ONION_CELL_SIZE \<and> parse (serialize zero_cell) = Inr zero_cell \<and>
   unat (cell_length zero_cell) \<le> PAYLOAD_SIZE"
proof -
  have p: "parse (serialize zero_cell) = Inr zero_cell"
    using wf_zero_cell by (simp add: serialize_layout parse_layout) (simp add: zero_cell_def size_defs)
  show ?thesis
    using parse_canonical [OF length_serialize [OF wf_zero_cell] p] p
      length_serialize [OF wf_zero_cell] by blast
qed

section \<open>Cells built from data\<close>

lemma OnionCell_new_Inr:
  assumes "OnionCell_new rnd cid seq cmd sid data = Inr c" and "length rnd = 32"
  shows "wf_cell c" "unat (cell_length c) = length data" "length data \<le> PAYLOAD_SIZE"
    "take (length data) (cell_payload c) = data" "cell_command c = cmd"
    "cell_circuit_id c = cid" "cell_sequence_no c = seq" "cell_stream_id c = sid"
  using assms
  by (auto simp: OnionCell_new_def wf_cell_def put_def size_defs unat_of_nat split: if_splits)

lemma OnionCell_new_ok_iff: "is_ok (OnionCell_new rnd cid seq cmd sid data) \<longleftrightarrow> length data \<le> PAYLOAD_SIZE"
  by (simp add: OnionCell_new_def)

end
