(* ===== verification/Replay.thy ===== *)
theory Replay
  imports Prelude
begin

unbundle bit_operations_syntax

text \<open>
  Sequence numbers and the anti-replay window of \<open>src/src/onion/circuit.rs\<close>: the packing of
  a hop index and a counter into a backward sequence number, \<open>ReplayWindow\<close> with
  \<open>check_and_advance\<close>, and the sequence check a relay makes on forward cells.
\<close>

definition MAX_HOPS :: nat where [size_defs]: "MAX_HOPS = 8"
definition BWD_COUNTER_BITS :: nat where [size_defs]: "BWD_COUNTER_BITS = 29"
definition BWD_COUNTER_MASK :: u32 where [size_defs]: "BWD_COUNTER_MASK = push_bit BWD_COUNTER_BITS 1 - 1"
definition MAX_SEQ_GAP :: u32 where [size_defs]: "MAX_SEQ_GAP = 1000"

datatype CircuitError =
    HopIndexOutOfRange nat
  | SequenceExhausted
  | KeyDerivationFailed
  | MacVerificationFailed
  | AntiReplayRejection string
  | UnpinnedRelay
  | InvalidPadding
  | PayloadTooShort
  | ParseError string
  | InvalidCircuitId
  | General string

definition pack_backward_seq :: "nat \<Rightarrow> u32 \<Rightarrow> CircuitError + u32" where
  "pack_backward_seq hop_index counter =
    (if hop_index \<ge> MAX_HOPS then Inl (HopIndexOutOfRange hop_index)
     else if counter > BWD_COUNTER_MASK then Inl SequenceExhausted
     else Inr (push_bit BWD_COUNTER_BITS (of_nat hop_index) OR counter))"

text \<open>The two halves of a backward sequence number, as every reader splits it.\<close>

definition seq_hop :: "u32 \<Rightarrow> nat" where
  "seq_hop seq = unat (drop_bit BWD_COUNTER_BITS seq)"

definition seq_counter :: "u32 \<Rightarrow> u32" where
  "seq_counter seq = seq AND BWD_COUNTER_MASK"

record ReplayWindow =
  rw_window :: u64
  rw_next_expected :: u32

definition ReplayWindow_new :: ReplayWindow where
  "ReplayWindow_new = \<lparr>rw_window = 0, rw_next_expected = 1\<rparr>"

definition check_and_advance :: "ReplayWindow \<Rightarrow> u32 \<Rightarrow> CircuitError + ReplayWindow" where
  "check_and_advance rw seq =
    (let counter = seq_counter seq in
     if counter < rw_next_expected rw then
       (let diff = rw_next_expected rw - counter in
        if diff > 64 \<or> rw_window rw AND push_bit (unat (diff - 1)) 1 \<noteq> 0
        then Inl (AntiReplayRejection ''Replay on sequence'')
        else Inr (rw\<lparr>rw_window := rw_window rw OR push_bit (unat (diff - 1)) 1\<rparr>))
     else if counter = rw_next_expected rw then
       Inr \<lparr>rw_window = push_bit 1 (rw_window rw) OR 1, rw_next_expected = counter + 1\<rparr>
     else
       (let diff = counter - rw_next_expected rw in
        if diff > MAX_SEQ_GAP then Inl (AntiReplayRejection ''Sequence gap too large'')
        else Inr \<lparr>rw_window = (if diff \<ge> 63 then 1
                               else push_bit (unat (diff + 1)) (rw_window rw) OR 1),
                  rw_next_expected = counter + 1\<rparr>))"

section \<open>Backward sequence numbers\<close>

lemma mask_BWD: "BWD_COUNTER_MASK = mask 29"
  by (simp add: size_defs mask_eq_exp_minus_1)

lemma unat_seq_counter: "unat (seq_counter seq) = unat seq mod 2 ^ 29"
  by (simp add: seq_counter_def mask_BWD take_bit_eq_mod unat_mod flip: take_bit_eq_mask)

lemma seq_hop_nat: "seq_hop seq = unat seq div 2 ^ 29"
  by (simp add: seq_hop_def size_defs drop_bit_eq_div unat_div)

lemma seq_counter_less: "unat (seq_counter seq) < 2 ^ 29"
  by (simp add: unat_seq_counter)

lemma pack_backward_seq_nat:
  assumes "hop < MAX_HOPS" "unat counter < 2 ^ 29"
  shows "\<exists>seq. pack_backward_seq hop counter = Inr seq \<and> unat seq = hop * 2 ^ 29 + unat counter"
proof -
  from assms have h: "hop < 8" by (simp add: MAX_HOPS_def)
  have le: "counter \<le> BWD_COUNTER_MASK"
    using assms(2) by (simp add: word_le_nat_alt size_defs)
  have "push_bit 29 (of_nat hop) AND counter = 0"
  proof (rule bit_word_eqI)
    fix k
    show "bit (push_bit 29 (of_nat hop) AND counter) k = bit (0::u32) k"
    proof (cases "k < 29")
      case True
      then show ?thesis by (simp add: bit_and_iff bit_push_bit_iff)
    next
      case False
      have "unat counter < 2 ^ k" using assms(2) False
        by (meson le_less_trans less_le_trans not_less one_le_numeral power_increasing)
      then have "\<not> bit (unat counter) k" by (simp add: bit_iff_odd)
      then show ?thesis by (simp add: bit_and_iff bit_unsigned_iff)
    qed
  qed
  then have "push_bit 29 (of_nat hop) OR counter = push_bit 29 (of_nat hop) + counter"
    by (simp add: disjunctive_add_eq_or)
  moreover have "unat (push_bit 29 (of_nat hop :: u32) + counter) = hop * 2 ^ 29 + unat counter"
  proof -
    have "unat (push_bit 29 (of_nat hop :: u32)) = hop * 2 ^ 29"
      using h by (simp add: push_bit_eq_mult unat_word_ariths unat_of_nat)
    with assms(2) h show ?thesis by (simp add: unat_word_ariths)
  qed
  ultimately show ?thesis
    using assms(1) le by (simp add: pack_backward_seq_def not_le not_less BWD_COUNTER_BITS_def)
qed

lemma pack_backward_seq_Inr:
  assumes "pack_backward_seq hop counter = Inr seq"
  shows "hop < MAX_HOPS" "seq_hop seq = hop" "seq_counter seq = counter"
proof -
  from assms have h: "hop < MAX_HOPS" and "\<not> counter > BWD_COUNTER_MASK"
    by (auto simp: pack_backward_seq_def split: if_splits)
  then have c: "unat counter < 2 ^ 29" by (simp add: word_le_nat_alt not_less size_defs)
  from pack_backward_seq_nat [OF h c] assms have seq: "unat seq = hop * 2 ^ 29 + unat counter"
    by auto
  show "hop < MAX_HOPS" by (fact h)
  show "seq_hop seq = hop" using seq c by (simp add: seq_hop_nat)
  have "unat (seq_counter seq) = unat counter" using seq c by (simp add: unat_seq_counter)
  then show "seq_counter seq = counter" by (rule unsigned_word_eqI)
qed

section \<open>The window over natural numbers\<close>

definition rw_inv :: "ReplayWindow \<Rightarrow> bool" where
  "rw_inv rw \<longleftrightarrow> unat (rw_next_expected rw) \<le> 2 ^ 29"

lemma unat_succ: "unat (c :: u32) < 2 ^ 29 \<Longrightarrow> unat (c + 1) = unat c + 1"
  by (simp add: unat_word_ariths)

lemma check_and_advance_nat:
  fixes rw seq
  defines "c \<equiv> unat (seq_counter seq)" and "n \<equiv> unat (rw_next_expected rw)"
  shows "check_and_advance rw seq =
    (if c < n then
       (if n - c > 64 \<or> bit (rw_window rw) (n - c - 1)
        then Inl (AntiReplayRejection ''Replay on sequence'')
        else Inr (rw\<lparr>rw_window := rw_window rw OR push_bit (n - c - 1) 1\<rparr>))
     else if c - n > 1000 then Inl (AntiReplayRejection ''Sequence gap too large'')
     else Inr \<lparr>rw_window = (if c - n \<ge> 63 then 1 else push_bit (c - n + 1) (rw_window rw) OR 1),
               rw_next_expected = seq_counter seq + 1\<rparr>)"
proof -
  let ?c = "seq_counter seq" and ?n = "rw_next_expected rw"
  consider (old) "?c < ?n" | (eq) "?c = ?n" | (new) "?n < ?c" by force
  then show ?thesis
  proof cases
    case old
    then have "c < n" "unat (?n - ?c) = n - c" "unat (?n - ?c - 1) = n - c - 1"
      by (simp_all add: c_def n_def word_less_nat_alt unat_sub_if')
    with old show ?thesis
      by (simp add: check_and_advance_def Let_def word_less_nat_alt bit_iff_and_push_bit_not_eq_0)
  next
    case eq
    then show ?thesis by (simp add: check_and_advance_def Let_def c_def n_def)
  next
    case new
    then have d: "n < c" "unat (?c - ?n) = c - n"
      by (simp_all add: c_def n_def word_less_nat_alt unat_sub_if')
    moreover have "c < 2 ^ 29" using seq_counter_less by (simp add: c_def)
    ultimately have "unat (?c - ?n + 1) = c - n + 1" by (simp add: unat_succ)
    moreover from new have "?c \<noteq> ?n" by simp
    ultimately show ?thesis using new d
      by (simp add: check_and_advance_def Let_def word_less_nat_alt word_le_nat_alt size_defs)
  qed
qed

section \<open>No counter passes the window twice\<close>

definition rw_step :: "ReplayWindow \<Rightarrow> u32 \<Rightarrow> ReplayWindow option" where
  "rw_step rw seq = (case check_and_advance rw seq of Inl _ \<Rightarrow> None | Inr rw' \<Rightarrow> Some rw')"

definition rw_counter :: "u32 \<Rightarrow> nat" where
  "rw_counter seq = unat (seq_counter seq)"

definition rw_refused :: "ReplayWindow \<Rightarrow> nat \<Rightarrow> bool" where
  "rw_refused rw c \<longleftrightarrow> (let n = unat (rw_next_expected rw) in
     c < n \<and> (n - c > 64 \<or> bit (rw_window rw) (n - c - 1)))"

lemma rw_step_cases:
  assumes "rw_step rw seq = Some rw'"
  defines "c \<equiv> rw_counter seq" and "n \<equiv> unat (rw_next_expected rw)"
  obtains (late) "c < n" "n - c \<le> 64" "\<not> bit (rw_window rw) (n - c - 1)"
      "rw' = rw\<lparr>rw_window := rw_window rw OR push_bit (n - c - 1) 1\<rparr>"
    | (ahead) "n \<le> c" "c - n \<le> 1000" "unat (rw_next_expected rw') = c + 1"
      "rw_window rw' = (if c - n \<ge> 63 then 1 else push_bit (c - n + 1) (rw_window rw) OR 1)"
proof (cases "c < n")
  case True
  with assms late show ?thesis
    by (auto simp: rw_step_def check_and_advance_nat rw_counter_def split: if_splits)
next
  case False
  have "unat (seq_counter seq + 1) = c + 1"
    using seq_counter_less by (simp add: unat_succ c_def rw_counter_def)
  with False assms ahead show ?thesis
    by (auto simp: rw_step_def check_and_advance_nat rw_counter_def split: if_splits)
qed

lemma rw_counter_less: "rw_counter seq < 2 ^ 29"
  unfolding rw_counter_def by (rule seq_counter_less)

lemma rw_inv_new: "rw_inv ReplayWindow_new"
  by (simp add: rw_inv_def ReplayWindow_new_def)

interpretation rwf: replay_filter rw_inv rw_step rw_counter rw_refused
proof
  fix rw rw' :: ReplayWindow and seq c
  assume inv: "rw_inv rw"
  {
    assume st: "rw_step rw seq = Some rw'"
    show "rw_inv rw'" using st
    proof (cases rule: rw_step_cases)
      case late
      then show ?thesis using inv by (simp add: rw_inv_def)
    next
      case ahead
      then show ?thesis using rw_counter_less [of seq] by (simp add: rw_inv_def)
    qed
    show "rw_refused rw' (rw_counter seq)" using st
    proof (cases rule: rw_step_cases)
      case late
      then show ?thesis by (simp add: rw_refused_def Let_def bit_or_iff bit_exp_iff)
    next
      case ahead
      then show ?thesis by (simp add: rw_refused_def Let_def bit_or_iff)
    qed
    assume r: "rw_refused rw c"
    show "rw_refused rw' c" using st
    proof (cases rule: rw_step_cases)
      case late
      then show ?thesis using r by (auto simp: rw_refused_def Let_def bit_or_iff)
    next
      case ahead
      let ?n = "unat (rw_next_expected rw)" and ?d = "rw_counter seq - unat (rw_next_expected rw)"
      from r have r': "c < ?n" "?n - c > 64 \<or> bit (rw_window rw) (?n - c - 1)"
        by (simp_all add: rw_refused_def Let_def)
      have idx: "rw_counter seq + 1 - c - 1 = (?n - c - 1) + (?d + 1)"
        using r'(1) ahead(1) by simp
      show ?thesis
      proof (cases "rw_counter seq + 1 - c > 64")
        case True
        then show ?thesis using r'(1) ahead by (simp add: rw_refused_def Let_def)
      next
        case False
        then have "bit (rw_window rw) (?n - c - 1)" and "?d < 63"
          using r' ahead(1) by auto
        moreover have "(?n - c - 1) + (?d + 1) < 64" using False idx r'(1) ahead(1) by linarith
        ultimately have "bit (push_bit (?d + 1) (rw_window rw) OR 1) ((?n - c - 1) + (?d + 1))"
          by (simp add: bit_or_iff bit_push_bit_iff del: push_bit_Suc)
        then have "bit (rw_window rw') (rw_counter seq + 1 - c - 1)"
          unfolding idx ahead(4) using \<open>?d < 63\<close> by (simp del: push_bit_Suc)
        then show ?thesis
          using r'(1) ahead(1,3) by (simp add: rw_refused_def Let_def)
      qed
    qed
  }
  assume "rw_refused rw (rw_counter seq)"
  then show "rw_step rw seq = None"
    by (auto simp: rw_refused_def rw_step_def check_and_advance_nat rw_counter_def Let_def)
qed

section \<open>The window is exact\<close>

text \<open>
  The abstract filter remembers every accepted counter. \<open>highest\<close> is one more than the
  largest of them (1 when there is none), and the 64 bits of the window say which of the 64
  counters below it were accepted.
\<close>

definition highest :: "nat list \<Rightarrow> nat" where
  "highest acc = fold max (map Suc acc) 1"

definition rw_abs :: "ReplayWindow \<Rightarrow> nat list \<Rightarrow> bool" where
  "rw_abs rw acc \<longleftrightarrow> unat (rw_next_expected rw) = highest acc \<and> (\<forall>c \<in> set acc. c < highest acc) \<and>
     (\<forall>i < 64. bit (rw_window rw) i \<longleftrightarrow> i < highest acc \<and> highest acc - 1 - i \<in> set acc)"

lemma highest_snoc: "highest (acc @ [c]) = max (Suc c) (highest acc)"
  by (simp add: highest_def)

lemma rw_abs_new: "rw_abs ReplayWindow_new []"
  by (simp add: rw_abs_def ReplayWindow_new_def highest_def)

lemma rw_abs_step:
  assumes R: "rw_abs rw acc" and st: "rw_step rw seq = Some rw'"
  shows "rw_abs rw' (acc @ [rw_counter seq])"
  using st
proof (cases rule: rw_step_cases)
  case late
  let ?c = "rw_counter seq" and ?n = "highest acc"
  from R have n: "unat (rw_next_expected rw) = ?n" by (simp add: rw_abs_def)
  with late have "highest (acc @ [?c]) = ?n" by (simp add: highest_snoc)
  moreover have "?n - Suc i = ?c \<longleftrightarrow> i = ?n - Suc ?c" if "i < ?n" for i
    using that late(1) n by linarith
  ultimately show ?thesis
    using R late n by (auto simp: rw_abs_def bit_or_iff bit_exp_iff)
next
  case ahead
  let ?c = "rw_counter seq" and ?n = "highest acc"
  from R have n: "unat (rw_next_expected rw) = ?n" by (simp add: rw_abs_def)
  with ahead have h: "highest (acc @ [?c]) = Suc ?c" by (simp add: highest_snoc)
  have "bit (rw_window rw') i \<longleftrightarrow> i < Suc ?c \<and> ?c - i \<in> insert ?c (set acc)" if "i < 64" for i
  proof (cases "i = 0")
    case True
    then show ?thesis using ahead by (simp add: bit_or_iff)
  next
    case False
    have new: "bit (rw_window rw') i \<longleftrightarrow> ?c - ?n + 1 \<le> i \<and> bit (rw_window rw) (i - (?c - ?n + 1))"
      using ahead n that False
      by (auto simp: bit_or_iff bit_push_bit_iff bit_1_iff simp del: push_bit_Suc)
    have old: "bit (rw_window rw) (i - (?c - ?n + 1)) \<longleftrightarrow>
        i - (?c - ?n + 1) < ?n \<and> ?n - 1 - (i - (?c - ?n + 1)) \<in> set acc"
      using R that by (simp add: rw_abs_def)
    have idx: "?n - 1 - (i - (?c - ?n + 1)) = ?c - i" if "?c - ?n + 1 \<le> i"
      using that ahead(1) n by linarith
    have low: "\<not> ?c - i < ?n" if "\<not> ?c - ?n + 1 \<le> i"
      using that ahead(1) n by linarith
    show ?thesis
    proof (cases "?c - ?n + 1 \<le> i")
      case True
      with new old idx [OF True] False ahead(1) n R show ?thesis
        by (auto simp: rw_abs_def)
    next
      case c: False
      with new False R low show ?thesis by (auto simp: rw_abs_def)
    qed
  qed
  with h ahead n R show ?thesis by (fastforce simp: rw_abs_def)
qed

lemma rw_abs_after:
  "rw_abs rw acc \<Longrightarrow>
   rw_abs (after rw_step rw hs) (acc @ map rw_counter (accepted rw_step rw hs))"
proof (induction hs arbitrary: rw acc)
  case Nil
  then show ?case by simp
next
  case (Cons seq hs)
  show ?case
  proof (cases "rw_step rw seq")
    case None
    with Cons show ?thesis by simp
  next
    case (Some rw')
    from Cons.IH [OF rw_abs_step [OF Cons.prems Some]] show ?thesis by (simp add: Some)
  qed
qed

lemma rw_step_exact:
  assumes R: "rw_abs rw acc"
  shows "rw_step rw seq \<noteq> None \<longleftrightarrow>
    rw_counter seq \<notin> set acc \<and> highest acc \<le> rw_counter seq + 64 \<and> rw_counter seq \<le> highest acc + 1000"
proof -
  let ?c = "rw_counter seq" and ?n = "highest acc"
  from R have n: "unat (rw_next_expected rw) = ?n" by (simp add: rw_abs_def)
  show ?thesis
  proof (cases "?c < ?n")
    case True
    have "bit (rw_window rw) (?n - ?c - 1) \<longleftrightarrow> ?c \<in> set acc" if "?n - ?c \<le> 64"
      using R True that by (auto simp: rw_abs_def)
    moreover have "?n - ?c \<le> 64 \<longleftrightarrow> ?n \<le> ?c + 64" by linarith
    ultimately show ?thesis using True n
      by (auto simp: rw_step_def check_and_advance_nat rw_counter_def)
  next
    case False
    with R have "?c \<notin> set acc" by (auto simp: rw_abs_def)
    with False n show ?thesis
      by (auto simp: rw_step_def check_and_advance_nat rw_counter_def)
  qed
qed

section \<open>Properties\<close>

text \<open>
  C5. Anti-replay. Whatever sequence numbers are presented to a fresh window, in any order
  and with any repetition, the counters it lets through are pairwise distinct.
\<close>

theorem replay_window_no_replay:
  "distinct (map rw_counter (accepted rw_step ReplayWindow_new seqs))"
  by (rule rwf.accepted_distinct) (rule rw_inv_new)

text \<open>
  C4. The window is exact. After any history, a sequence number is let through if and only
  if its counter was not let through before, lies at most 64 below the first counter above all
  accepted ones, and at most 1000 above it. So the shifts and bit masks of the implementation
  lose no fresh in-window counter and forget no accepted one.
\<close>

theorem replay_window_exact:
  defines "acc \<equiv> \<lambda>hist. map rw_counter (accepted rw_step ReplayWindow_new hist)"
  shows "is_ok (check_and_advance (after rw_step ReplayWindow_new hist) seq) \<longleftrightarrow>
    rw_counter seq \<notin> set (acc hist) \<and> highest (acc hist) \<le> rw_counter seq + 64 \<and>
    rw_counter seq \<le> highest (acc hist) + 1000"
  using rw_step_exact [OF rw_abs_after [OF rw_abs_new], of hist seq]
  by (auto simp: acc_def rw_step_def split: sum.splits)

end
