(* ===== verification/Circuit.thy ===== *)
theory Circuit
  imports Cell Replay
begin

text \<open>
  Layered encryption of \<open>src/src/onion/circuit.rs\<close>: the client's \<open>OnionCircuit\<close>, the relay's
  \<open>RelayCircuitHop\<close> and the four cell transformations. The AEAD and the stream cipher are
  third-party code, so they are the fields of a parameter of type \<open>crypto\<close>; \<open>crypto_ok\<close>
  collects what the program relies on (opening a sealed box gives the plaintext, applying the
  keystream twice is the identity, lengths are kept). Methods that change both the state and
  the buffer return both with the result, on error paths too.
\<close>

section \<open>Keys and ciphers\<close>

record HopKeys =
  forward_key :: bytes
  backward_key :: bytes
  forward_mac :: bytes
  backward_mac :: bytes
  forward_aead_key :: bytes
  backward_aead_key :: bytes

text \<open>
  \<open>cr_seal key nonce aad pt\<close> is \<open>encrypt_in_place_detached\<close> (ciphertext and tag),
  \<open>cr_open key nonce aad ct tag\<close> is \<open>decrypt_in_place_detached\<close>, \<open>None\<close> when the tag does
  not verify (the buffer is then left as it was), and \<open>cr_stream key nonce\<close> is
  \<open>apply_keystream\<close> of a fresh ChaCha20 instance.
\<close>

record crypto =
  cr_seal :: "bytes \<Rightarrow> bytes \<Rightarrow> bytes \<Rightarrow> bytes \<Rightarrow> bytes \<times> bytes"
  cr_open :: "bytes \<Rightarrow> bytes \<Rightarrow> bytes \<Rightarrow> bytes \<Rightarrow> bytes \<Rightarrow> bytes option"
  cr_stream :: "bytes \<Rightarrow> bytes \<Rightarrow> bytes \<Rightarrow> bytes"

definition crypto_ok :: "crypto \<Rightarrow> bool" where
  "crypto_ok cr \<longleftrightarrow>
    (\<forall>k n a p. length (fst (cr_seal cr k n a p)) = length p \<and> length (snd (cr_seal cr k n a p)) = 16 \<and>
       cr_open cr k n a (fst (cr_seal cr k n a p)) (snd (cr_seal cr k n a p)) = Some p) \<and>
    (\<forall>k n a ct tag p. cr_open cr k n a ct tag = Some p \<longrightarrow> length p = length ct) \<and>
    (\<forall>k n d. length (cr_stream cr k n d) = length d \<and> cr_stream cr k n (cr_stream cr k n d) = d)"

definition build_nonce :: "u8 \<Rightarrow> u32 \<Rightarrow> u32 \<Rightarrow> bytes" where
  "build_nonce direction circuit_id sequence_no =
    (let nonce = replicate 12 0;
         nonce = put 0 [direction] nonce;
         nonce = put 4 (to_be 4 circuit_id) nonce
     in put 8 (to_be 4 sequence_no) nonce)"

definition seal_forward :: "crypto \<Rightarrow> HopKeys \<Rightarrow> bytes \<Rightarrow> bytes \<Rightarrow> bytes \<Rightarrow> bytes \<times> bytes" where
  "seal_forward cr keys nonce header pt = cr_seal cr (forward_aead_key keys) nonce header pt"

definition open_forward :: "crypto \<Rightarrow> HopKeys \<Rightarrow> bytes \<Rightarrow> bytes \<Rightarrow> bytes \<Rightarrow> bytes \<Rightarrow> CircuitError + bytes" where
  "open_forward cr keys nonce header ct tag =
    (case cr_open cr (forward_aead_key keys) nonce header ct tag of
       None \<Rightarrow> Inl MacVerificationFailed | Some pt \<Rightarrow> Inr pt)"

definition seal_backward :: "crypto \<Rightarrow> HopKeys \<Rightarrow> bytes \<Rightarrow> bytes \<Rightarrow> bytes \<Rightarrow> bytes \<times> bytes" where
  "seal_backward cr keys nonce header pt = cr_seal cr (backward_aead_key keys) nonce header pt"

definition open_backward :: "crypto \<Rightarrow> HopKeys \<Rightarrow> bytes \<Rightarrow> bytes \<Rightarrow> bytes \<Rightarrow> bytes \<Rightarrow> CircuitError + bytes" where
  "open_backward cr keys nonce header ct tag =
    (case cr_open cr (backward_aead_key keys) nonce header ct tag of
       None \<Rightarrow> Inl MacVerificationFailed | Some pt \<Rightarrow> Inr pt)"

definition encrypt_forward_stream :: "crypto \<Rightarrow> HopKeys \<Rightarrow> bytes \<Rightarrow> bytes \<Rightarrow> bytes" where
  "encrypt_forward_stream cr keys nonce data = cr_stream cr (forward_key keys) nonce data"

definition encrypt_backward_stream :: "crypto \<Rightarrow> HopKeys \<Rightarrow> bytes \<Rightarrow> bytes \<Rightarrow> bytes" where
  "encrypt_backward_stream cr keys nonce data = cr_stream cr (backward_key keys) nonce data"

section \<open>Client side\<close>

record OnionCircuit =
  oc_circuit_id :: u32
  oc_hops :: "HopKeys list"
  oc_sequence_no :: u32
  oc_bwd_replay_windows :: "ReplayWindow list"

definition OnionCircuit_new :: "u32 \<Rightarrow> OnionCircuit" where
  "OnionCircuit_new cid =
     \<lparr>oc_circuit_id = cid, oc_hops = [], oc_sequence_no = 1, oc_bwd_replay_windows = []\<rparr>"

definition add_hop :: "OnionCircuit \<Rightarrow> HopKeys \<Rightarrow> CircuitError + OnionCircuit" where
  "add_hop oc keys =
    (if length (oc_hops oc) \<ge> MAX_HOPS then Inl (HopIndexOutOfRange (length (oc_hops oc)))
     else Inr (oc\<lparr>oc_hops := oc_hops oc @ [keys],
                  oc_bwd_replay_windows := oc_bwd_replay_windows oc @ [ReplayWindow_new]\<rparr>))"

definition wrap_forward ::
  "crypto \<Rightarrow> OnionCircuit \<Rightarrow> OnionCell \<Rightarrow> CircuitError + (OnionCircuit \<times> OnionCell \<times> bytes)" where
  "wrap_forward cr oc cell =
    (if oc_sequence_no oc = - 1 then Inl SequenceExhausted
     else if cell_circuit_id cell \<noteq> oc_circuit_id oc then Inl InvalidCircuitId
     else
       let cell = cell\<lparr>cell_sequence_no := oc_sequence_no oc\<rparr> in
       case checked_add (oc_sequence_no oc) 1 of
         None \<Rightarrow> Inl SequenceExhausted
       | Some next \<Rightarrow>
           let oc' = oc\<lparr>oc_sequence_no := next\<rparr>;
               nonce = build_nonce 1 0 (cell_sequence_no cell);
               raw = serialize cell;
               raw = (if oc_hops oc = [] then raw
                      else let target_hop = last (oc_hops oc);
                               (ct, tag) = seal_forward cr target_hop nonce (subslice 4 8 raw)
                                             (subslice 8 (ONION_CELL_SIZE - 16) raw)
                           in take 8 raw @ ct @ tag);
               hop_count = length (oc_hops oc);
               raw = (if hop_count > 1
                      then fold (\<lambda>hop raw. take 8 raw @ encrypt_forward_stream cr hop nonce (drop 8 raw))
                             (rev (take (hop_count - 1) (oc_hops oc))) raw
                      else raw)
           in Inr (oc', cell, raw))"

definition unwrap_backward ::
  "crypto \<Rightarrow> OnionCircuit \<Rightarrow> bytes \<Rightarrow> OnionCircuit \<times> (CircuitError + nat \<times> OnionCell)" where
  "unwrap_backward cr oc raw =
    (let cell_cid = from_be (subslice 0 4 raw) :: u32 in
     if cell_cid \<noteq> oc_circuit_id oc then (oc, Inl InvalidCircuitId)
     else
       let seq = from_be (subslice 4 8 raw); hop_index = seq_hop seq in
       if hop_index \<ge> length (oc_hops oc) then (oc, Inl (HopIndexOutOfRange hop_index))
       else
         let nonce = build_nonce 2 0 seq;
             raw = fold (\<lambda>hop raw. take 8 raw @ encrypt_backward_stream cr hop nonce (drop 8 raw))
                     (take hop_index (oc_hops oc)) raw;
             target_hop = oc_hops oc ! hop_index;
             tag = subslice (ONION_CELL_SIZE - 16) ONION_CELL_SIZE raw
         in case open_backward cr target_hop nonce (subslice 4 8 raw)
                   (subslice 8 (ONION_CELL_SIZE - 16) raw) tag of
              Inl e \<Rightarrow> (oc, Inl e)
            | Inr pt \<Rightarrow>
                (case check_and_advance (oc_bwd_replay_windows oc ! hop_index) seq of
                   Inl e \<Rightarrow> (oc, Inl e)
                 | Inr w \<Rightarrow>
                     let oc' = oc\<lparr>oc_bwd_replay_windows := (oc_bwd_replay_windows oc)[hop_index := w]\<rparr>
                     in case parse (take 8 raw @ pt @ tag) of
                          Inl _ \<Rightarrow> (oc', Inl (ParseError ''cell''))
                        | Inr cell \<Rightarrow> (oc', Inr (hop_index, cell))))"

section \<open>Relay side\<close>

record RelayCircuitHop =
  rh_circuit_id :: u32
  rh_context_id :: u32
  rh_crypt :: HopKeys
  rh_expected_recv_seq :: u32
  rh_next_send_seq :: u32
  rh_hop_index :: nat

datatype PeelOutcome = AddressedToThisRelay CellCommand nat | ForwardDownstream

definition RelayCircuitHop_new :: "u32 \<Rightarrow> HopKeys \<Rightarrow> nat \<Rightarrow> RelayCircuitHop" where
  "RelayCircuitHop_new cid keys hop_index =
     \<lparr>rh_circuit_id = cid, rh_context_id = cid, rh_crypt = keys, rh_expected_recv_seq = 1,
      rh_next_send_seq = 1, rh_hop_index = hop_index\<rparr>"

definition peel_forward ::
  "crypto \<Rightarrow> RelayCircuitHop \<Rightarrow> bytes \<Rightarrow> RelayCircuitHop \<times> bytes \<times> (CircuitError + PeelOutcome)" where
  "peel_forward cr rh raw =
    (let cell_cid = from_be (subslice 0 4 raw) :: u32 in
     if cell_cid \<noteq> rh_circuit_id rh then (rh, raw, Inl InvalidCircuitId)
     else
       let seq = from_be (subslice 4 8 raw);
           nonce = build_nonce 1 0 seq;
           tag = subslice (ONION_CELL_SIZE - 16) ONION_CELL_SIZE raw
       in case open_forward cr (rh_crypt rh) nonce (subslice 4 8 raw)
                 (subslice 8 (ONION_CELL_SIZE - 16) raw) tag of
            Inr pt \<Rightarrow>
              let raw = take 8 raw @ pt @ tag in
              if seq < rh_expected_recv_seq rh
              then (rh, raw, Inl (AntiReplayRejection ''Stale sequence''))
              else if seq - rh_expected_recv_seq rh > MAX_SEQ_GAP
              then (rh, raw, Inl (AntiReplayRejection ''Sequence gap too large''))
              else (case checked_add seq 1 of
                  None \<Rightarrow> (rh, raw, Inl SequenceExhausted)
                | Some next_seq \<Rightarrow>
                    (case from_u8 (raw ! 8) of
                       None \<Rightarrow> (rh, raw, Inl (ParseError ''Unknown cell command''))
                     | Some command \<Rightarrow>
                         let len = unat (from_be (subslice 11 13 raw) :: u16) in
                         if len > PAYLOAD_SIZE then (rh, raw, Inl PayloadTooShort)
                         else (rh\<lparr>rh_expected_recv_seq := next_seq\<rparr>, raw,
                               Inr (AddressedToThisRelay command (min len PAYLOAD_SIZE)))))
          | Inl _ \<Rightarrow>
              (rh, take 8 raw @ encrypt_forward_stream cr (rh_crypt rh) nonce (drop 8 raw),
               Inr ForwardDownstream))"

definition wrap_backward_relay ::
  "crypto \<Rightarrow> RelayCircuitHop \<Rightarrow> bytes \<Rightarrow> bytes \<times> (CircuitError + unit)" where
  "wrap_backward_relay cr rh raw =
    (let seq = from_be (subslice 4 8 raw) in
     if seq_hop seq = rh_hop_index rh
     then (raw, Inl (AntiReplayRejection ''Relayed cell claims our hop index''))
     else let nonce = build_nonce 2 0 seq
          in (take 8 raw @ encrypt_backward_stream cr (rh_crypt rh) nonce (drop 8 raw), Inr ()))"

definition wrap_backward_originate ::
  "crypto \<Rightarrow> RelayCircuitHop \<Rightarrow> bytes \<Rightarrow> RelayCircuitHop \<times> bytes \<times> (CircuitError + unit)" where
  "wrap_backward_originate cr rh raw =
    (let counter = rh_next_send_seq rh in
     case checked_add counter 1 of
       None \<Rightarrow> (rh, raw, Inl SequenceExhausted)
     | Some next \<Rightarrow>
         let rh' = rh\<lparr>rh_next_send_seq := next\<rparr> in
         (case pack_backward_seq (rh_hop_index rh) counter of
            Inl e \<Rightarrow> (rh', raw, Inl e)
          | Inr seq \<Rightarrow>
              let raw = put 4 (to_be 4 seq) raw;
                  nonce = build_nonce 2 0 seq;
                  (ct, tag) = seal_backward cr (rh_crypt rh) nonce (subslice 4 8 raw)
                                (subslice 8 (ONION_CELL_SIZE - 16) raw)
              in (rh', take 8 raw @ ct @ tag, Inr ())))"

section \<open>Frames\<close>

text \<open>
  A frame is a circuit id, a sequence number and a body of 8184 bytes, of which the last 16
  are the tag. Every transformation leaves the eight header bytes alone, so the frame lemmas
  speak about bodies only.
\<close>

definition BODY_SIZE :: nat where [size_defs]: "BODY_SIZE = ONION_CELL_SIZE - 8"

definition frame :: "u32 \<Rightarrow> u32 \<Rightarrow> bytes \<Rightarrow> bytes" where
  "frame cid seq body = to_be 4 cid @ to_be 4 seq @ body"

definition body_ct :: "bytes \<Rightarrow> bytes" where
  "body_ct body = take (BODY_SIZE - 16) body"

definition body_tag :: "bytes \<Rightarrow> bytes" where
  "body_tag body = drop (BODY_SIZE - 16) body"

lemma frame_parts:
  assumes "length body = BODY_SIZE"
  shows "subslice 0 4 (frame cid seq body) = to_be 4 cid"
    "subslice 4 8 (frame cid seq body) = to_be 4 seq"
    "drop 8 (frame cid seq body) = body"
    "take 8 (frame cid seq body) @ xs = frame cid seq xs"
    "subslice 8 (ONION_CELL_SIZE - 16) (frame cid seq body) = body_ct body"
    "subslice (ONION_CELL_SIZE - 16) ONION_CELL_SIZE (frame cid seq body) = body_tag body"
    "length (frame cid seq body) = ONION_CELL_SIZE"
  using assms by (simp_all add: frame_def subslice_def body_ct_def body_tag_def size_defs)

lemma body_split: "body_ct body @ body_tag body = body"
  by (simp add: body_ct_def body_tag_def)

lemma body_append:
  "length ct = BODY_SIZE - 16 \<Longrightarrow> body_ct (ct @ tag) = ct"
  "length ct = BODY_SIZE - 16 \<Longrightarrow> body_tag (ct @ tag) = tag"
  by (simp_all add: body_ct_def body_tag_def)

lemma put_frame_cid: "put 0 (to_be 4 cid') (frame cid seq body) = frame cid' seq body"
  by (simp add: frame_def put_def)

lemma frame_of_raw:
  assumes "length raw = ONION_CELL_SIZE"
  obtains cid seq body where "raw = frame cid seq body" "length body = BODY_SIZE"
proof
  have "to_be 4 (from_be (subslice 0 4 raw) :: u32) = subslice 0 4 raw"
    "to_be 4 (from_be (subslice 4 8 raw) :: u32) = subslice 4 8 raw"
    using assms by (simp_all add: byte_simps size_defs)
  then show "raw = frame (from_be (subslice 0 4 raw)) (from_be (subslice 4 8 raw)) (drop 8 raw)"
    by (simp add: frame_def subslice_def drop_take flip: append_assoc)
       (metis append_take_drop_id drop_drop numeral_Bit0 take_add)
  show "length (drop 8 raw) = BODY_SIZE" using assms by (simp add: size_defs)
qed

lemma fold_frame:
  assumes "\<And>h b. length b = BODY_SIZE \<Longrightarrow> length (E h b) = BODY_SIZE" "length body = BODY_SIZE"
  shows "fold (\<lambda>h raw. take 8 raw @ E h (drop 8 raw)) hs (frame cid seq body) = frame cid seq (fold E hs body)"
    and "length (fold E hs body) = BODY_SIZE"
  using assms(2) by (induction hs arbitrary: body) (simp_all add: frame_parts assms(1))

section \<open>Laws of the ciphers\<close>

lemma crypto_okD:
  assumes "crypto_ok cr"
  shows "length (fst (cr_seal cr k n a p)) = length p" "length (snd (cr_seal cr k n a p)) = 16"
    "cr_open cr k n a (fst (cr_seal cr k n a p)) (snd (cr_seal cr k n a p)) = Some p"
    "cr_open cr k n a ct tag = Some q \<Longrightarrow> length q = length ct"
    "length (cr_stream cr k n d) = length d" "cr_stream cr k n (cr_stream cr k n d) = d"
  using assms unfolding crypto_ok_def by blast+

text \<open>The body a sealing hop produces from a plaintext body: ciphertext followed by the tag.\<close>

definition sealed_body :: "crypto \<Rightarrow> bytes \<Rightarrow> bytes \<Rightarrow> u32 \<Rightarrow> bytes \<Rightarrow> bytes" where
  "sealed_body cr key nonce seq body =
    (let (ct, tag) = cr_seal cr key nonce (to_be 4 seq) (body_ct body) in ct @ tag)"

definition open_body :: "crypto \<Rightarrow> bytes \<Rightarrow> bytes \<Rightarrow> u32 \<Rightarrow> bytes \<Rightarrow> bytes option" where
  "open_body cr key nonce seq body = cr_open cr key nonce (to_be 4 seq) (body_ct body) (body_tag body)"

lemma sealed_body_facts:
  assumes "crypto_ok cr" "length body = BODY_SIZE"
  shows "length (sealed_body cr key nonce seq body) = BODY_SIZE"
    "open_body cr key nonce seq (sealed_body cr key nonce seq body) = Some (body_ct body)"
    "length (body_tag (sealed_body cr key nonce seq body)) = 16"
proof -
  let ?r = "cr_seal cr key nonce (to_be 4 seq) (body_ct body)"
  have ct: "length (fst ?r) = BODY_SIZE - 16"
    using assms by (simp add: crypto_okD(1) body_ct_def size_defs)
  have s: "sealed_body cr key nonce seq body = fst ?r @ snd ?r"
    by (simp add: sealed_body_def split_beta)
  show "length (sealed_body cr key nonce seq body) = BODY_SIZE"
    using assms ct by (simp add: s crypto_okD(2) size_defs)
  show "open_body cr key nonce seq (sealed_body cr key nonce seq body) = Some (body_ct body)"
    using assms by (simp add: s open_body_def body_append [OF ct] crypto_okD(3))
  show "length (body_tag (sealed_body cr key nonce seq body)) = 16"
    using assms by (simp add: s body_append [OF ct] crypto_okD(2))
qed

section \<open>The transformations on frames\<close>

definition fwd_layers :: "crypto \<Rightarrow> bytes \<Rightarrow> HopKeys list \<Rightarrow> bytes \<Rightarrow> bytes" where
  "fwd_layers cr nonce ks body = foldr (\<lambda>k b. cr_stream cr (forward_key k) nonce b) ks body"

definition bwd_layers :: "crypto \<Rightarrow> bytes \<Rightarrow> HopKeys list \<Rightarrow> bytes \<Rightarrow> bytes" where
  "bwd_layers cr nonce ks body = foldr (\<lambda>k b. cr_stream cr (backward_key k) nonce b) ks body"

lemma length_fwd_layers: "crypto_ok cr \<Longrightarrow> length (fwd_layers cr nonce ks body) = length body"
  by (induction ks) (simp_all add: fwd_layers_def crypto_okD)

lemma length_bwd_layers: "crypto_ok cr \<Longrightarrow> length (bwd_layers cr nonce ks body) = length body"
  by (induction ks) (simp_all add: bwd_layers_def crypto_okD)

lemma bwd_layers_snoc: "bwd_layers cr nonce (ks @ [k]) body = bwd_layers cr nonce ks (cr_stream cr (backward_key k) nonce body)"
  by (simp add: bwd_layers_def)

lemma fold_bwd_layers:
  "crypto_ok cr \<Longrightarrow> fold (\<lambda>k b. encrypt_backward_stream cr k nonce b) ks (bwd_layers cr nonce ks body) = body"
  by (induction ks) (simp_all add: bwd_layers_def encrypt_backward_stream_def crypto_okD)

text \<open>Wrapping on the client: seal for the last hop, then one layer per earlier hop.\<close>

lemma wrap_forward_frame:
  assumes "wrap_forward cr oc cell = Inr (oc', cell', raw)" "crypto_ok cr" "wf_cell cell"
    "oc_hops oc = ks @ [k]"
  defines "seq \<equiv> oc_sequence_no oc"
  shows "raw = frame (cell_circuit_id cell) seq
           (fwd_layers cr (build_nonce 1 0 seq) ks
             (sealed_body cr (forward_aead_key k) (build_nonce 1 0 seq) seq (drop 8 (serialize cell'))))"
    and "cell' = cell\<lparr>cell_sequence_no := seq\<rparr>" "seq \<noteq> - 1"
    "cell_circuit_id cell = oc_circuit_id oc" "oc' = oc\<lparr>oc_sequence_no := seq + 1\<rparr>"
proof -
  from assms(1) have ne: "seq \<noteq> - 1" and id: "cell_circuit_id cell = oc_circuit_id oc"
    and cell': "cell' = cell\<lparr>cell_sequence_no := seq\<rparr>" and oc': "oc' = oc\<lparr>oc_sequence_no := seq + 1\<rparr>"
    by (auto simp: wrap_forward_def Let_def seq_def checked_add_def split: if_splits)
  then show "seq \<noteq> - 1" "cell_circuit_id cell = oc_circuit_id oc" "cell' = cell\<lparr>cell_sequence_no := seq\<rparr>"
    "oc' = oc\<lparr>oc_sequence_no := seq + 1\<rparr>" by simp_all
  let ?n = "build_nonce 1 0 seq" and ?body = "drop 8 (serialize cell')"
  let ?E = "\<lambda>hop b. encrypt_forward_stream cr hop ?n b"
  have wf': "wf_cell cell'" using assms(3) by (simp add: cell' wf_cell_def)
  have ser: "serialize cell' = frame (cell_circuit_id cell) seq ?body"
    using wf' by (simp add: serialize_layout layout_def frame_def cell')
  have lb: "length ?body = BODY_SIZE" using length_serialize [OF wf'] by (simp add: BODY_SIZE_def)
  let ?s = "sealed_body cr (forward_aead_key k) ?n seq ?body"
  have ls: "length ?s = BODY_SIZE" using assms(2) lb by (rule sealed_body_facts)
  have "raw = fold (\<lambda>hop raw. take 8 raw @ ?E hop (drop 8 raw)) (rev ks) (frame (cell_circuit_id cell) seq ?s)"
    using assms(1) frame_parts(2,4,5) [OF lb, of "cell_circuit_id cell" seq, folded ser]
    by (auto simp: wrap_forward_def Let_def assms(4) seal_forward_def sealed_body_def
        cell' split_beta checked_add_def simp flip: seq_def split: if_splits)
  also have "\<dots> = frame (cell_circuit_id cell) seq (fold ?E (rev ks) ?s)"
    by (rule fold_frame) (use ls assms(2) in \<open>simp_all add: encrypt_forward_stream_def crypto_okD\<close>)
  also have "fold ?E (rev ks) ?s = fwd_layers cr ?n ks ?s"
    by (simp add: fwd_layers_def encrypt_forward_stream_def foldr_conv_fold)
  finally show "raw = frame (cell_circuit_id cell) seq (fwd_layers cr ?n ks ?s)" .
qed

text \<open>Peeling at a relay that is not addressed strips exactly its own layer.\<close>

lemma peel_forward_through:
  assumes "crypto_ok cr" "length body = BODY_SIZE"
    "open_body cr (forward_aead_key (rh_crypt rh)) (build_nonce 1 0 seq) seq
       (cr_stream cr (forward_key (rh_crypt rh)) (build_nonce 1 0 seq) body) = None"
  shows "peel_forward cr rh (frame (rh_circuit_id rh) seq
           (cr_stream cr (forward_key (rh_crypt rh)) (build_nonce 1 0 seq) body)) =
         (rh, frame (rh_circuit_id rh) seq body, Inr ForwardDownstream)"
proof -
  let ?b = "cr_stream cr (forward_key (rh_crypt rh)) (build_nonce 1 0 seq) body"
  have l: "length ?b = BODY_SIZE" using assms by (simp add: crypto_okD)
  show ?thesis
    using assms
    by (simp add: peel_forward_def Let_def frame_parts [OF l] be_inverse open_forward_def
        open_body_def encrypt_forward_stream_def crypto_okD)
qed

text \<open>Peeling at the addressed relay: the plaintext cell, and the sequence number committed.\<close>

lemma peel_forward_addressed:
  assumes "length body = BODY_SIZE" "length pt = BODY_SIZE - 16"
    "open_body cr (forward_aead_key (rh_crypt rh)) (build_nonce 1 0 seq) seq body = Some pt"
    "rh_expected_recv_seq rh \<le> seq" "seq - rh_expected_recv_seq rh \<le> MAX_SEQ_GAP" "seq \<noteq> - 1"
    "parse (frame (rh_circuit_id rh) seq (pt @ body_tag body)) = Inr c"
  shows "peel_forward cr rh (frame (rh_circuit_id rh) seq body) =
    (rh\<lparr>rh_expected_recv_seq := seq + 1\<rparr>, frame (rh_circuit_id rh) seq (pt @ body_tag body),
     Inr (AddressedToThisRelay (cell_command c) (unat (cell_length c))))"
proof -
  let ?raw = "frame (rh_circuit_id rh) seq (pt @ body_tag body)"
  from assms(7) have p: "from_u8 (?raw ! 8) = Some (cell_command c)"
    "unat (from_be (subslice 11 13 ?raw) :: u16) = unat (cell_length c)"
    "unat (from_be (subslice 11 13 ?raw) :: u16) \<le> PAYLOAD_SIZE"
    by (auto simp: parse_def Let_def split: option.splits if_splits)
  have "checked_add seq 1 = Some (seq + 1)" using assms(6) by (simp add: checked_add_one)
  with p assms show ?thesis
    by (simp add: peel_forward_def Let_def frame_parts be_inverse open_forward_def open_body_def
        not_less not_le min_def)
qed

section \<open>Replay and error behaviour of a relay\<close>

text \<open>
  Only an authentic addressed frame moves the receive counter, and it moves it past the
  sequence number it carried.
\<close>

lemma peel_forward_state:
  assumes "peel_forward cr rh raw = (rh', raw', r)"
  shows "(\<exists>cmd len. r = Inr (AddressedToThisRelay cmd len)) \<and>
      rh_expected_recv_seq rh \<le> from_be (subslice 4 8 raw) \<and>
      rh' = rh\<lparr>rh_expected_recv_seq := from_be (subslice 4 8 raw) + 1\<rparr> \<and>
      unat (rh_expected_recv_seq rh') = unat (from_be (subslice 4 8 raw) :: u32) + 1
    \<or> \<not> (\<exists>cmd len. r = Inr (AddressedToThisRelay cmd len)) \<and> rh' = rh"
  using assms
  by (auto simp: peel_forward_def Let_def not_less dest: checked_add_Some
      split: if_splits sum.splits option.splits) (auto simp: checked_add_def split: if_splits)

definition relay_step :: "crypto \<Rightarrow> RelayCircuitHop \<Rightarrow> bytes \<Rightarrow> RelayCircuitHop option" where
  "relay_step cr rh raw = (case peel_forward cr rh raw of
     (rh', _, Inr (AddressedToThisRelay _ _)) \<Rightarrow> Some rh' | _ \<Rightarrow> None)"

definition raw_seq :: "bytes \<Rightarrow> nat" where
  "raw_seq raw = unat (from_be (subslice 4 8 raw) :: u32)"

lemma relay_step_Some:
  assumes "relay_step cr rh raw = Some rh'"
  shows "unat (rh_expected_recv_seq rh) \<le> raw_seq raw" "unat (rh_expected_recv_seq rh') = raw_seq raw + 1"
proof -
  obtain rh'' raw'' r where p: "peel_forward cr rh raw = (rh'', raw'', r)"
    using prod_cases3 by blast
  with assms have "\<exists>cmd len. r = Inr (AddressedToThisRelay cmd len)" "rh'' = rh'"
    by (auto simp: relay_step_def split: sum.splits PeelOutcome.splits)
  with peel_forward_state [OF p] show "unat (rh_expected_recv_seq rh) \<le> raw_seq raw"
    "unat (rh_expected_recv_seq rh') = raw_seq raw + 1"
    by (auto simp: raw_seq_def word_le_nat_alt)
qed

interpretation relayf: replay_filter "\<lambda>_. True" "relay_step cr" raw_seq
  "\<lambda>rh c. c < unat (rh_expected_recv_seq rh)" for cr
proof
  fix s s' :: RelayCircuitHop and k and c :: nat
  {
    assume "relay_step cr s k = Some s'"
    note st = relay_step_Some [OF this]
    then show "raw_seq k < unat (rh_expected_recv_seq s')" by simp
    assume "c < unat (rh_expected_recv_seq s)"
    with st show "c < unat (rh_expected_recv_seq s')" by simp
  }
  assume "raw_seq k < unat (rh_expected_recv_seq s)"
  then show "relay_step cr s k = None"
    using relay_step_Some(1) [of cr s k] by (cases "relay_step cr s k") force+
qed simp

end
