(* ===== verification/OnionPath.thy ===== *)
theory OnionPath
  imports Circuit
begin

text \<open>
  Cells along a whole circuit: what an intermediate relay does with a cell from its client
  side and with a cell from its downstream side (\<open>handle_relay_inner\<close> of
  \<open>src/src/gateway/server.rs\<close>, the per-link rewriting of circuit ids included), composed
  over any number of relays, and the two end-to-end delivery theorems of the protocol.
\<close>

text \<open>\<open>None\<close> means that the relay leaves its loop and tears the circuit down.\<close>

definition intermediate_forward ::
  "crypto \<Rightarrow> RelayCircuitHop \<Rightarrow> u32 \<Rightarrow> bytes \<Rightarrow> (RelayCircuitHop \<times> bytes) option" where
  "intermediate_forward cr rh downstream_id client_buf =
    (case peel_forward cr rh client_buf of
       (rh', buf, Inr ForwardDownstream) \<Rightarrow> Some (rh', put 0 (to_be 4 downstream_id) buf)
     | _ \<Rightarrow> None)"

definition intermediate_backward ::
  "crypto \<Rightarrow> RelayCircuitHop \<Rightarrow> u32 \<Rightarrow> bytes \<Rightarrow> bytes option" where
  "intermediate_backward cr rh downstream_id ds_buf =
    (if from_be (subslice 0 4 ds_buf) \<noteq> downstream_id then None
     else case wrap_backward_relay cr rh (put 0 (to_be 4 (rh_circuit_id rh)) ds_buf) of
            (buf, Inr _) \<Rightarrow> Some buf
          | (_, Inl _) \<Rightarrow> None)"

text \<open>
  A path is the list of intermediate relays in the order of the circuit, each with the
  circuit id of its downstream link.
\<close>

type_synonym path = "(RelayCircuitHop \<times> u32) list"

fun forward_path :: "crypto \<Rightarrow> path \<Rightarrow> bytes \<Rightarrow> bytes option" where
  "forward_path cr [] raw = Some raw"
| "forward_path cr ((rh, did) # rs) raw =
     (case intermediate_forward cr rh did raw of
        None \<Rightarrow> None | Some (_, raw') \<Rightarrow> forward_path cr rs raw')"

fun backward_path :: "crypto \<Rightarrow> path \<Rightarrow> bytes \<Rightarrow> bytes option" where
  "backward_path cr [] raw = Some raw"
| "backward_path cr ((rh, did) # rs) raw =
     (case backward_path cr rs raw of
        None \<Rightarrow> None | Some raw' \<Rightarrow> intermediate_backward cr rh did raw')"

text \<open>Each relay's circuit id is the downstream id of the link before it.\<close>

fun chained :: "u32 \<Rightarrow> path \<Rightarrow> u32 \<Rightarrow> bool" where
  "chained cid [] cid' = (cid = cid')"
| "chained cid ((rh, did) # rs) cid' = (rh_circuit_id rh = cid \<and> chained did rs cid')"

definition path_keys :: "path \<Rightarrow> HopKeys list" where
  "path_keys rs = map (\<lambda>(rh, _). rh_crypt rh) rs"

text \<open>
  No relay before the addressed one mistakes the layered body for a box sealed to itself: the
  one probabilistic assumption on the AEAD, stated for the bodies that occur.
\<close>

definition no_early_open :: "crypto \<Rightarrow> path \<Rightarrow> bytes \<Rightarrow> u32 \<Rightarrow> bytes \<Rightarrow> bool" where
  "no_early_open cr rs nonce seq body \<longleftrightarrow>
    (\<forall>i < length rs. open_body cr (forward_aead_key (path_keys rs ! i)) nonce seq
       (fwd_layers cr nonce (drop i (path_keys rs)) body) = None)"

lemma no_early_open_Cons:
  "no_early_open cr ((rh, did) # rs) nonce seq body \<longleftrightarrow>
     open_body cr (forward_aead_key (rh_crypt rh)) nonce seq
       (fwd_layers cr nonce (path_keys ((rh, did) # rs)) body) = None \<and>
     no_early_open cr rs nonce seq body"
  by (auto simp: no_early_open_def path_keys_def less_Suc_eq_0_disj)

lemma forward_path_frame:
  fixes seq :: u32
  assumes "crypto_ok cr" "length body = BODY_SIZE"
  defines "nonce \<equiv> build_nonce 1 0 seq"
  shows "chained cid rs cid' \<Longrightarrow> no_early_open cr rs nonce seq body \<Longrightarrow>
    forward_path cr rs (frame cid seq (fwd_layers cr nonce (path_keys rs) body)) = Some (frame cid' seq body)"
proof (induction rs arbitrary: cid)
  case Nil
  then show ?case by (simp add: path_keys_def fwd_layers_def)
next
  case (Cons r rs)
  obtain rh did where r: "r = (rh, did)" by (cases r)
  let ?b = "fwd_layers cr nonce (path_keys rs) body"
  have l: "length ?b = BODY_SIZE" using assms by (simp add: length_fwd_layers)
  have layer: "fwd_layers cr nonce (path_keys (r # rs)) body = cr_stream cr (forward_key (rh_crypt rh)) nonce ?b"
    by (simp add: r path_keys_def fwd_layers_def)
  from Cons.prems have "open_body cr (forward_aead_key (rh_crypt rh)) nonce seq
      (cr_stream cr (forward_key (rh_crypt rh)) nonce ?b) = None"
    by (simp add: r no_early_open_Cons flip: layer [unfolded r])
  from peel_forward_through [OF assms(1) l [unfolded nonce_def] this [unfolded nonce_def]]
  have "intermediate_forward cr rh did (frame cid seq (fwd_layers cr nonce (path_keys (r # rs)) body)) =
      Some (rh, frame did seq ?b)"
    unfolding layer using Cons.prems(1)
    by (simp add: intermediate_forward_def r put_frame_cid flip: nonce_def)
  moreover have "chained did rs cid'" "no_early_open cr rs nonce seq body"
    using Cons.prems by (simp_all add: r no_early_open_Cons)
  ultimately show ?case using Cons.IH by (simp add: r)
qed

text \<open>A cell with its circuit id and tag replaced, as the addressed relay sees it.\<close>

lemma frame_open_cell:
  assumes "wf_cell c" "length tag = 16"
  shows "frame cid (cell_sequence_no c) (body_ct (drop 8 (serialize c)) @ tag) =
    serialize (c\<lparr>cell_circuit_id := cid, cell_mac := tag\<rparr>)"
proof -
  have "wf_cell (c\<lparr>cell_circuit_id := cid, cell_mac := tag\<rparr>)"
    using assms by (simp add: wf_cell_def)
  then show ?thesis
    using assms by (simp add: serialize_layout layout_def frame_def body_ct_def size_defs wf_cell_def)
qed

lemma forward_delivery_aux:
  assumes cr: "crypto_ok cr" and wf: "wf_cell cell" and len: "unat (cell_length cell) \<le> PAYLOAD_SIZE"
    and hops: "oc_hops oc = path_keys rs @ [rh_crypt rl]"
    and chain: "chained (oc_circuit_id oc) rs (rh_circuit_id rl)"
    and wrap: "wrap_forward cr oc cell = Inr (oc', cell', raw)"
    and miss: "no_early_open cr rs (build_nonce 1 0 (oc_sequence_no oc)) (oc_sequence_no oc)
       (sealed_body cr (forward_aead_key (rh_crypt rl)) (build_nonce 1 0 (oc_sequence_no oc))
         (oc_sequence_no oc) (drop 8 (serialize cell')))"
    and seq: "rh_expected_recv_seq rl \<le> oc_sequence_no oc"
      "oc_sequence_no oc - rh_expected_recv_seq rl \<le> MAX_SEQ_GAP"
  obtains wire tag where "forward_path cr rs raw = Some wire" "length tag = 16"
    "peel_forward cr rl wire =
      (rl\<lparr>rh_expected_recv_seq := oc_sequence_no oc + 1\<rparr>,
       serialize (cell'\<lparr>cell_circuit_id := rh_circuit_id rl, cell_mac := tag\<rparr>),
       Inr (AddressedToThisRelay (cell_command cell) (unat (cell_length cell))))"
proof -
  let ?seq = "oc_sequence_no oc" and ?n = "build_nonce 1 0 (oc_sequence_no oc)"
  let ?pb = "drop 8 (serialize cell')"
  let ?s = "sealed_body cr (forward_aead_key (rh_crypt rl)) ?n ?seq ?pb"
  note w = wrap_forward_frame [OF wrap cr wf hops]
  have wf': "wf_cell cell'" using wf by (simp add: w(2) wf_cell_def)
  have lb: "length ?pb = BODY_SIZE" using length_serialize [OF wf'] by (simp add: BODY_SIZE_def)
  note sf = sealed_body_facts [OF cr lb, of "forward_aead_key (rh_crypt rl)" ?n ?seq]
  let ?c = "cell'\<lparr>cell_circuit_id := rh_circuit_id rl, cell_mac := body_tag ?s\<rparr>"
  have seqc: "cell_sequence_no cell' = ?seq" by (simp add: w(2))
  have same: "cell_command cell' = cell_command cell" "cell_length cell' = cell_length cell"
    by (simp_all add: w(2))
  have fr: "frame (rh_circuit_id rl) ?seq (body_ct ?pb @ body_tag ?s) = serialize ?c"
    using frame_open_cell [OF wf' sf(3), of "rh_circuit_id rl"] by (simp add: seqc)
  have wfc: "wf_cell ?c" using wf' sf(3) by (simp add: wf_cell_def)
  have "parse (serialize ?c) = Inr ?c"
    using wfc len by (simp add: serialize_layout parse_layout w(2))
  then have ps: "parse (frame (rh_circuit_id rl) ?seq (body_ct ?pb @ body_tag ?s)) = Inr ?c"
    by (simp add: fr)
  have lct: "length (body_ct ?pb) = BODY_SIZE - 16" using lb by (simp add: body_ct_def)
  show ?thesis
  proof
    show "forward_path cr rs raw = Some (frame (rh_circuit_id rl) ?seq ?s)"
      unfolding w(1) w(4) by (rule forward_path_frame [OF cr sf(1) chain miss])
    show "length (body_tag ?s) = 16" by (rule sf(3))
    show "peel_forward cr rl (frame (rh_circuit_id rl) ?seq ?s) =
      (rl\<lparr>rh_expected_recv_seq := ?seq + 1\<rparr>, serialize ?c,
       Inr (AddressedToThisRelay (cell_command cell) (unat (cell_length cell))))"
      using peel_forward_addressed [OF sf(1) lct sf(2) seq w(3) ps] unfolding fr by (simp add: same)
  qed
qed

section \<open>The way back\<close>

lemma backward_path_frame:
  assumes "crypto_ok cr" "length body = BODY_SIZE" "\<forall>(rh, _) \<in> set rs. rh_hop_index rh \<noteq> seq_hop seq"
  shows "chained cid rs cid' \<Longrightarrow>
    backward_path cr rs (frame cid' seq body) =
      Some (frame cid seq (bwd_layers cr (build_nonce 2 0 seq) (path_keys rs) body))"
  using assms(3)
proof (induction rs arbitrary: cid)
  case Nil
  then show ?case by (simp add: path_keys_def bwd_layers_def)
next
  case (Cons r rs)
  obtain rh did where r: "r = (rh, did)" by (cases r)
  let ?b = "bwd_layers cr (build_nonce 2 0 seq) (path_keys rs) body"
  have l: "length ?b = BODY_SIZE" using assms by (simp add: length_bwd_layers)
  have IH: "backward_path cr rs (frame cid' seq body) = Some (frame did seq ?b)"
    using Cons by (simp add: r)
  have "intermediate_backward cr rh did (frame did seq ?b) =
      Some (frame cid seq (cr_stream cr (backward_key (rh_crypt rh)) (build_nonce 2 0 seq) ?b))"
    using Cons.prems
    by (simp add: r intermediate_backward_def frame_parts [OF l] be_inverse put_frame_cid
        wrap_backward_relay_def Let_def encrypt_backward_stream_def)
  then show ?case using IH by (simp add: r path_keys_def bwd_layers_def)
qed

lemma originate_frame:
  assumes "wrap_backward_originate cr rl (serialize c) = (rl', wire, Inr ())" "wf_cell c"
  obtains seq where "pack_backward_seq (rh_hop_index rl) (rh_next_send_seq rl) = Inr seq"
    "rl' = rl\<lparr>rh_next_send_seq := rh_next_send_seq rl + 1\<rparr>"
    "wire = frame (cell_circuit_id c) seq
       (sealed_body cr (backward_aead_key (rh_crypt rl)) (build_nonce 2 0 seq) seq
         (drop 8 (serialize (c\<lparr>cell_sequence_no := seq\<rparr>))))"
proof -
  have lb: "length (drop 8 (serialize c)) = BODY_SIZE"
    using length_serialize [OF assms(2)] by (simp add: BODY_SIZE_def)
  have wf: "wf_cell (c\<lparr>cell_sequence_no := seq\<rparr>)" for seq using assms(2) by (simp add: wf_cell_def)
  have ser: "put 4 (to_be 4 seq) (serialize c) = frame (cell_circuit_id c) seq (drop 8 (serialize c))" for seq
    using assms(2) by (simp add: serialize_layout layout_def frame_def put_def)
  have same: "drop 8 (serialize (c\<lparr>cell_sequence_no := seq\<rparr>)) = drop 8 (serialize c)" for seq
    using assms(2) wf [of seq] by (simp add: serialize_layout layout_def)
  from assms(1) obtain seq where "pack_backward_seq (rh_hop_index rl) (rh_next_send_seq rl) = Inr seq"
    and "rl' = rl\<lparr>rh_next_send_seq := rh_next_send_seq rl + 1\<rparr>"
    and "wire = frame (cell_circuit_id c) seq
       (sealed_body cr (backward_aead_key (rh_crypt rl)) (build_nonce 2 0 seq) seq (drop 8 (serialize c)))"
    by (auto simp: wrap_backward_originate_def Let_def split_beta ser frame_parts [OF lb] checked_add_one
        seal_backward_def sealed_body_def split: option.splits sum.splits if_splits)
  then show ?thesis using that by (simp add: same)
qed

lemma unwrap_backward_frame:
  assumes cr: "crypto_ok cr" and l: "length body = BODY_SIZE" and lpt: "length pt = BODY_SIZE - 16"
    and hop: "seq_hop seq = j" "j < length (oc_hops oc)" "take j (oc_hops oc) = ks"
    and opn: "open_body cr (backward_aead_key (oc_hops oc ! j)) (build_nonce 2 0 seq) seq body = Some pt"
    and win: "check_and_advance (oc_bwd_replay_windows oc ! j) seq = Inr w"
    and ps: "parse (frame (oc_circuit_id oc) seq (pt @ body_tag body)) = Inr c"
  shows "unwrap_backward cr oc (frame (oc_circuit_id oc) seq (bwd_layers cr (build_nonce 2 0 seq) ks body)) =
    (oc\<lparr>oc_bwd_replay_windows := (oc_bwd_replay_windows oc)[j := w]\<rparr>, Inr (j, c))"
proof -
  let ?n = "build_nonce 2 0 seq" and ?cid = "oc_circuit_id oc"
  let ?lb = "bwd_layers cr ?n ks body"
  have ll: "length ?lb = BODY_SIZE" using cr l by (simp add: length_bwd_layers)
  have fold: "fold (\<lambda>hop raw. take 8 raw @ encrypt_backward_stream cr hop ?n (drop 8 raw)) ks
      (frame ?cid seq ?lb) = frame ?cid seq body"
    using fold_frame(1) [OF _ ll, of "\<lambda>hop. encrypt_backward_stream cr hop ?n"] cr
    by (simp add: encrypt_backward_stream_def crypto_okD)
       (simp add: fold_bwd_layers [OF cr])
  show ?thesis
    using hop opn win ps
    by (simp add: unwrap_backward_def Let_def frame_parts [OF ll] frame_parts [OF l] be_inverse
        fold open_backward_def open_body_def)
qed

section \<open>Properties\<close>

text \<open>
  C2. Forward delivery through any number of hops. A cell the client wraps for a circuit
  travels through the intermediate relays, each of which strips one layer and rewrites the
  circuit id, and reaches the last relay, which recognizes it as addressed to itself: it gets
  the client's cell back, with its own circuit id and a 16-byte tag and every other field
  unchanged, reports the cell's command and length, and advances its receive counter past the
  cell's sequence number. Assumed are the laws of the ciphers, that no earlier relay can open
  the box, and that the receive counter of the last relay is at most the sequence number and
  within the gap.
\<close>

theorem forward_delivery:
  assumes "crypto_ok cr" "wf_cell cell" "unat (cell_length cell) \<le> PAYLOAD_SIZE"
    and "oc_hops oc = path_keys rs @ [rh_crypt rl]"
    and "chained (oc_circuit_id oc) rs (rh_circuit_id rl)"
    and "wrap_forward cr oc cell = Inr (oc', cell', raw)"
    and "no_early_open cr rs (build_nonce 1 0 (oc_sequence_no oc)) (oc_sequence_no oc)
       (sealed_body cr (forward_aead_key (rh_crypt rl)) (build_nonce 1 0 (oc_sequence_no oc))
         (oc_sequence_no oc) (drop 8 (serialize cell')))"
    and "rh_expected_recv_seq rl \<le> oc_sequence_no oc"
      "oc_sequence_no oc - rh_expected_recv_seq rl \<le> MAX_SEQ_GAP"
  shows "\<exists>wire tag. forward_path cr rs raw = Some wire \<and> length tag = 16 \<and>
    peel_forward cr rl wire =
      (rl\<lparr>rh_expected_recv_seq := oc_sequence_no oc + 1\<rparr>,
       serialize (cell\<lparr>cell_sequence_no := oc_sequence_no oc,
                       cell_circuit_id := rh_circuit_id rl, cell_mac := tag\<rparr>),
       Inr (AddressedToThisRelay (cell_command cell) (unat (cell_length cell))))"
  using forward_delivery_aux [OF assms] wrap_forward_frame(2) [OF assms(6,1,2,4)] by metis

text \<open>
  C3. Backward delivery from any hop. A response cell that relay \<open>j\<close> of the circuit
  originates gains one layer at each relay before it and reaches the client, which attributes
  it to hop \<open>j\<close> and recovers the cell: same command, stream, length and payload, with the
  packed sequence number. Only the replay window of hop \<open>j\<close> changes. Assumed are the laws of
  the ciphers, that the relays before \<open>j\<close> do not have hop index \<open>j\<close>, and that the window
  of hop \<open>j\<close> admits the number.
\<close>

theorem backward_delivery:
  assumes cr: "crypto_ok cr" and wf: "wf_cell c" "unat (cell_length c) \<le> PAYLOAD_SIZE"
    and hops: "oc_hops oc = path_keys rs @ rh_crypt rl # rest" and j: "rh_hop_index rl = length rs"
    and idx: "\<forall>(rh, _) \<in> set rs. rh_hop_index rh \<noteq> length rs"
    and chain: "chained (oc_circuit_id oc) rs (cell_circuit_id c)"
    and orig: "wrap_backward_originate cr rl (serialize c) = (rl', wire, Inr ())"
    and win: "pack_backward_seq (length rs) (rh_next_send_seq rl) = Inr seq"
      "check_and_advance (oc_bwd_replay_windows oc ! length rs) seq = Inr w"
  shows "\<exists>wire' tag. backward_path cr rs wire = Some wire' \<and> length tag = 16 \<and>
    unwrap_backward cr oc wire' =
      (oc\<lparr>oc_bwd_replay_windows := (oc_bwd_replay_windows oc)[length rs := w]\<rparr>,
       Inr (length rs, c\<lparr>cell_sequence_no := seq, cell_circuit_id := oc_circuit_id oc, cell_mac := tag\<rparr>))"
proof -
  let ?n = "build_nonce 2 0 seq" and ?c = "c\<lparr>cell_sequence_no := seq\<rparr>"
  let ?s = "sealed_body cr (backward_aead_key (rh_crypt rl)) ?n seq (drop 8 (serialize ?c))"
  have wire: "wire = frame (cell_circuit_id c) seq ?s"
    using originate_frame [OF orig wf(1)] win(1) j by (metis sum.inject(2))
  have wfc: "wf_cell ?c" using wf by (simp add: wf_cell_def)
  have lb: "length (drop 8 (serialize ?c)) = BODY_SIZE"
    using length_serialize [OF wfc] by (simp add: BODY_SIZE_def)
  note sf = sealed_body_facts [OF cr lb, of "backward_aead_key (rh_crypt rl)" ?n seq]
  have hop: "seq_hop seq = length rs" using pack_backward_seq_Inr [OF win(1)] by simp
  have path: "backward_path cr rs wire = Some (frame (oc_circuit_id oc) seq (bwd_layers cr ?n (path_keys rs) ?s))"
    unfolding wire by (rule backward_path_frame [OF cr sf(1) _ chain]) (use idx hop in simp)
  let ?d = "?c\<lparr>cell_circuit_id := oc_circuit_id oc, cell_mac := body_tag ?s\<rparr>"
  have "wf_cell ?d" using wfc sf(3) by (simp add: wf_cell_def)
  then have ps: "parse (frame (oc_circuit_id oc) seq (body_ct (drop 8 (serialize ?c)) @ body_tag ?s)) = Inr ?d"
    using frame_open_cell [OF wfc sf(3), of "oc_circuit_id oc"] wf(2)
    by (simp add: serialize_layout parse_layout)
  have lct: "length (body_ct (drop 8 (serialize ?c))) = BODY_SIZE - 16" using lb by (simp add: body_ct_def)
  have lr: "length (path_keys rs) = length rs" by (simp add: path_keys_def)
  have "unwrap_backward cr oc (frame (oc_circuit_id oc) seq (bwd_layers cr ?n (path_keys rs) ?s)) =
      (oc\<lparr>oc_bwd_replay_windows := (oc_bwd_replay_windows oc)[length rs := w]\<rparr>, Inr (length rs, ?d))"
    by (rule unwrap_backward_frame [OF cr sf(1) lct hop _ _ _ win(2) ps])
       (use sf(2) in \<open>simp_all add: hops lr nth_append\<close>)
  with path sf(3) show ?thesis by blast
qed

section \<open>A concrete cipher and a concrete circuit\<close>

text \<open>
  An instance of the parameter that satisfies \<open>crypto_ok\<close>: a tag that names the key and a
  one-byte exclusive-or keystream. It serves to show that the hypotheses of the delivery
  theorems hold together.
\<close>

definition key_byte :: "bytes \<Rightarrow> u8" where
  "key_byte k = hd (k @ [0])"

definition xor_crypto :: crypto where
  "xor_crypto = \<lparr>cr_seal = (\<lambda>k n a p. (p, replicate 16 (key_byte k))),
     cr_open = (\<lambda>k n a ct tag. if tag = replicate 16 (key_byte k) then Some ct else None),
     cr_stream = (\<lambda>k n d. map (\<lambda>b. xor b (key_byte k)) d)\<rparr>"

lemma crypto_ok_xor: "crypto_ok xor_crypto"
  by (simp add: crypto_ok_def xor_crypto_def comp_def xor.assoc)

definition flat_keys :: "u8 \<Rightarrow> HopKeys" where
  "flat_keys b = \<lparr>forward_key = [b], backward_key = [b], forward_mac = [b], backward_mac = [b],
     forward_aead_key = [b], backward_aead_key = [b]\<rparr>"

definition relay_a :: RelayCircuitHop where
  "relay_a = RelayCircuitHop_new 1 (flat_keys 1) 0"

definition relay_b :: RelayCircuitHop where
  "relay_b = RelayCircuitHop_new 5 (flat_keys 2) 1"

definition circuit_ab :: OnionCircuit where
  "circuit_ab = \<lparr>oc_circuit_id = 1, oc_hops = [flat_keys 1, flat_keys 2], oc_sequence_no = 1,
     oc_bwd_replay_windows = [ReplayWindow_new, ReplayWindow_new]\<rparr>"

lemma circuit_ab_built:
  "ebind (add_hop (OnionCircuit_new 1) (flat_keys 1)) (\<lambda>oc. add_hop oc (flat_keys 2)) = Inr circuit_ab"
  by (simp add: add_hop_def OnionCircuit_new_def circuit_ab_def MAX_HOPS_def)

lemma xor_tag:
  "wf_cell c \<Longrightarrow> body_tag (sealed_body xor_crypto k n seq (drop 8 (serialize c))) = replicate 16 (key_byte k)"
  using length_serialize [of c]
  by (simp add: sealed_body_def xor_crypto_def body_tag_def body_ct_def size_defs)

lemma no_early_open_ab:
  assumes "wf_cell c"
  shows "no_early_open xor_crypto [(relay_a, 5)] n seq (sealed_body xor_crypto [2] n seq (drop 8 (serialize c)))"
proof -
  have "body_tag (fwd_layers xor_crypto n [flat_keys 1] (sealed_body xor_crypto [2] n seq (drop 8 (serialize c)))) =
      map (\<lambda>b. xor b 1) (body_tag (sealed_body xor_crypto [2] n seq (drop 8 (serialize c))))"
    by (simp add: fwd_layers_def xor_crypto_def flat_keys_def key_byte_def body_tag_def drop_map)
  also have "\<dots> = replicate 16 3" using assms by (simp add: xor_tag key_byte_def)
  finally show ?thesis
    by (simp add: no_early_open_def path_keys_def relay_a_def RelayCircuitHop_new_def open_body_def)
       (simp add: xor_crypto_def flat_keys_def key_byte_def)
qed

theorem forward_delivery_witness:
  "\<exists>oc' cell' raw wire tag.
     wrap_forward xor_crypto circuit_ab zero_cell = Inr (oc', cell', raw) \<and>
     forward_path xor_crypto [(relay_a, 5)] raw = Some wire \<and> length tag = 16 \<and>
     peel_forward xor_crypto relay_b wire =
       (relay_b\<lparr>rh_expected_recv_seq := 2\<rparr>,
        serialize (zero_cell\<lparr>cell_sequence_no := 1, cell_circuit_id := 5, cell_mac := tag\<rparr>),
        Inr (AddressedToThisRelay Data 5))"
proof -
  have d: "oc_hops circuit_ab = path_keys [(relay_a, 5)] @ [rh_crypt relay_b]"
    "chained (oc_circuit_id circuit_ab) [(relay_a, 5)] (rh_circuit_id relay_b)"
    "rh_expected_recv_seq relay_b \<le> oc_sequence_no circuit_ab"
    "oc_sequence_no circuit_ab - rh_expected_recv_seq relay_b \<le> MAX_SEQ_GAP"
    "forward_aead_key (rh_crypt relay_b) = [2]"
    by (simp_all add: circuit_ab_def relay_a_def relay_b_def RelayCircuitHop_new_def path_keys_def flat_keys_def)
  obtain oc' cell' raw where w: "wrap_forward xor_crypto circuit_ab zero_cell = Inr (oc', cell', raw)"
    and c: "cell' = zero_cell\<lparr>cell_sequence_no := 1\<rparr>"
    by (auto simp: wrap_forward_def circuit_ab_def zero_cell_def Let_def checked_add_one split_beta)
  have wfc: "wf_cell cell'" using wf_zero_cell by (simp add: c wf_cell_def)
  have len: "unat (cell_length zero_cell) \<le> PAYLOAD_SIZE" by (simp add: zero_cell_def size_defs)
  show ?thesis
    using forward_delivery [OF crypto_ok_xor wf_zero_cell len d(1,2) w
        no_early_open_ab [OF wfc, folded d(5)] d(3,4)] w
    by (simp add: circuit_ab_def relay_b_def RelayCircuitHop_new_def zero_cell_def)
qed

theorem backward_delivery_witness:
  "\<exists>rl' wire wire' tag w.
     wrap_backward_originate xor_crypto relay_b (serialize (zero_cell\<lparr>cell_circuit_id := 5\<rparr>)) = (rl', wire, Inr ()) \<and>
     backward_path xor_crypto [(relay_a, 5)] wire = Some wire' \<and> length tag = 16 \<and>
     unwrap_backward xor_crypto circuit_ab wire' =
       (circuit_ab\<lparr>oc_bwd_replay_windows := [ReplayWindow_new, w]\<rparr>,
        Inr (1, zero_cell\<lparr>cell_sequence_no := 536870913, cell_mac := tag\<rparr>))"
proof -
  let ?c = "zero_cell\<lparr>cell_circuit_id := 5\<rparr>"
  have d: "oc_hops circuit_ab = path_keys [(relay_a, 5)] @ rh_crypt relay_b # []"
    "rh_hop_index relay_b = length [(relay_a, 5 :: u32)]"
    "\<forall>(rh, _) \<in> set [(relay_a, 5 :: u32)]. rh_hop_index rh \<noteq> length [(relay_a, 5 :: u32)]"
    "chained (oc_circuit_id circuit_ab) [(relay_a, 5)] (cell_circuit_id ?c)"
    by (simp_all add: circuit_ab_def relay_a_def relay_b_def RelayCircuitHop_new_def path_keys_def)
  have wfc: "wf_cell ?c" using wf_zero_cell by (simp add: wf_cell_def)
  have len: "unat (cell_length ?c) \<le> PAYLOAD_SIZE" by (simp add: zero_cell_def size_defs)
  have pk: "pack_backward_seq 1 1 = Inr 536870913"
    by (simp add: pack_backward_seq_def size_defs)
  then have pk': "pack_backward_seq (length [(relay_a, 5 :: u32)]) (rh_next_send_seq relay_b) = Inr 536870913"
    by (simp add: relay_b_def RelayCircuitHop_new_def)
  obtain w where win: "check_and_advance (oc_bwd_replay_windows circuit_ab ! length [(relay_a, 5 :: u32)]) 536870913 = Inr w"
    by (simp add: circuit_ab_def ReplayWindow_new_def check_and_advance_def Let_def seq_counter_def size_defs)
  obtain rl' wire where o: "wrap_backward_originate xor_crypto relay_b (serialize ?c) = (rl', wire, Inr ())"
    using pk by (auto simp: wrap_backward_originate_def relay_b_def RelayCircuitHop_new_def Let_def
        checked_add_one split_beta)
  from backward_delivery [OF crypto_ok_xor wfc len d o pk' win] o show ?thesis
    by (simp add: circuit_ab_def zero_cell_def) metis
qed

end
