(* ===== verification/Flow.thy ===== *)
theory Flow
  imports Prelude
begin

text \<open>
  End-to-end credit and pacing: \<open>SendWindow\<close> of \<open>src/src/onion/flow.rs\<close>, the deadline
  arithmetic of \<open>src/src/onion/pacing.rs\<close> and the padding scheduler of
  \<open>src/src/onion/padding.rs\<close>. Instants and durations are nanoseconds, as natural numbers.
\<close>

section \<open>Send window\<close>

definition WINDOW_CELLS :: u32 where [size_defs]: "WINDOW_CELLS = 32"

record SendWindow =
  sw_sent :: u32
  sw_acknowledged :: u32

datatype flow_error =
    WindowExhausted | CounterExhausted | InvalidAckSize | InvalidOrReplayedAck

definition SendWindow_default :: SendWindow where
  "SendWindow_default = \<lparr>sw_sent = 0, sw_acknowledged = 0\<rparr>"

definition drained :: "SendWindow \<Rightarrow> bool" where
  "drained w \<longleftrightarrow> sw_sent w = sw_acknowledged w"

definition available :: "SendWindow \<Rightarrow> bool" where
  "available w \<longleftrightarrow> sw_sent w - sw_acknowledged w < WINDOW_CELLS"

definition sent :: "SendWindow \<Rightarrow> flow_error + SendWindow" where
  "sent w =
    (if \<not> available w then Inl WindowExhausted
     else case checked_add (sw_sent w) 1 of
            None \<Rightarrow> Inl CounterExhausted
          | Some n \<Rightarrow> Inr (w\<lparr>sw_sent := n\<rparr>))"

definition acknowledge :: "SendWindow \<Rightarrow> bytes \<Rightarrow> flow_error + SendWindow" where
  "acknowledge w payload =
    (if length payload \<noteq> 4 then Inl InvalidAckSize
     else let value = from_be payload in
          if value \<le> sw_acknowledged w \<or> value > sw_sent w then Inl InvalidOrReplayedAck
          else Inr (w\<lparr>sw_acknowledged := value\<rparr>))"

text \<open>The subtraction in \<open>available\<close> never wraps: acknowledged cells were sent.\<close>

definition sw_inv :: "SendWindow \<Rightarrow> bool" where
  "sw_inv w \<longleftrightarrow> unat (sw_acknowledged w) \<le> unat (sw_sent w) \<and>
     unat (sw_sent w) - unat (sw_acknowledged w) \<le> 32"

lemma sw_inv_default: "sw_inv SendWindow_default"
  by (simp add: sw_inv_def SendWindow_default_def)

lemma available_nat:
  "sw_inv w \<Longrightarrow> available w \<longleftrightarrow> unat (sw_sent w) - unat (sw_acknowledged w) < 32"
  by (simp add: available_def sw_inv_def word_less_nat_alt unat_sub_if' WINDOW_CELLS_def)

lemma sent_Inr:
  assumes "sw_inv w" "sent w = Inr w'"
  shows "unat (sw_sent w') = unat (sw_sent w) + 1" "sw_acknowledged w' = sw_acknowledged w" "sw_inv w'"
proof -
  from assms(2) obtain n where "available w" "checked_add (sw_sent w) 1 = Some n"
    and w': "w' = w\<lparr>sw_sent := n\<rparr>"
    by (auto simp: sent_def split: if_splits option.splits)
  with assms(1) have "unat n = unat (sw_sent w) + 1"
    "unat (sw_sent w) - unat (sw_acknowledged w) < 32" "unat (sw_acknowledged w) \<le> unat (sw_sent w)"
    by (auto simp: available_nat sw_inv_def dest: checked_add_Some)
  then show "unat (sw_sent w') = unat (sw_sent w) + 1" "sw_acknowledged w' = sw_acknowledged w" "sw_inv w'"
    by (simp_all add: w' sw_inv_def)
qed

lemma acknowledge_Inr:
  assumes "acknowledge w payload = Inr w'"
  shows "length payload = 4" "unat (sw_acknowledged w) < unat (from_be payload :: u32)"
    "unat (from_be payload :: u32) \<le> unat (sw_sent w)" "w' = w\<lparr>sw_acknowledged := from_be payload\<rparr>"
  using assms
  by (auto simp: acknowledge_def Let_def not_le not_less word_less_nat_alt word_le_nat_alt split: if_splits)

lemma acknowledge_inv: "sw_inv w \<Longrightarrow> acknowledge w payload = Inr w' \<Longrightarrow> sw_inv w'"
  using acknowledge_Inr [of w payload w'] by (auto simp: sw_inv_def)

text \<open>Acknowledgements are cumulative and never counted twice: a filter on their values.\<close>

definition ack_step :: "SendWindow \<Rightarrow> bytes \<Rightarrow> SendWindow option" where
  "ack_step w payload = (case acknowledge w payload of Inl _ \<Rightarrow> None | Inr w' \<Rightarrow> Some w')"

lemma ack_step_Some: "ack_step w p = Some w' \<longleftrightarrow> acknowledge w p = Inr w'"
  by (auto simp: ack_step_def split: sum.splits)

interpretation ackf: replay_filter sw_inv ack_step "\<lambda>p. unat (from_be p :: u32)"
  "\<lambda>w v. v \<le> unat (sw_acknowledged w)"
proof
  fix s s' :: SendWindow and k and c :: nat
  {
    assume i: "sw_inv s" and "ack_step s k = Some s'"
    then have a: "acknowledge s k = Inr s'" by (simp add: ack_step_Some)
    show "sw_inv s'" by (rule acknowledge_inv [OF i a])
    show "unat (from_be k :: u32) \<le> unat (sw_acknowledged s')"
      using acknowledge_Inr(4) [OF a] by simp
    assume "c \<le> unat (sw_acknowledged s)"
    with acknowledge_Inr [OF a] show "c \<le> unat (sw_acknowledged s')" by simp
  }
  assume "unat (from_be k :: u32) \<le> unat (sw_acknowledged s)"
  then show "ack_step s k = None"
    by (simp add: ack_step_def acknowledge_def Let_def word_le_nat_alt split: sum.splits)
qed

datatype flow_op = SendCell | AckPayload bytes

fun flow_run :: "SendWindow \<Rightarrow> flow_op list \<Rightarrow> SendWindow" where
  "flow_run w [] = w"
| "flow_run w (SendCell # ops) = flow_run (case sent w of Inl _ \<Rightarrow> w | Inr w' \<Rightarrow> w') ops"
| "flow_run w (AckPayload p # ops) = flow_run (case acknowledge w p of Inl _ \<Rightarrow> w | Inr w' \<Rightarrow> w') ops"

lemma flow_run_inv: "sw_inv w \<Longrightarrow> sw_inv (flow_run w ops)"
  by (induction w ops rule: flow_run.induct) (force split: sum.splits dest: sent_Inr(3) acknowledge_inv)+

section \<open>Pacing\<close>

definition DURATION_MAX :: nat where [size_defs]: "DURATION_MAX = (2 ^ 64 - 1) * 10 ^ 9 + 999999999"

definition duration_checked_mul :: "nat \<Rightarrow> nat \<Rightarrow> nat option" where
  "duration_checked_mul d n = (if d * n \<le> DURATION_MAX then Some (d * n) else None)"

text \<open>\<open>None\<close> is the panic of the assertion on a zero interval.\<close>

definition next_deadline :: "nat \<Rightarrow> nat \<Rightarrow> nat \<Rightarrow> nat option" where
  "next_deadline previous now interval =
    (if interval = 0 then None
     else let nominal = previous + interval in
       if nominal > now then Some nominal
       else let skipped = (now - nominal) div interval + 1 in
         (case (if skipped < 2 ^ 32 then duration_checked_mul interval skipped else None) of
            Some delay \<Rightarrow> Some (nominal + delay)
          | None \<Rightarrow> Some (now + interval)))"

lemma skip_bounds:
  fixes i :: nat
  assumes "0 < i" "nominal \<le> now"
  shows "now < nominal + i * ((now - nominal) div i + 1)" "nominal + i * ((now - nominal) div i + 1) \<le> now + i"
proof -
  define q where "q = i * ((now - nominal) div i)"
  have "q + (now - nominal) mod i = now - nominal" by (simp add: q_def)
  moreover have "(now - nominal) mod i < i" using assms by simp
  moreover have "i * ((now - nominal) div i + 1) = q + i" by (simp add: q_def)
  ultimately show "now < nominal + i * ((now - nominal) div i + 1)"
    "nominal + i * ((now - nominal) div i + 1) \<le> now + i"
    using assms(2) by linarith+
qed

section \<open>Burst and gap padding\<close>

text \<open>
  \<open>AdaptivePaddingEngine\<close>. The time of a call and the sample of the exponential distribution
  (in nanoseconds, before clamping) are arguments.
\<close>

datatype WtfPadState = Burst | Gap

definition DAY :: nat where [size_defs]: "DAY = 86400 * 10 ^ 9"
definition MILLI :: nat where [size_defs]: "MILLI = 10 ^ 6"

record PaddingEngine =
  pe_state :: WtfPadState
  pe_last_real :: nat
  pe_next_padding :: "nat option"
  pe_burst_timeout :: nat
  pe_gap_mean :: nat

definition PaddingEngine_new :: "nat \<Rightarrow> nat \<Rightarrow> nat \<Rightarrow> PaddingEngine" where
  "PaddingEngine_new now burst_timeout gap_mean_iat =
     \<lparr>pe_state = Burst, pe_last_real = now, pe_next_padding = None,
      pe_burst_timeout = min burst_timeout DAY, pe_gap_mean = max MILLI (min gap_mean_iat DAY)\<rparr>"

definition schedule_next_padding :: "nat \<Rightarrow> nat \<Rightarrow> PaddingEngine \<Rightarrow> PaddingEngine" where
  "schedule_next_padding sample now e =
     e\<lparr>pe_next_padding := Some (now + max MILLI (min sample DAY))\<rparr>"

definition record_real_packet :: "nat \<Rightarrow> PaddingEngine \<Rightarrow> PaddingEngine" where
  "record_real_packet now e =
    (let e = e\<lparr>pe_last_real := now\<rparr> in
     if pe_state e = Gap then e\<lparr>pe_state := Burst, pe_next_padding := None\<rparr> else e)"

text \<open>The two samples are those of the two calls of \<open>schedule_next_padding\<close>.\<close>

definition should_send_padding :: "nat \<Rightarrow> nat \<Rightarrow> nat \<Rightarrow> PaddingEngine \<Rightarrow> PaddingEngine \<times> bool" where
  "should_send_padding sample1 sample2 now e =
    (let e = (if pe_state e = Burst \<and> now - pe_last_real e \<ge> pe_burst_timeout e
              then schedule_next_padding sample1 now (e\<lparr>pe_state := Gap\<rparr>) else e)
     in if pe_state e = Gap then
          (case pe_next_padding e of
             Some target \<Rightarrow>
               if now \<ge> target then (schedule_next_padding sample2 now e, True) else (e, False)
           | None \<Rightarrow> (e, False))
        else (e, False))"

definition next_event_delay :: "nat \<Rightarrow> PaddingEngine \<Rightarrow> nat" where
  "next_event_delay now e =
    (if pe_state e = Burst then (pe_last_real e + pe_burst_timeout e) - now
     else case pe_next_padding e of Some target \<Rightarrow> target - now | None \<Rightarrow> DAY)"

definition pe_inv :: "PaddingEngine \<Rightarrow> bool" where
  "pe_inv e \<longleftrightarrow> (pe_state e = Gap \<longleftrightarrow> pe_next_padding e \<noteq> None) \<and> pe_burst_timeout e \<le> DAY \<and>
     MILLI \<le> pe_gap_mean e \<and> pe_gap_mean e \<le> DAY"

datatype pad_call = RealPacket nat | Poll nat nat nat

fun pad_run :: "PaddingEngine \<Rightarrow> pad_call list \<Rightarrow> PaddingEngine" where
  "pad_run e [] = e"
| "pad_run e (RealPacket now # cs) = pad_run (record_real_packet now e) cs"
| "pad_run e (Poll s1 s2 now # cs) = pad_run (fst (should_send_padding s1 s2 now e)) cs"

lemma pe_inv_new: "pe_inv (PaddingEngine_new now b g)"
  by (simp add: pe_inv_def PaddingEngine_new_def size_defs)

lemma pe_inv_real: "pe_inv e \<Longrightarrow> pe_inv (record_real_packet now e)"
  by (auto simp: pe_inv_def record_real_packet_def Let_def)

lemma pe_inv_poll: "pe_inv e \<Longrightarrow> pe_inv (fst (should_send_padding s1 s2 now e))"
  by (auto simp: pe_inv_def should_send_padding_def schedule_next_padding_def Let_def
      split: option.splits)

lemma pe_inv_run: "pe_inv e \<Longrightarrow> pe_inv (pad_run e cs)"
  by (induction e cs rule: pad_run.induct) (simp_all add: pe_inv_real pe_inv_poll)

section \<open>Properties\<close>

text \<open>
  Pacing never bursts. For a positive interval a next slot always exists, lies strictly
  after the present, and no further than one interval after it once the previous slot has
  passed. Unless the number of skipped slots exceeds 32 bits (or the product the range of a
  duration) the slot keeps the phase of the previous one.
\<close>

theorem next_deadline_sound:
  assumes "0 < interval"
  shows "\<exists>nd. next_deadline previous now interval = Some nd \<and> now < nd \<and>
    (previous \<le> now \<longrightarrow> nd \<le> now + interval) \<and>
    (now - previous < interval * (2 ^ 32 - 1) \<and> interval * 2 ^ 32 \<le> DURATION_MAX \<longrightarrow>
       previous < nd \<and> interval dvd nd - previous)"
proof (cases "previous + interval > now")
  case True
  with assms show ?thesis by (auto simp: next_deadline_def)
next
  case False
  let ?nom = "previous + interval"
  let ?k = "(now - ?nom) div interval + 1"
  note b = skip_bounds [OF assms, of ?nom now]
  consider (keep) "?k < 2 ^ 32" "interval * ?k \<le> DURATION_MAX"
    | (rebase) "\<not> (?k < 2 ^ 32 \<and> interval * ?k \<le> DURATION_MAX)" by blast
  then show ?thesis
  proof cases
    case keep
    then have "next_deadline previous now interval = Some (?nom + interval * ?k)"
      using False assms by (simp add: next_deadline_def Let_def duration_checked_mul_def)
    moreover have "interval dvd ?nom + interval * ?k - previous" by simp
    ultimately show ?thesis using b False assms by (intro exI [of _ "?nom + interval * ?k"]) simp
  next
    case rebase
    then have nd: "next_deadline previous now interval = Some (now + interval)"
      using False assms by (auto simp: next_deadline_def Let_def duration_checked_mul_def)
    have "\<not> (now - previous < interval * (2 ^ 32 - 1) \<and> interval * 2 ^ 32 \<le> DURATION_MAX)"
    proof
      assume a: "now - previous < interval * (2 ^ 32 - 1) \<and> interval * 2 ^ 32 \<le> DURATION_MAX"
      then have "now - previous < (2 ^ 32 - 1) * interval" by (simp add: mult.commute)
      then have "now - ?nom < (2 ^ 32 - 1) * interval" by linarith
      then have "(now - ?nom) div interval < 2 ^ 32 - 1"
        using assms by (simp add: div_less_iff_less_mult)
      then have k: "?k < 2 ^ 32" by simp
      then have "interval * ?k \<le> interval * 2 ^ 32" by (intro mult_le_mono2) linarith
      with a have "interval * ?k \<le> DURATION_MAX" by linarith
      with k rebase show False by blast
    qed
    with nd assms show ?thesis by auto
  qed
qed

theorem next_deadline_sound_witness:
  "next_deadline 100 147 20 = Some 160 \<and> (\<exists>nd. next_deadline 100 147 20 = Some nd \<and> 147 < nd)"
  using next_deadline_sound [of 20 100 147] by (auto simp: next_deadline_def duration_checked_mul_def size_defs)


text \<open>
  Padding follows the burst and gap states. After any calls, a poll that asks for
  padding happens in the gap state at or after the scheduled time, reschedules at least one
  millisecond and at most one day ahead, and a real packet afterwards returns the engine to
  the burst state with nothing scheduled; a padding time is scheduled exactly in the gap state.
\<close>

theorem padding_scheduled:
  assumes e: "e = pad_run (PaddingEngine_new start burst gap) calls"
    and "should_send_padding s1 s2 now e = (e', True)"
  shows "pe_state e' = Gap \<and>
    (\<exists>next. pe_next_padding e' = Some next \<and> now + MILLI \<le> next \<and> next \<le> now + DAY) \<and>
    (pe_state e = Gap \<and> (\<exists>target \<le> now. pe_next_padding e = Some target)) \<and>
    pe_state (record_real_packet t e') = Burst \<and> pe_next_padding (record_real_packet t e') = None"
proof -
  have inv: "pe_inv e" unfolding e by (rule pe_inv_run [OF pe_inv_new])
  from assms(2) inv show ?thesis
    by (auto simp: should_send_padding_def schedule_next_padding_def record_real_packet_def pe_inv_def
        Let_def size_defs split: if_splits option.splits)
qed

theorem padding_scheduled_witness:
  "\<exists>e'. should_send_padding 0 (5 * MILLI) (20 * MILLI)
      (pad_run (PaddingEngine_new 0 (10 * MILLI) MILLI) [Poll MILLI 0 (10 * MILLI)]) = (e', True) \<and>
    pe_state e' = Gap"
proof -
  obtain e' where e': "should_send_padding 0 (5 * MILLI) (20 * MILLI)
      (pad_run (PaddingEngine_new 0 (10 * MILLI) MILLI) [Poll MILLI 0 (10 * MILLI)]) = (e', True)"
    by (simp add: should_send_padding_def schedule_next_padding_def PaddingEngine_new_def Let_def size_defs)
  from padding_scheduled [OF refl this, of 0] e' show ?thesis by blast
qed

end
