(* ===== verification/Strings.thy ===== *)
theory Strings
  imports Prelude
begin

text \<open>
  Text of the program: a Rust \<open>str\<close> is a byte list that is valid UTF-8. \<open>utf8_valid\<close> is the
  check of \<open>String::from_utf8\<close>; byte string literals are written with \<open>ascii\<close>.
\<close>

definition ascii :: "string \<Rightarrow> bytes" where
  "ascii s = map of_char s"

lemma length_ascii [simp]: "length (ascii s) = length s"
  by (simp add: ascii_def)

definition utf8_cont :: "u8 \<Rightarrow> bool" where
  "utf8_cont b \<longleftrightarrow> 0x80 \<le> b \<and> b \<le> 0xBF"

text \<open>
  The second byte of a three-byte or four-byte sequence: overlong forms, surrogates and code
  points above U+10FFFF are excluded there.
\<close>

definition utf8_second3 :: "u8 \<Rightarrow> u8 \<Rightarrow> bool" where
  "utf8_second3 a b \<longleftrightarrow> utf8_cont b \<and> (a = 0xE0 \<longrightarrow> 0xA0 \<le> b) \<and> (a = 0xED \<longrightarrow> b \<le> 0x9F)"

definition utf8_second4 :: "u8 \<Rightarrow> u8 \<Rightarrow> bool" where
  "utf8_second4 a b \<longleftrightarrow> utf8_cont b \<and> (a = 0xF0 \<longrightarrow> 0x90 \<le> b) \<and> (a = 0xF4 \<longrightarrow> b \<le> 0x8F)"

fun utf8_valid :: "bytes \<Rightarrow> bool" where
  "utf8_valid [] = True"
| "utf8_valid (a # as) =
    (if a < 0x80 then utf8_valid as
     else if 0xC2 \<le> a \<and> a \<le> 0xDF then
       (case as of b # bs \<Rightarrow> utf8_cont b \<and> utf8_valid bs | _ \<Rightarrow> False)
     else if 0xE0 \<le> a \<and> a \<le> 0xEF then
       (case as of b # c # cs \<Rightarrow> utf8_second3 a b \<and> utf8_cont c \<and> utf8_valid cs | _ \<Rightarrow> False)
     else if 0xF0 \<le> a \<and> a \<le> 0xF4 then
       (case as of b # c # d # ds \<Rightarrow> utf8_second4 a b \<and> utf8_cont c \<and> utf8_cont d \<and> utf8_valid ds
        | _ \<Rightarrow> False)
     else False)"

lemma utf8_valid_ascii_bytes: "\<forall>b \<in> set bs. b < 0x80 \<Longrightarrow> utf8_valid bs"
  by (induction bs) auto

text \<open>\<open>String::from_utf8\<close>.\<close>

definition from_utf8 :: "bytes \<Rightarrow> bytes option" where
  "from_utf8 bs = (if utf8_valid bs then Some bs else None)"

end
