(* ===== verification/Identity.thy ===== *)
theory Identity
  imports Strings
begin

text \<open>
  Composite identities of \<open>src/src/crypto/hybrid_identity.rs\<close> and \<open>src/src/crypto/identity.rs\<close>:
  an Ed25519 key and an ML-DSA-65 key used together, pinned by one SHA-256 fingerprint. The two
  signature schemes and the hash are third-party code and are the fields of a parameter of type
  \<open>sigs\<close>; \<open>sigs_ok\<close> collects the correctness of the schemes (a signature made with a seed
  verifies under the public key of that seed) and the sizes of their outputs. A key is
  represented by its byte encoding; a signing key by its seed, which determines it.
\<close>

unbundle bit_operations_syntax

section \<open>Third-party primitives\<close>

record sigs =
  sg_sha256 :: "bytes \<Rightarrow> bytes"
  ed_public :: "bytes \<Rightarrow> bytes"
  ed_valid :: "bytes \<Rightarrow> bool"
  ed_weak :: "bytes \<Rightarrow> bool"
  ed_sign :: "bytes \<Rightarrow> bytes \<Rightarrow> bytes"
  ed_sig_ok :: "bytes \<Rightarrow> bool"
  ed_verify :: "bytes \<Rightarrow> bytes \<Rightarrow> bytes \<Rightarrow> bool"
  pq_public :: "bytes \<Rightarrow> bytes"
  pq_sign :: "bytes \<Rightarrow> bytes \<Rightarrow> bytes"
  pq_sig_ok :: "bytes \<Rightarrow> bool"
  pq_verify :: "bytes \<Rightarrow> bytes \<Rightarrow> bytes \<Rightarrow> bool"

definition sigs_ok :: "sigs \<Rightarrow> bool" where
  "sigs_ok sg \<longleftrightarrow>
    (\<forall>m. length (sg_sha256 sg m) = 32) \<and>
    (\<forall>s. length (ed_public sg s) = 32 \<and> ed_valid sg (ed_public sg s) \<and> \<not> ed_weak sg (ed_public sg s)) \<and>
    (\<forall>s m. length (ed_sign sg s m) = 64 \<and> ed_sig_ok sg (ed_sign sg s m) \<and>
       ed_verify sg (ed_public sg s) m (ed_sign sg s m)) \<and>
    (\<forall>s. length (pq_public sg s) = 1952) \<and>
    (\<forall>s m. length (pq_sign sg s m) = 3309 \<and> pq_sig_ok sg (pq_sign sg s m) \<and>
       pq_verify sg (pq_public sg s) m (pq_sign sg s m))"

section \<open>The paired keys\<close>

definition MAGIC :: bytes where "MAGIC = ascii ''AGID0001''"
definition PUBLIC_KEY_SIZE :: nat where [size_defs]: "PUBLIC_KEY_SIZE = 8 + 32 + 1952"
definition SIGNATURE_SIZE :: nat where [size_defs]: "SIGNATURE_SIZE = 8 + 64 + 3309"
definition MAX_MESSAGE :: nat where [size_defs]: "MAX_MESSAGE = 16 * 1024 * 1024"
definition PROOF_SIZE :: nat where [size_defs]: "PROOF_SIZE = PUBLIC_KEY_SIZE + SIGNATURE_SIZE"

datatype id_error = InvalidProof | ZeroPin | PinMismatch | ProofSize

text \<open>
  The modulus check of an ML-KEM-768 encapsulation key: twelve-bit coefficients packed two to
  three bytes, all below 3329, in the first 1152 bytes.
\<close>

fun triples_below :: "bytes \<Rightarrow> bool" where
  "triples_below (a # b # c # rest) =
    (let first = ucast a OR push_bit 8 (ucast (b AND 15)) :: u16;
         second = ucast (drop_bit 4 b) OR push_bit 4 (ucast c) :: u16
     in first < 3329 \<and> second < 3329 \<and> triples_below rest)"
| "triples_below _ = True"

definition mlkem768_public_is_canonical :: "bytes \<Rightarrow> bool" where
  "mlkem768_public_is_canonical bs \<longleftrightarrow> length bs = 1184 \<and> triples_below (take 1152 bs)"

record HybridSigningKey =
  hs_classical :: bytes
  hs_post_quantum :: bytes

record HybridPublicKey =
  hp_encoded :: bytes
  hp_classical :: bytes
  hp_post_quantum :: bytes

definition from_seeds :: "bytes \<Rightarrow> HybridSigningKey" where
  "from_seeds seeds = \<lparr>hs_classical = take 32 seeds, hs_post_quantum = drop 32 seeds\<rparr>"

definition private_bundle :: "HybridSigningKey \<Rightarrow> bytes" where
  "private_bundle k = MAGIC @ hs_classical k @ hs_post_quantum k"

text \<open>The decoding half of \<open>read_private_file\<close>, on the bytes read from the file.\<close>

definition read_private_bundle :: "bytes \<Rightarrow> id_error + HybridSigningKey" where
  "read_private_bundle bs =
    (if length bs \<noteq> 72 \<or> take 8 bs \<noteq> MAGIC then Inl InvalidProof
     else Inr (from_seeds (drop 8 bs)))"

definition public_key :: "sigs \<Rightarrow> HybridSigningKey \<Rightarrow> HybridPublicKey" where
  "public_key sg k =
    (let classical = ed_public sg (hs_classical k);
         post_quantum = pq_public sg (hs_post_quantum k)
     in \<lparr>hp_encoded = MAGIC @ classical @ post_quantum, hp_classical = classical,
         hp_post_quantum = post_quantum\<rparr>)"

definition decode_public_key :: "sigs \<Rightarrow> bytes \<Rightarrow> id_error + HybridPublicKey" where
  "decode_public_key sg encoded =
    (if length encoded \<noteq> PUBLIC_KEY_SIZE \<or> take 8 encoded \<noteq> MAGIC then Inl InvalidProof
     else
       let classical = subslice 8 40 encoded in
       if \<not> ed_valid sg classical then Inl InvalidProof
       else if ed_weak sg classical then Inl InvalidProof
       else Inr \<lparr>hp_encoded = encoded, hp_classical = classical,
                 hp_post_quantum = drop 40 encoded\<rparr>)"

definition fingerprint :: "sigs \<Rightarrow> HybridPublicKey \<Rightarrow> bytes" where
  "fingerprint sg k = sg_sha256 sg (ascii ''AnonGuard-HybridIdentity-Pin-v1'' @ hp_encoded k)"

definition transcript :: "sigs \<Rightarrow> HybridPublicKey \<Rightarrow> bytes \<Rightarrow> bytes \<Rightarrow> id_error + bytes" where
  "transcript sg key purpose msg =
    (if purpose = [] \<or> length purpose > 255 \<or> length msg > MAX_MESSAGE then Inl InvalidProof
     else Inr (ascii ''AnonGuard-HybridIdentity-Proof-v1'' @ fingerprint sg key @
               [of_nat (length purpose)] @ purpose @
               to_be 8 (of_nat (length msg) :: u64) @ msg))"

definition hybrid_sign :: "sigs \<Rightarrow> HybridSigningKey \<Rightarrow> bytes \<Rightarrow> bytes \<Rightarrow> id_error + bytes" where
  "hybrid_sign sg k purpose msg =
    ebind (transcript sg (public_key sg k) purpose msg) (\<lambda>t.
      Inr (MAGIC @ ed_sign sg (hs_classical k) t @ pq_sign sg (hs_post_quantum k) t))"

definition hybrid_verify ::
  "sigs \<Rightarrow> HybridPublicKey \<Rightarrow> bytes \<Rightarrow> bytes \<Rightarrow> bytes \<Rightarrow> id_error + unit" where
  "hybrid_verify sg key purpose msg pf =
    (if length pf \<noteq> SIGNATURE_SIZE \<or> take 8 pf \<noteq> MAGIC then Inl InvalidProof
     else ebind (transcript sg key purpose msg) (\<lambda>t.
       let ed = subslice 8 72 pf; pq = drop 72 pf in
       if \<not> ed_sig_ok sg ed then Inl InvalidProof
       else if \<not> pq_sig_ok sg pq then Inl InvalidProof
       else if \<not> ed_verify sg (hp_classical key) t ed then Inl InvalidProof
       else if \<not> pq_verify sg (hp_post_quantum key) t pq then Inl InvalidProof
       else Inr ()))"

section \<open>The network identity\<close>

definition NETWORK_PURPOSE :: bytes where
  "NETWORK_PURPOSE = ascii ''network-identity-v6''"

definition verifying_key :: "sigs \<Rightarrow> HybridSigningKey \<Rightarrow> bytes" where
  "verifying_key sg k = fingerprint sg (public_key sg k)"

text \<open>\<open>sign\<close> aborts when the message exceeds the bound; that is its \<open>Inl\<close>.\<close>

definition identity_sign :: "sigs \<Rightarrow> HybridSigningKey \<Rightarrow> bytes \<Rightarrow> id_error + bytes" where
  "identity_sign sg k msg =
    ebind (hybrid_sign sg k NETWORK_PURPOSE msg) (\<lambda>pf.
      Inr (hp_encoded (public_key sg k) @ pf))"

definition VerifyingKey_from_bytes :: "bytes \<Rightarrow> id_error + bytes" where
  "VerifyingKey_from_bytes pin = (if pin = replicate 32 0 then Inl ZeroPin else Inr pin)"

definition is_weak :: "bytes \<Rightarrow> bool" where
  "is_weak pin \<longleftrightarrow> pin = replicate 32 0"

definition Signature_public_key :: "sigs \<Rightarrow> bytes \<Rightarrow> id_error + HybridPublicKey" where
  "Signature_public_key sg s =
    (if length s \<noteq> PROOF_SIZE then Inl ProofSize
     else decode_public_key sg (take PUBLIC_KEY_SIZE s))"

definition Signature_from_slice :: "bytes \<Rightarrow> id_error + bytes" where
  "Signature_from_slice bs = (if length bs \<noteq> PROOF_SIZE then Inl ProofSize else Inr bs)"

definition component_pins :: "sigs \<Rightarrow> bytes \<Rightarrow> id_error + bytes \<times> bytes" where
  "component_pins sg s =
    ebind (Signature_public_key sg s) (\<lambda>key.
      Inr (hp_classical key, sg_sha256 sg (drop 40 (hp_encoded key))))"

definition verify_strict :: "sigs \<Rightarrow> bytes \<Rightarrow> bytes \<Rightarrow> bytes \<Rightarrow> id_error + unit" where
  "verify_strict sg pin msg s =
    ebind (Signature_public_key sg s) (\<lambda>key.
      if fingerprint sg key \<noteq> pin then Inl PinMismatch
      else hybrid_verify sg key NETWORK_PURPOSE msg (drop PUBLIC_KEY_SIZE s))"

section \<open>Sizes\<close>

lemma length_MAGIC [simp]: "length MAGIC = 8"
  by (simp add: MAGIC_def)

lemma length_NETWORK_PURPOSE [simp]: "length NETWORK_PURPOSE = 19"
  by (simp add: NETWORK_PURPOSE_def)

lemma NETWORK_PURPOSE_nonempty [simp]: "NETWORK_PURPOSE \<noteq> []"
  using length_NETWORK_PURPOSE by (metis list.size(3) zero_neq_numeral)

lemma sigs_okD:
  assumes "sigs_ok sg"
  shows "length (sg_sha256 sg m) = 32"
    and "length (ed_public sg s) = 32" and "ed_valid sg (ed_public sg s)"
    and "\<not> ed_weak sg (ed_public sg s)"
    and "length (ed_sign sg s m) = 64" and "ed_sig_ok sg (ed_sign sg s m)"
    and "ed_verify sg (ed_public sg s) m (ed_sign sg s m)"
    and "length (pq_public sg s) = 1952"
    and "length (pq_sign sg s m) = 3309" and "pq_sig_ok sg (pq_sign sg s m)"
    and "pq_verify sg (pq_public sg s) m (pq_sign sg s m)"
  using assms by (simp_all add: sigs_ok_def)

lemma length_fingerprint: "sigs_ok sg \<Longrightarrow> length (fingerprint sg k) = 32"
  by (simp add: fingerprint_def sigs_okD)

lemma public_key_sel [simp]:
  "hp_encoded (public_key sg k) = MAGIC @ ed_public sg (hs_classical k) @ pq_public sg (hs_post_quantum k)"
  "hp_classical (public_key sg k) = ed_public sg (hs_classical k)"
  "hp_post_quantum (public_key sg k) = pq_public sg (hs_post_quantum k)"
  by (simp_all add: public_key_def Let_def)

lemma decode_public_key_public_key:
  assumes "sigs_ok sg"
  shows "decode_public_key sg (hp_encoded (public_key sg k)) = Inr (public_key sg k)"
  using assms by (simp add: decode_public_key_def public_key_def Let_def subslice_def sigs_okD size_defs)

lemma hybrid_sign_verify:
  assumes "sigs_ok sg" and "hybrid_sign sg k purpose msg = Inr pf"
  shows "hybrid_verify sg (public_key sg k) purpose msg pf = Inr ()"
    and "length pf = SIGNATURE_SIZE"
proof -
  from assms(2) obtain t where t: "transcript sg (public_key sg k) purpose msg = Inr t"
    and pf: "pf = MAGIC @ ed_sign sg (hs_classical k) t @ pq_sign sg (hs_post_quantum k) t"
    by (auto simp: hybrid_sign_def ebind_eq_Inr)
  show "length pf = SIGNATURE_SIZE"
    using assms(1) by (simp add: pf sigs_okD size_defs)
  then show "hybrid_verify sg (public_key sg k) purpose msg pf = Inr ()"
    using assms(1)
    by (simp add: hybrid_verify_def t pf subslice_def sigs_okD)
qed

lemma identity_sign_Inr:
  "length msg \<le> MAX_MESSAGE \<Longrightarrow> is_ok (identity_sign sg k msg)"
  by (simp add: identity_sign_def hybrid_sign_def transcript_def)

lemma identity_sign_length:
  assumes "sigs_ok sg" and "identity_sign sg k msg = Inr s"
  shows "length s = PROOF_SIZE"
  using assms hybrid_sign_verify(2) [OF assms(1)]
  by (auto simp: identity_sign_def ebind_eq_Inr public_key_def Let_def sigs_okD size_defs)

lemma identity_sign_verify_aux:
  assumes ok: "sigs_ok sg" and s: "identity_sign sg k msg = Inr s"
  shows "verify_strict sg (verifying_key sg k) msg s = Inr ()"
proof -
  from s obtain pf where pf: "hybrid_sign sg k NETWORK_PURPOSE msg = Inr pf"
    and s': "s = hp_encoded (public_key sg k) @ pf"
    by (auto simp: identity_sign_def ebind_eq_Inr)
  have l: "length (hp_encoded (public_key sg k)) = PUBLIC_KEY_SIZE"
    using ok by (simp add: public_key_def Let_def sigs_okD size_defs)
  then show ?thesis
    using hybrid_sign_verify [OF ok pf]
    using decode_public_key_public_key [OF ok, of k]
    by (simp add: verify_strict_def Signature_public_key_def s' PROOF_SIZE_def verifying_key_def)
qed

section \<open>Properties\<close>

text \<open>
  A message signed with a composite identity is accepted under the identity's pin, and the
  proof has the fixed size the wire formats rely on; signing never aborts for a message of at
  most 16 MiB.
\<close>

theorem identity_sign_verify:
  assumes "sigs_ok sg" and "length msg \<le> MAX_MESSAGE"
  shows "\<exists>s. identity_sign sg k msg = Inr s \<and> length s = PROOF_SIZE \<and>
    verify_strict sg (verifying_key sg k) msg s = Inr ()"
  using identity_sign_Inr [OF assms(2), of sg k] identity_sign_length [OF assms(1)]
    identity_sign_verify_aux [OF assms(1)]
  by (auto simp: is_ok_iff)

text \<open>
  Domain separation: under one key, equal transcripts have equal purpose and equal message,
  so a signature made for one purpose is a signature on nothing else; transcripts under keys of
  different fingerprints differ.
\<close>

theorem transcript_injective:
  assumes "sigs_ok sg"
    and "transcript sg key purpose msg = Inr t" and "transcript sg key' purpose' msg' = Inr t"
  shows "fingerprint sg key = fingerprint sg key' \<and> purpose = purpose' \<and> msg = msg'"
proof -
  from assms have p: "length purpose \<le> 255" "length purpose' \<le> 255"
    and eq: "fingerprint sg key @ [of_nat (length purpose)] @ purpose @
      to_be 8 (of_nat (length msg) :: u64) @ msg =
      fingerprint sg key' @ [of_nat (length purpose')] @ purpose' @
      to_be 8 (of_nat (length msg') :: u64) @ msg'"
    by (auto simp: transcript_def split: if_splits)
  from eq have f: "fingerprint sg key = fingerprint sg key'"
    and rest: "(of_nat (length purpose) :: u8) = of_nat (length purpose')"
      "purpose @ to_be 8 (of_nat (length msg) :: u64) @ msg =
       purpose' @ to_be 8 (of_nat (length msg') :: u64) @ msg'"
    using length_fingerprint [OF assms(1)] by (auto simp: append_eq_append_conv)
  from arg_cong [OF rest(1), of unat] p have "length purpose = length purpose'"
    by (simp add: unat_of_nat_u8)
  with rest(2) show ?thesis using f by (auto simp: append_eq_append_conv)
qed

text \<open>
  What an accepted proof guarantees: the proof carries a public key whose fingerprint is the
  pin, and both its Ed25519 and its ML-DSA signature verify on the same transcript, which
  commits to that pin, to the network purpose and to the message. Neither scheme alone suffices.
\<close>

theorem verify_strict_requires_both:
  assumes "verify_strict sg pin msg s = Inr ()"
  shows "\<exists>key t. decode_public_key sg (take PUBLIC_KEY_SIZE s) = Inr key \<and>
    fingerprint sg key = pin \<and> transcript sg key NETWORK_PURPOSE msg = Inr t \<and>
    ed_verify sg (subslice 8 40 s) t (subslice 2000 2064 s) \<and>
    pq_verify sg (subslice 40 1992 s) t (subslice 2064 5373 s)"
proof -
  from assms obtain key t where len: "length s = PROOF_SIZE"
    and key: "decode_public_key sg (take PUBLIC_KEY_SIZE s) = Inr key"
    and pin: "fingerprint sg key = pin"
    and t: "transcript sg key NETWORK_PURPOSE msg = Inr t"
    and ed: "ed_verify sg (hp_classical key) t (subslice 8 72 (drop PUBLIC_KEY_SIZE s))"
    and pq: "pq_verify sg (hp_post_quantum key) t (drop 72 (drop PUBLIC_KEY_SIZE s))"
    by (auto simp: verify_strict_def Signature_public_key_def hybrid_verify_def ebind_eq_Inr Let_def
        split: if_splits)
  from key have "hp_classical key = subslice 8 40 s" "hp_post_quantum key = subslice 40 1992 s"
    by (auto simp: decode_public_key_def Let_def subslice_def size_defs drop_take split: if_splits)
  moreover have "subslice 8 72 (drop PUBLIC_KEY_SIZE s) = subslice 2000 2064 s"
    "drop 72 (drop PUBLIC_KEY_SIZE s) = subslice 2064 5373 s"
    using len by (simp_all add: subslice_def size_defs)
  ultimately show ?thesis using key pin t ed pq by auto
qed

text \<open>
  The private key file: reading the 72 bytes written for a key gives the key back, and
  nothing of another length or another version is read.
\<close>

theorem private_bundle_roundtrip:
  assumes "length (hs_classical k) = 32" and "length (hs_post_quantum k) = 32"
  shows "read_private_bundle (private_bundle k) = Inr k \<and>
    (\<forall>bs k'. read_private_bundle bs = Inr k' \<longrightarrow> private_bundle k' = bs)"
proof (intro conjI allI impI)
  show "read_private_bundle (private_bundle k) = Inr k"
    using assms by (simp add: read_private_bundle_def private_bundle_def from_seeds_def)
  fix bs k' assume "read_private_bundle bs = Inr k'"
  then have "take 8 bs = MAGIC" and "k' = from_seeds (drop 8 bs)"
    by (auto simp: read_private_bundle_def split: if_splits)
  then show "private_bundle k' = bs"
    by (metis (no_types) private_bundle_def from_seeds_def HybridSigningKey.select_convs(1,2)
        append_take_drop_id)
qed

section \<open>Witnesses\<close>

text \<open>
  A concrete instance of the primitives: the schemes sign by writing the key and the message
  into the signature, cut or padded to its size.
\<close>

definition fit :: "nat \<Rightarrow> bytes \<Rightarrow> bytes" where
  "fit n xs = take n (xs @ replicate n 0)"

lemma length_fit [simp]: "length (fit n xs) = n"
  by (simp add: fit_def)

definition fit_sigs :: sigs where
  "fit_sigs = \<lparr>sg_sha256 = fit 32, ed_public = fit 32, ed_valid = (\<lambda>_. True), ed_weak = (\<lambda>_. False),
    ed_sign = (\<lambda>s m. fit 64 (fit 32 s @ m)), ed_sig_ok = (\<lambda>_. True),
    ed_verify = (\<lambda>pk m s. s = fit 64 (pk @ m)), pq_public = fit 1952,
    pq_sign = (\<lambda>s m. fit 3309 (fit 1952 s @ m)), pq_sig_ok = (\<lambda>_. True),
    pq_verify = (\<lambda>pk m s. s = fit 3309 (pk @ m))\<rparr>"

lemma sigs_ok_fit: "sigs_ok fit_sigs"
  by (simp add: sigs_ok_def fit_sigs_def)

definition key_a :: HybridSigningKey where
  "key_a = from_seeds (replicate 32 1 @ replicate 32 2)"

theorem identity_sign_verify_witness:
  "sigs_ok fit_sigs \<and> (\<exists>s. identity_sign fit_sigs key_a (ascii ''hello'') = Inr s \<and>
     length s = PROOF_SIZE \<and> verify_strict fit_sigs (verifying_key fit_sigs key_a) (ascii ''hello'') s = Inr ())"
  using identity_sign_verify [OF sigs_ok_fit, of "ascii ''hello''" key_a] sigs_ok_fit
  by (simp add: size_defs)

theorem transcript_injective_witness:
  "\<exists>t. transcript fit_sigs (public_key fit_sigs key_a) (ascii ''a'') (ascii ''bc'') = Inr t \<and>
    transcript fit_sigs (public_key fit_sigs key_a) (ascii ''ab'') (ascii ''c'') \<noteq> Inr t"
proof -
  obtain t where t: "transcript fit_sigs (public_key fit_sigs key_a) (ascii ''a'') (ascii ''bc'') = Inr t"
    by (simp add: transcript_def size_defs ascii_def)
  have "ascii ''a'' \<noteq> ascii ''ab''" by (simp add: ascii_def)
  then show ?thesis using t transcript_injective [OF sigs_ok_fit t] by blast
qed

theorem verify_strict_requires_both_witness:
  "\<exists>s key t. identity_sign fit_sigs key_a (ascii ''hello'') = Inr s \<and>
    decode_public_key fit_sigs (take PUBLIC_KEY_SIZE s) = Inr key \<and>
    fingerprint fit_sigs key = verifying_key fit_sigs key_a \<and>
    transcript fit_sigs key NETWORK_PURPOSE (ascii ''hello'') = Inr t"
proof -
  have "length (ascii ''hello'') \<le> MAX_MESSAGE" by (simp add: size_defs)
  then obtain s where s: "identity_sign fit_sigs key_a (ascii ''hello'') = Inr s"
    using identity_sign_Inr [of _ fit_sigs key_a] by (auto simp only: is_ok_iff)
  from verify_strict_requires_both [OF identity_sign_verify_aux [OF sigs_ok_fit s]] s
  show ?thesis by blast
qed

theorem private_bundle_roundtrip_witness:
  "read_private_bundle (private_bundle key_a) = Inr key_a"
  using private_bundle_roundtrip [of key_a] by (simp add: key_a_def from_seeds_def)

end
