(* ===== verification/Handshake.thy ===== *)
theory Handshake
  imports Circuit Identity
begin

text \<open>
  Circuit construction of \<open>src/src/onion/circuit.rs\<close>: the CREATE and CREATED cells, the hybrid
  X25519 + ML-KEM-768 key agreement authenticated by the relay's composite identity, the key
  schedule, and the EXTEND and RELAY payload codecs. The key agreement primitives and HKDF are
  third-party code and form the parameter \<open>kex\<close>; \<open>kex_ok\<close> states that both sides of an
  exchange compute the same secret and fixes the sizes. Random draws are arguments. Values that
  the source formats into messages are left out of them.
\<close>

section \<open>Third-party primitives\<close>

record kex =
  x_public :: "bytes \<Rightarrow> bytes"
  x_dh :: "bytes \<Rightarrow> bytes \<Rightarrow> bytes"
  kem_public :: "bytes \<Rightarrow> bytes"
  kem_encap :: "bytes \<Rightarrow> bytes \<Rightarrow> (bytes \<times> bytes) option"
  kem_decap :: "bytes \<Rightarrow> bytes \<Rightarrow> bytes option"
  hkdf :: "bytes \<Rightarrow> bytes \<Rightarrow> bytes \<Rightarrow> nat \<Rightarrow> bytes option"

definition kex_ok :: "kex \<Rightarrow> bool" where
  "kex_ok kx \<longleftrightarrow>
    (\<forall>a b. x_dh kx a (x_public kx b) = x_dh kx b (x_public kx a)) \<and>
    (\<forall>a. length (x_public kx a) = 32) \<and> (\<forall>a p. length (x_dh kx a p) = 32) \<and>
    (\<forall>dk. mlkem768_public_is_canonical (kem_public kx dk)) \<and>
    (\<forall>dk r. \<exists>ct ss. kem_encap kx (kem_public kx dk) r = Some (ct, ss) \<and> length ct = 1088 \<and>
       length ss = 32 \<and> kem_decap kx dk ct = Some ss) \<and>
    (\<forall>salt ikm info. \<exists>k. hkdf kx salt ikm info 32 = Some k \<and> length k = 32)"

section \<open>The key schedule\<close>

definition expand :: "kex \<Rightarrow> bytes \<Rightarrow> bytes \<Rightarrow> string \<Rightarrow> CircuitError + bytes" where
  "expand kx salt ikm info =
    (case hkdf kx salt ikm (ascii info) 32 of None \<Rightarrow> Inl KeyDerivationFailed | Some k \<Rightarrow> Inr k)"

definition derive_hop_keys_with_context :: "sigs \<Rightarrow> kex \<Rightarrow> bytes \<Rightarrow> bytes \<Rightarrow> CircuitError + HopKeys" where
  "derive_hop_keys_with_context sg kx shared_secret context =
    (let salt = sg_sha256 sg context in
     ebind (expand kx salt shared_secret ''AnonGuard-Forward-Key-v6'') (\<lambda>fk.
     ebind (expand kx salt shared_secret ''AnonGuard-Backward-Key-v6'') (\<lambda>bk.
     ebind (expand kx salt shared_secret ''AnonGuard-Forward-MAC-v6'') (\<lambda>fm.
     ebind (expand kx salt shared_secret ''AnonGuard-Backward-MAC-v6'') (\<lambda>bm.
     ebind (expand kx salt shared_secret ''AnonGuard-Forward-AEAD-Key-v6'') (\<lambda>fa.
     ebind (expand kx salt shared_secret ''AnonGuard-Backward-AEAD-Key-v6'') (\<lambda>ba.
       Inr \<lparr>forward_key = fk, backward_key = bk, forward_mac = fm, backward_mac = bm,
            forward_aead_key = fa, backward_aead_key = ba\<rparr>)))))))"

definition derive_hop_keys :: "sigs \<Rightarrow> kex \<Rightarrow> bytes \<Rightarrow> CircuitError + HopKeys" where
  "derive_hop_keys sg kx shared_secret =
     derive_hop_keys_with_context sg kx shared_secret (ascii ''AnonGuard-offline-key-derivation-v6'')"

section \<open>CREATE and CREATED\<close>

text \<open>\<open>.map_err(CircuitError::General)\<close> on the result of \<open>OnionCell::new\<close>.\<close>

definition general_cell :: "cell_error + OnionCell \<Rightarrow> CircuitError + OnionCell" where
  "general_cell r = (case r of Inl _ \<Rightarrow> Inl (General ''cell'') | Inr c \<Rightarrow> Inr c)"

definition build_create_cell :: "bytes \<Rightarrow> u32 \<Rightarrow> bytes \<Rightarrow> bytes \<Rightarrow> nat \<Rightarrow> CircuitError + OnionCell" where
  "build_create_cell rnd circuit_id client_pub client_mlkem_pub hop_index =
    (if hop_index \<ge> MAX_HOPS then Inl (HopIndexOutOfRange hop_index)
     else
       let payload = replicate (1 + 32 + 1184 + 4 + 1) 0;
           payload = put 0 [of_nat hop_index] payload;
           payload = put 1 client_pub payload;
           payload = put 33 client_mlkem_pub payload;
           payload = put 1217 (to_be 4 circuit_id) payload;
           payload = put 1221 [6] payload
       in general_cell (OnionCell_new rnd circuit_id 0 Create 0 payload))"

definition handshake_preimage :: "u32 \<Rightarrow> nat \<Rightarrow> bytes \<Rightarrow> bytes \<Rightarrow> bytes \<Rightarrow> bytes \<Rightarrow> bytes \<Rightarrow> bytes" where
  "handshake_preimage cid hop_index identity_pub relay_pub client_pub client_mlkem_pub mlkem_ct =
     ascii ''AnonGuard-handshake-v6'' @ to_be 4 cid @ [of_nat hop_index] @ identity_pub @
     relay_pub @ client_pub @ client_mlkem_pub @ mlkem_ct"

text \<open>
  The relay's side. \<open>relay_secret\<close>, \<open>kem_rnd\<close> and \<open>rnd\<close> are its random draws: the ephemeral
  X25519 secret, the encapsulation randomness and the decoy key of the answer.
\<close>

definition handle_create_cell ::
  "sigs \<Rightarrow> kex \<Rightarrow> bytes \<Rightarrow> bytes \<Rightarrow> bytes \<Rightarrow> OnionCell \<Rightarrow> HybridSigningKey \<Rightarrow>
   CircuitError + (RelayCircuitHop \<times> OnionCell)" where
  "handle_create_cell sg kx relay_secret kem_rnd rnd create_cell relay_identity_key =
    (if cell_command create_cell \<noteq> Create then Inl (ParseError ''Expected CREATE'')
     else if cell_length create_cell \<noteq> 1222 \<or> cell_payload create_cell ! 1221 \<noteq> 6
     then Inl PayloadTooShort
     else
       let payload = cell_payload create_cell;
           context_id = from_be (subslice 1217 1221 payload);
           hop_index = unat (payload ! 0)
       in if hop_index \<ge> MAX_HOPS then Inl (HopIndexOutOfRange hop_index)
       else
         let client_pub = subslice 1 33 payload;
             client_mlkem_pub = subslice 33 1217 payload
         in if \<not> mlkem768_public_is_canonical client_mlkem_pub
         then Inl (ParseError ''Non-canonical ML-KEM public key'')
         else
           let relay_pub = x_public kx relay_secret;
               x25519_shared = x_dh kx relay_secret client_pub
           in if x25519_shared = replicate 32 0
           then Inl (General ''Non-contributory DH key rejected'')
           else case kem_encap kx client_mlkem_pub kem_rnd of
             None \<Rightarrow> Inl (General ''ML-KEM encapsulation failed'')
           | Some (mlkem_ct, mlkem_shared) \<Rightarrow>
               let hybrid_secret = x25519_shared @ mlkem_shared;
                   identity_pub = verifying_key sg relay_identity_key;
                   preimage = handshake_preimage context_id hop_index identity_pub relay_pub
                     client_pub client_mlkem_pub mlkem_ct
               in case identity_sign sg relay_identity_key preimage of
                 Inl _ \<Rightarrow> Inl (General ''bounded protocol message'')
               | Inr handshake_sig \<Rightarrow>
                   ebind (derive_hop_keys_with_context sg kx hybrid_secret preimage) (\<lambda>keys.
                   let created_payload = replicate (64 + PROOF_SIZE + 1088) 0;
                       created_payload = put 0 relay_pub created_payload;
                       created_payload = put 32 identity_pub created_payload;
                       created_payload = put 64 handshake_sig created_payload;
                       created_payload = put (64 + PROOF_SIZE) mlkem_ct created_payload
                   in ebind (general_cell (OnionCell_new rnd (cell_circuit_id create_cell) 0 Created 0
                               created_payload)) (\<lambda>created_cell.
                        Inr ((RelayCircuitHop_new (cell_circuit_id create_cell) keys hop_index)
                               \<lparr>rh_context_id := context_id\<rparr>, created_cell))))"

definition process_created_cell ::
  "sigs \<Rightarrow> kex \<Rightarrow> OnionCell \<Rightarrow> bytes \<Rightarrow> bytes \<Rightarrow> bytes \<Rightarrow> bytes \<Rightarrow> bytes \<Rightarrow> u32 \<Rightarrow> nat \<Rightarrow>
   CircuitError + HopKeys" where
  "process_created_cell sg kx created_cell client_secret client_pub client_mlkem_dk client_mlkem_pub
     pinned_identity_key cid hop_index =
    (if hop_index \<ge> MAX_HOPS then Inl (HopIndexOutOfRange hop_index)
     else if cell_command created_cell \<noteq> Created \<and> cell_command created_cell \<noteq> Extended
     then Inl (ParseError ''Expected CREATED or EXTENDED cell'')
     else if unat (cell_length created_cell) \<noteq> 64 + PROOF_SIZE + 1088 then Inl PayloadTooShort
     else
       let payload = cell_payload created_cell;
           relay_eph_pub = subslice 0 32 payload;
           relay_identity_pub = subslice 32 64 payload;
           sig_bytes = subslice 64 (64 + PROOF_SIZE) payload;
           mlkem_ct = subslice (64 + PROOF_SIZE) (64 + PROOF_SIZE + 1088) payload
       in if pinned_identity_key = replicate 32 0 then Inl UnpinnedRelay
       else if relay_identity_pub \<noteq> pinned_identity_key then Inl UnpinnedRelay
       else case VerifyingKey_from_bytes relay_identity_pub of
         Inl _ \<Rightarrow> Inl (ParseError ''Invalid relay composite identity key'')
       | Inr vk \<Rightarrow>
           let preimage = handshake_preimage cid hop_index relay_identity_pub relay_eph_pub
                 client_pub client_mlkem_pub mlkem_ct
           in case verify_strict sg vk preimage sig_bytes of
             Inl _ \<Rightarrow> Inl (General ''Handshake hybrid signature verification failed'')
           | Inr _ \<Rightarrow>
               let x25519_shared = x_dh kx client_secret relay_eph_pub in
               if x25519_shared = replicate 32 0
               then Inl (General ''Non-contributory DH key rejected'')
               else case kem_decap kx client_mlkem_dk mlkem_ct of
                 None \<Rightarrow> Inl (General ''ML-KEM decapsulation failed'')
               | Some mlkem_shared \<Rightarrow>
                   derive_hop_keys_with_context sg kx (x25519_shared @ mlkem_shared) preimage)"

text \<open>The exchange run in one call, without identities, for benchmarks.\<close>

definition perform_client_relay_handshake ::
  "sigs \<Rightarrow> kex \<Rightarrow> bytes \<Rightarrow> bytes \<Rightarrow> bytes \<Rightarrow> bytes \<Rightarrow> CircuitError + (HopKeys \<times> HopKeys)" where
  "perform_client_relay_handshake sg kx client_secret dk relay_secret kem_rnd =
    (let client_x = x_dh kx client_secret (x_public kx relay_secret);
         relay_x = x_dh kx relay_secret (x_public kx client_secret)
     in case kem_encap kx (kem_public kx dk) kem_rnd of
          None \<Rightarrow> Inl (General ''ML-KEM encapsulation failed'')
        | Some (ct, relay_ss) \<Rightarrow>
            case kem_decap kx dk ct of
              None \<Rightarrow> Inl (General ''ML-KEM decapsulation failed'')
            | Some client_ss \<Rightarrow>
                ebind (derive_hop_keys sg kx (client_x @ client_ss)) (\<lambda>ck.
                ebind (derive_hop_keys sg kx (relay_x @ relay_ss)) (\<lambda>rk. Inr (ck, rk))))"

section \<open>EXTEND and RELAY payloads\<close>

definition encode_extend_payload :: "bytes \<Rightarrow> u16 \<Rightarrow> bytes \<Rightarrow> bytes \<Rightarrow> nat \<Rightarrow> CircuitError + bytes" where
  "encode_extend_payload next_host next_port client_pub client_mlkem_pub hop_index =
    (if hop_index \<ge> MAX_HOPS then Inl (HopIndexOutOfRange hop_index)
     else if length next_host > 255 then Inl (General ''Host string exceeds 255 bytes limit'')
     else Inr ([of_nat hop_index] @ [of_nat (length next_host)] @ next_host @ to_be 2 next_port @
               client_pub @ client_mlkem_pub))"

definition decode_extend_payload ::
  "bytes \<Rightarrow> CircuitError + (bytes \<times> u16 \<times> bytes \<times> bytes \<times> nat)" where
  "decode_extend_payload payload =
    (if length payload < 1 + 1 + 2 + 32 + 1184 then Inl PayloadTooShort
     else
       let hop_index = unat (payload ! 0) in
       if hop_index \<ge> MAX_HOPS then Inl (HopIndexOutOfRange hop_index)
       else
         let host_len = unat (payload ! 1) in
         if length payload < 1 + 1 + host_len + 2 + 32 + 1184 then Inl PayloadTooShort
         else if length payload \<noteq> 1 + 1 + host_len + 2 + 32 + 1184
         then Inl (ParseError ''Trailing EXTEND payload bytes'')
         else case from_utf8 (subslice 2 (2 + host_len) payload) of
           None \<Rightarrow> Inl (ParseError ''Invalid UTF-8 in EXTEND host'')
         | Some host \<Rightarrow>
             let port = from_be (subslice (2 + host_len) (2 + host_len + 2) payload);
                 client_pub = subslice (2 + host_len + 2) (2 + host_len + 2 + 32) payload;
                 mlkem = subslice (2 + host_len + 2 + 32) (2 + host_len + 2 + 32 + 1184) payload
             in if \<not> mlkem768_public_is_canonical mlkem
                then Inl (ParseError ''Non-canonical ML-KEM public key'')
                else Inr (host, port, client_pub, mlkem, hop_index))"

definition encode_relay_target :: "bytes \<Rightarrow> u16 \<Rightarrow> CircuitError + bytes" where
  "encode_relay_target target_host target_port =
    (if length target_host > 255 then Inl (General ''Target host string exceeds 255 bytes limit'')
     else Inr ([of_nat (length target_host)] @ target_host @ to_be 2 target_port))"

definition decode_relay_target :: "bytes \<Rightarrow> CircuitError + (bytes \<times> u16)" where
  "decode_relay_target payload =
    (if length payload < 1 + 2 then Inl PayloadTooShort
     else
       let host_len = unat (payload ! 0) in
       if length payload < 1 + host_len + 2 then Inl PayloadTooShort
       else case from_utf8 (subslice 1 (1 + host_len) payload) of
         None \<Rightarrow> Inl (ParseError ''Invalid UTF-8 in RELAY target host'')
       | Some host \<Rightarrow> Inr (host, from_be (subslice (1 + host_len) (1 + host_len + 2) payload)))"

section \<open>The payload codecs\<close>

definition wf_extend :: "bytes \<times> u16 \<times> bytes \<times> bytes \<times> nat \<Rightarrow> bool" where
  "wf_extend = (\<lambda>(host, port, client_pub, mlkem, hop_index).
     hop_index < MAX_HOPS \<and> length host \<le> 255 \<and> utf8_valid host \<and> length client_pub = 32 \<and>
     mlkem768_public_is_canonical mlkem)"

definition extend_enc :: "bytes \<times> u16 \<times> bytes \<times> bytes \<times> nat \<Rightarrow> CircuitError + bytes" where
  "extend_enc = (\<lambda>(host, port, client_pub, mlkem, hop_index).
     encode_extend_payload host port client_pub mlkem hop_index)"

lemma unat_of_nat_u8_small: "n < 256 \<Longrightarrow> unat (of_nat n :: u8) = n"
  by (simp add: unat_of_nat_u8)

lemma canonical_length: "mlkem768_public_is_canonical bs \<Longrightarrow> length bs = 1184"
  by (simp add: mlkem768_public_is_canonical_def)

lemma decode_encode_extend:
  assumes "wf_extend (host, port, client_pub, mlkem, hop_index)"
  shows "decode_extend_payload ([of_nat hop_index] @ [of_nat (length host)] @ host @ to_be 2 port @
           client_pub @ mlkem) = Inr (host, port, client_pub, mlkem, hop_index)"
    (is "decode_extend_payload ?p = _")
proof -
  let ?n = "length host"
  from assms have wf: "hop_index < 8" "?n \<le> 255" "utf8_valid host" "length client_pub = 32"
    "mlkem768_public_is_canonical mlkem" "length mlkem = 1184"
    by (auto simp: wf_extend_def MAX_HOPS_def canonical_length)
  have parts: "subslice 2 (2 + ?n) ?p = host"
    "subslice (2 + ?n) (2 + ?n + 2) ?p = to_be 2 port"
    "subslice (2 + ?n + 2) (2 + ?n + 2 + 32) ?p = client_pub"
    "subslice (2 + ?n + 2 + 32) (2 + ?n + 2 + 32 + 1184) ?p = mlkem"
    using wf by (auto intro!: subslice_at [of _ "[of_nat hop_index, of_nat ?n] @ host @ to_be 2 port" _ client_pub, simplified]
        simp: subslice_def drop_Cons')
  have len: "length ?p = 1 + 1 + ?n + 2 + 32 + 1184" using wf by simp
  have idx: "unat (?p ! 0) = hop_index" "unat (?p ! 1) = ?n"
    using wf by (simp_all add: unat_of_nat_u8_small)
  show ?thesis
    unfolding decode_extend_payload_def Let_def idx len parts
    using wf by (simp add: from_utf8_def be_inverse MAX_HOPS_def)
qed

interpretation ext: payload_codec wf_extend extend_enc decode_extend_payload
proof
  fix x assume wf: "wf_extend x"
  obtain host port pub mlkem hop where x: "x = (host, port, pub, mlkem, hop)" by (cases x) auto
  from wf decode_encode_extend [of host port pub mlkem hop]
  show "\<exists>bs. extend_enc x = Inr bs \<and> decode_extend_payload bs = Inr x"
    by (auto simp: x extend_enc_def encode_extend_payload_def wf_extend_def)
qed

lemma decode_extend_InrD:
  assumes "decode_extend_payload payload = Inr x"
  shows "wf_extend x \<and> extend_enc x = Inr payload"
proof -
  define n where "n = unat (payload ! 1)"
  from assms have len: "length payload = 1 + 1 + n + 2 + 32 + 1184" and hop: "unat (payload ! 0) < 8"
    and utf: "utf8_valid (subslice 2 (2 + n) payload)"
    and can: "mlkem768_public_is_canonical (subslice (2 + n + 2 + 32) (2 + n + 2 + 32 + 1184) payload)"
    and x: "x = (subslice 2 (2 + n) payload, from_be (subslice (2 + n) (2 + n + 2) payload),
      subslice (2 + n + 2) (2 + n + 2 + 32) payload,
      subslice (2 + n + 2 + 32) (2 + n + 2 + 32 + 1184) payload, unat (payload ! 0))"
    by (auto simp: decode_extend_payload_def Let_def n_def MAX_HOPS_def from_utf8_def
        split: if_splits option.splits)
  have n: "n \<le> 255" using unat_u8_less [of "payload ! 1"] by (simp add: n_def)
  have lens: "length (subslice 2 (2 + n) payload) = n" "length (subslice (2 + n) (2 + n + 2) payload) = 2"
    "length (subslice (2 + n + 2) (2 + n + 2 + 32) payload) = 32"
    using len by (simp_all add: length_subslice)
  have "payload = subslice 0 2 payload @ subslice 2 (2 + n) payload @ subslice (2 + n) (2 + n + 2) payload @
      subslice (2 + n + 2) (2 + n + 2 + 32) payload @
      subslice (2 + n + 2 + 32) (2 + n + 2 + 32 + 1184) payload"
    using len by (simp add: subslice_join subslice_full)
  also have "subslice 0 2 payload = [payload ! 0, payload ! 1]"
    using len by (cases payload; cases "tl payload") (auto simp: subslice_def numeral_2_eq_2)
  finally have "payload = [of_nat (unat (payload ! 0))] @ [of_nat n] @ subslice 2 (2 + n) payload @
      to_be 2 (from_be (subslice (2 + n) (2 + n + 2) payload) :: u16) @
      subslice (2 + n + 2) (2 + n + 2 + 32) payload @
      subslice (2 + n + 2 + 32) (2 + n + 2 + 32 + 1184) payload"
    using lens by (simp add: be_inverse n_def)
  then show ?thesis
    using hop utf can lens n
    by (simp add: x wf_extend_def extend_enc_def encode_extend_payload_def MAX_HOPS_def)
qed

definition wf_target :: "bytes \<times> u16 \<Rightarrow> bool" where
  "wf_target = (\<lambda>(host, port). length host \<le> 255 \<and> utf8_valid host)"

definition target_enc :: "bytes \<times> u16 \<Rightarrow> CircuitError + bytes" where
  "target_enc = (\<lambda>(host, port). encode_relay_target host port)"

lemma decode_encode_target:
  assumes "length host \<le> 255" and "utf8_valid host"
  shows "decode_relay_target ([of_nat (length host)] @ host @ to_be 2 port @ rest) = Inr (host, port)"
    (is "decode_relay_target ?p = _")
proof -
  let ?n = "length host"
  have parts: "subslice 1 (1 + ?n) ?p = host" "subslice (1 + ?n) (1 + ?n + 2) ?p = to_be 2 port"
    by (simp_all add: subslice_def)
  have idx: "unat (?p ! 0) = ?n" using assms by (simp add: unat_of_nat_u8_small)
  have len: "length ?p = 1 + ?n + 2 + length rest" by simp
  show ?thesis
    unfolding decode_relay_target_def Let_def idx len parts
    using assms by (simp add: from_utf8_def be_inverse)
qed

interpretation tgt: payload_codec wf_target target_enc decode_relay_target
proof
  fix x assume "wf_target x"
  then show "\<exists>bs. target_enc x = Inr bs \<and> decode_relay_target bs = Inr x"
    using decode_encode_target [of "fst x" "snd x" "[]"]
    by (auto simp: wf_target_def target_enc_def encode_relay_target_def split: prod.splits)
qed

section \<open>The authenticated key agreement\<close>

lemma kex_okD:
  assumes "kex_ok kx"
  shows "x_dh kx a (x_public kx b) = x_dh kx b (x_public kx a)"
    and "length (x_public kx a) = 32" and "length (x_dh kx a p) = 32"
    and "mlkem768_public_is_canonical (kem_public kx dk)" and "length (kem_public kx dk) = 1184"
    and "\<exists>ct ss. kem_encap kx (kem_public kx dk) r = Some (ct, ss) \<and> length ct = 1088 \<and>
       length ss = 32 \<and> kem_decap kx dk ct = Some ss"
  using assms by (auto simp: kex_ok_def canonical_length)

lemma derive_ok:
  assumes "kex_ok kx"
  shows "\<exists>keys. derive_hop_keys_with_context sg kx secret context = Inr keys"
proof -
  have "\<exists>k. expand kx salt ikm info = Inr k" for salt ikm info
  proof -
    from assms obtain k where "hkdf kx salt ikm (ascii info) 32 = Some k"
      unfolding kex_ok_def by blast
    then show ?thesis by (simp add: expand_def)
  qed
  then obtain f where "\<And>salt ikm info. expand kx salt ikm info = Inr (f salt ikm info)" by metis
  then show ?thesis by (simp add: derive_hop_keys_with_context_def Let_def)
qed

definition create_payload :: "u32 \<Rightarrow> bytes \<Rightarrow> bytes \<Rightarrow> nat \<Rightarrow> bytes" where
  "create_payload cid client_pub client_mlkem_pub hop_index =
     [of_nat hop_index] @ client_pub @ client_mlkem_pub @ to_be 4 cid @ [6]"

definition created_payload :: "bytes \<Rightarrow> bytes \<Rightarrow> bytes \<Rightarrow> bytes \<Rightarrow> bytes" where
  "created_payload relay_pub identity_pub sig mlkem_ct = relay_pub @ identity_pub @ sig @ mlkem_ct"

lemma build_create_cell_eq:
  assumes "hop_index < MAX_HOPS" and "length client_pub = 32" and "length client_mlkem_pub = 1184"
  shows "build_create_cell rnd cid client_pub client_mlkem_pub hop_index =
    general_cell (OnionCell_new rnd cid 0 Create 0 (create_payload cid client_pub client_mlkem_pub hop_index))"
  using assms
  by (simp add: build_create_cell_def Let_def replicate_zpad put_zpad zpad_0 create_payload_def)

lemma put_created:
  assumes "length relay_pub = 32" and "length identity_pub = 32" and "length sig = PROOF_SIZE"
    and "length mlkem_ct = 1088"
  shows "put (64 + PROOF_SIZE) mlkem_ct (put 64 sig (put 32 identity_pub (put 0 relay_pub
      (replicate (64 + PROOF_SIZE + 1088) 0)))) = created_payload relay_pub identity_pub sig mlkem_ct"
  using assms by (simp add: replicate_zpad put_zpad zpad_0 created_payload_def)

text \<open>The fields of a payload, read back from a cell that carries it.\<close>

lemma create_fields:
  assumes "take 1222 p = create_payload cid client_pub client_mlkem_pub hop_index"
    and "length client_pub = 32" and "length client_mlkem_pub = 1184"
  shows "p ! 0 = of_nat hop_index" and "p ! 1221 = 6" and "subslice 1 33 p = client_pub"
    and "subslice 33 1217 p = client_mlkem_pub" and "subslice 1217 1221 p = to_be 4 cid"
proof -
  have sub: "subslice i j p = subslice i j (create_payload cid client_pub client_mlkem_pub hop_index)"
    if "j \<le> 1222" for i j
    using that by (simp flip: assms(1) add: subslice_take)
  have nth: "p ! i = create_payload cid client_pub client_mlkem_pub hop_index ! i" if "i < 1222" for i
    using that by (simp flip: assms(1))
  show "p ! 0 = of_nat hop_index" by (simp add: nth create_payload_def)
  show "p ! 1221 = 6"
    using assms(2,3) by (simp add: nth create_payload_def nth_append)
  show "subslice 1 33 p = client_pub" "subslice 33 1217 p = client_mlkem_pub"
    "subslice 1217 1221 p = to_be 4 cid"
    by (subst sub, simp, simp add: create_payload_def subslice_def assms)+
qed

lemma created_fields:
  assumes "take (64 + PROOF_SIZE + 1088) p = created_payload relay_pub identity_pub sig mlkem_ct"
    and "length relay_pub = 32" and "length identity_pub = 32" and "length sig = PROOF_SIZE"
    and "length mlkem_ct = 1088"
  shows "subslice 0 32 p = relay_pub" and "subslice 32 64 p = identity_pub"
    and "subslice 64 (64 + PROOF_SIZE) p = sig"
    and "subslice (64 + PROOF_SIZE) (64 + PROOF_SIZE + 1088) p = mlkem_ct"
proof -
  have sub: "subslice i j p = subslice i j (created_payload relay_pub identity_pub sig mlkem_ct)"
    if "j \<le> 64 + PROOF_SIZE + 1088" for i j
    using that by (simp flip: assms(1) add: subslice_take)
  show "subslice 0 32 p = relay_pub" "subslice 32 64 p = identity_pub"
    "subslice 64 (64 + PROOF_SIZE) p = sig"
    "subslice (64 + PROOF_SIZE) (64 + PROOF_SIZE + 1088) p = mlkem_ct"
    by (subst sub, simp, simp add: created_payload_def subslice_def assms)+
qed

text \<open>
  The relay's answer to a well-formed CREATE cell, which may have travelled under any link
  circuit identifier.
\<close>

lemma handle_create_cell_ok:
  assumes ok: "sigs_ok sg" "kex_ok kx" and hop: "hop_index < MAX_HOPS" and rnd: "length rnd = 32"
    and cmd: "cell_command c = Create" and len: "cell_length c = 1222"
    and pay: "take 1222 (cell_payload c) =
      create_payload cid (x_public kx client_secret) (kem_public kx dk) hop_index"
    and contributory: "x_dh kx relay_secret (x_public kx client_secret) \<noteq> replicate 32 0"
    and kem: "kem_encap kx (kem_public kx dk) kem_rnd = Some (ct, ss)" "length ct = 1088"
  shows "\<exists>sig keys created.
    handle_create_cell sg kx relay_secret kem_rnd rnd c sk =
      Inr ((RelayCircuitHop_new (cell_circuit_id c) keys hop_index)\<lparr>rh_context_id := cid\<rparr>, created) \<and>
    (let pre = handshake_preimage cid hop_index (verifying_key sg sk) (x_public kx relay_secret)
       (x_public kx client_secret) (kem_public kx dk) ct in
     identity_sign sg sk pre = Inr sig \<and> length sig = PROOF_SIZE \<and>
     derive_hop_keys_with_context sg kx
       (x_dh kx relay_secret (x_public kx client_secret) @ ss) pre = Inr keys) \<and>
    OnionCell_new rnd (cell_circuit_id c) 0 Created 0
      (created_payload (x_public kx relay_secret) (verifying_key sg sk) sig ct) = Inr created"
proof -
  let ?pre = "handshake_preimage cid hop_index (verifying_key sg sk) (x_public kx relay_secret)
       (x_public kx client_secret) (kem_public kx dk) ct"
  note kx = kex_okD [OF ok(2)]
  note fields = create_fields [OF pay kx(2) kx(5)]
  have vk: "length (verifying_key sg sk) = 32" using ok by (simp add: verifying_key_def length_fingerprint)
  have "length ?pre \<le> MAX_MESSAGE"
    using kx(2,5) kem vk by (simp add: handshake_preimage_def size_defs)
  then obtain sig where sig: "identity_sign sg sk ?pre = Inr sig"
    using identity_sign_Inr [of ?pre sg sk] by (auto simp: is_ok_iff)
  note sl = identity_sign_length [OF ok(1) sig]
  obtain keys where keys: "derive_hop_keys_with_context sg kx
       (x_dh kx relay_secret (x_public kx client_secret) @ ss) ?pre = Inr keys"
    using derive_ok [OF ok(2)] by blast
  have "length (created_payload (x_public kx relay_secret) (verifying_key sg sk) sig ct) \<le> PAYLOAD_SIZE"
    using vk sl kem kx(2) by (simp add: created_payload_def size_defs)
  then obtain created where created: "OnionCell_new rnd (cell_circuit_id c) 0 Created 0
      (created_payload (x_public kx relay_secret) (verifying_key sg sk) sig ct) = Inr created"
    using OnionCell_new_ok_iff by (metis is_ok_iff)
  have hop': "unat (cell_payload c ! 0) = hop_index"
    using hop by (simp add: fields unat_of_nat_u8_small MAX_HOPS_def)
  have "handle_create_cell sg kx relay_secret kem_rnd rnd c sk =
      Inr ((RelayCircuitHop_new (cell_circuit_id c) keys hop_index)\<lparr>rh_context_id := cid\<rparr>, created)"
    unfolding handle_create_cell_def Let_def hop' fields(2-5) be_inverse cmd len
    using hop kx(4) contributory
    by (simp add: kem sig keys created general_cell_def put_created [OF kx(2) vk sl kem(2), simplified])
  with sig sl keys created show ?thesis by (auto simp: Let_def)
qed

lemma process_created_cell_ok:
  assumes hop: "hop_index < MAX_HOPS" and pin: "identity_pub \<noteq> replicate 32 0"
    and lens: "length relay_pub = 32" "length identity_pub = 32" "length sig = PROOF_SIZE"
      "length mlkem_ct = 1088"
    and cmd: "cell_command c = Created \<or> cell_command c = Extended"
    and len: "unat (cell_length c) = 64 + PROOF_SIZE + 1088"
    and pay: "take (64 + PROOF_SIZE + 1088) (cell_payload c) =
      created_payload relay_pub identity_pub sig mlkem_ct"
    and ver: "verify_strict sg identity_pub (handshake_preimage cid hop_index identity_pub relay_pub
      client_pub client_mlkem_pub mlkem_ct) sig = Inr ()"
    and dh: "x_dh kx client_secret relay_pub \<noteq> replicate 32 0"
    and kem: "kem_decap kx dk mlkem_ct = Some ss"
  shows "process_created_cell sg kx c client_secret client_pub dk client_mlkem_pub identity_pub cid hop_index =
    derive_hop_keys_with_context sg kx (x_dh kx client_secret relay_pub @ ss)
      (handshake_preimage cid hop_index identity_pub relay_pub client_pub client_mlkem_pub mlkem_ct)"
  unfolding process_created_cell_def Let_def created_fields [OF pay lens]
  using hop pin cmd len ver dh kem by (auto simp: VerifyingKey_from_bytes_def)

lemma handshake_exchange:
  assumes ok: "sigs_ok sg" "kex_ok kx" and hop: "hop_index < MAX_HOPS"
    and rnd: "length rnd = 32" "length rnd' = 32"
    and pin: "verifying_key sg sk \<noteq> replicate 32 0"
    and contributory: "x_dh kx relay_secret (x_public kx client_secret) \<noteq> replicate 32 0"
    and answer: "answer = Created \<or> answer = Extended"
  shows "\<exists>create rh created.
    build_create_cell rnd cid (x_public kx client_secret) (kem_public kx dk) hop_index = Inr create \<and>
    handle_create_cell sg kx relay_secret kem_rnd rnd' (create\<lparr>cell_circuit_id := link\<rparr>) sk = Inr (rh, created) \<and>
    process_created_cell sg kx (created\<lparr>cell_circuit_id := cid, cell_command := answer\<rparr>) client_secret
      (x_public kx client_secret) dk (kem_public kx dk) (verifying_key sg sk) cid hop_index =
      Inr (rh_crypt rh) \<and>
    rh_circuit_id rh = link \<and> rh_context_id rh = cid \<and> rh_hop_index rh = hop_index"
proof -
  note kx = kex_okD [OF ok(2)]
  let ?cp = "create_payload cid (x_public kx client_secret) (kem_public kx dk) hop_index"
  have cl: "length ?cp = 1222" using kx(2,5) by (simp add: create_payload_def)
  then obtain create where new: "OnionCell_new rnd cid 0 Create 0 ?cp = Inr create"
    using OnionCell_new_ok_iff [of rnd cid 0 Create 0 ?cp] by (auto simp: is_ok_iff size_defs)
  note c = OnionCell_new_Inr [OF new rnd(1)]
  have build: "build_create_cell rnd cid (x_public kx client_secret) (kem_public kx dk) hop_index = Inr create"
    using hop kx(2,5) by (simp add: build_create_cell_eq new general_cell_def)
  obtain ct ss where kem: "kem_encap kx (kem_public kx dk) kem_rnd = Some (ct, ss)" "length ct = 1088"
    "kem_decap kx dk ct = Some ss"
    using kx(6) by blast
  let ?c = "create\<lparr>cell_circuit_id := link\<rparr>"
  have "cell_length create = 1222"
    using c(2) cl by (intro unsigned_word_eqI [where 'a = nat]) simp
  with handle_create_cell_ok [OF ok hop rnd(2), of ?c cid client_secret dk relay_secret kem_rnd ct ss sk]
  obtain sig keys created where
    handle: "handle_create_cell sg kx relay_secret kem_rnd rnd' ?c sk =
      Inr ((RelayCircuitHop_new link keys hop_index)\<lparr>rh_context_id := cid\<rparr>, created)"
    and sig: "identity_sign sg sk (handshake_preimage cid hop_index (verifying_key sg sk)
       (x_public kx relay_secret) (x_public kx client_secret) (kem_public kx dk) ct) = Inr sig"
      "length sig = PROOF_SIZE"
    and keys: "derive_hop_keys_with_context sg kx
       (x_dh kx relay_secret (x_public kx client_secret) @ ss) (handshake_preimage cid hop_index
         (verifying_key sg sk) (x_public kx relay_secret) (x_public kx client_secret)
         (kem_public kx dk) ct) = Inr keys"
    and created: "OnionCell_new rnd' link 0 Created 0
      (created_payload (x_public kx relay_secret) (verifying_key sg sk) sig ct) = Inr created"
    using c(4,5) cl contributory kem(1,2) by (auto simp: Let_def)
  note d = OnionCell_new_Inr [OF created rnd(2)]
  have vk: "length (verifying_key sg sk) = 32" using ok by (simp add: verifying_key_def length_fingerprint)
  have dl: "length (created_payload (x_public kx relay_secret) (verifying_key sg sk) sig ct) =
      64 + PROOF_SIZE + 1088"
    using kx(2) vk sig(2) kem(2) by (simp add: created_payload_def)
  have "process_created_cell sg kx (created\<lparr>cell_circuit_id := cid, cell_command := answer\<rparr>) client_secret
      (x_public kx client_secret) dk (kem_public kx dk) (verifying_key sg sk) cid hop_index =
      derive_hop_keys_with_context sg kx (x_dh kx client_secret (x_public kx relay_secret) @ ss)
        (handshake_preimage cid hop_index (verifying_key sg sk) (x_public kx relay_secret)
          (x_public kx client_secret) (kem_public kx dk) ct)"
    by (rule process_created_cell_ok [OF hop pin kx(2) vk sig(2) kem(2), where ss = ss])
      (use answer d(2,4) dl contributory kem(3) identity_sign_verify_aux [OF ok(1) sig(1)] kx(1) in auto)
  with build handle keys kx(1) [of client_secret relay_secret] show ?thesis
    by (auto simp: RelayCircuitHop_new_def)
qed

section \<open>Properties\<close>

text \<open>
  C15. The handshake agrees: the CREATE cell a client builds, carried under any link circuit
  identifier, is answered by the relay, and the client, which pins the relay's identity, derives
  from the answer (received as CREATED or tunnelled back as EXTENDED) exactly the keys the relay
  installed. Both sides hold the same context and hop index.
\<close>

theorem handshake_agreement:
  assumes ok: "sigs_ok sg" "kex_ok kx" and hop: "hop_index < MAX_HOPS"
    and rnd: "length rnd = 32" "length rnd' = 32"
    and pin: "verifying_key sg sk \<noteq> replicate 32 0"
    and contributory: "x_dh kx relay_secret (x_public kx client_secret) \<noteq> replicate 32 0"
    and answer: "answer = Created \<or> answer = Extended"
  shows "\<exists>create rh created.
    build_create_cell rnd cid (x_public kx client_secret) (kem_public kx dk) hop_index = Inr create \<and>
    handle_create_cell sg kx relay_secret kem_rnd rnd' (create\<lparr>cell_circuit_id := link\<rparr>) sk = Inr (rh, created) \<and>
    process_created_cell sg kx (created\<lparr>cell_circuit_id := cid, cell_command := answer\<rparr>) client_secret
      (x_public kx client_secret) dk (kem_public kx dk) (verifying_key sg sk) cid hop_index =
      Inr (rh_crypt rh) \<and>
    rh_circuit_id rh = link \<and> rh_context_id rh = cid \<and> rh_hop_index rh = hop_index"
  by (rule handshake_exchange [OF ok hop rnd pin contributory answer])

text \<open>
  C16. What a client may conclude from an accepted answer: the pin is not the zero pin, the answer
  names exactly the pinned identity, and a composite signature under that pin verified on the
  transcript that fixes the context, the hop index, the relay's ephemeral key, both client keys
  and the ciphertext; the X25519 share was contributory, and the keys are derived from it and
  from that same transcript.
\<close>

theorem handshake_authentic:
  assumes "process_created_cell sg kx c client_secret client_pub dk client_mlkem_pub pin cid hop_index = Inr keys"
  shows "let p = cell_payload c; eph = subslice 0 32 p; ct = subslice 5437 6525 p;
             pre = handshake_preimage cid hop_index pin eph client_pub client_mlkem_pub ct
         in pin \<noteq> replicate 32 0 \<and> subslice 32 64 p = pin \<and>
            verify_strict sg pin pre (subslice 64 5437 p) = Inr () \<and>
            x_dh kx client_secret eph \<noteq> replicate 32 0 \<and>
            (\<exists>ss. kem_decap kx dk ct = Some ss \<and>
              derive_hop_keys_with_context sg kx (x_dh kx client_secret eph @ ss) pre = Inr keys)"
  using assms
  by (auto simp: process_created_cell_def Let_def VerifyingKey_from_bytes_def size_defs
      split: if_splits option.splits sum.splits)

text \<open>
  EXTEND payloads: every request within the limits is decoded to itself, and conversely a
  payload that decodes is the encoding of what it decodes to, so no two payloads mean the same
  extension.
\<close>

theorem extend_payload_roundtrip:
  "(wf_extend (host, port, client_pub, mlkem, hop_index) \<longrightarrow>
      (\<exists>bs. encode_extend_payload host port client_pub mlkem hop_index = Inr bs \<and>
         decode_extend_payload bs = Inr (host, port, client_pub, mlkem, hop_index))) \<and>
   (decode_extend_payload payload = Inr (host, port, client_pub, mlkem, hop_index) \<longrightarrow>
      encode_extend_payload host port client_pub mlkem hop_index = Inr payload)"
  using ext.round_trip [of "(host, port, client_pub, mlkem, hop_index)"]
    decode_extend_InrD [of payload "(host, port, client_pub, mlkem, hop_index)"]
  by (simp add: extend_enc_def)

text \<open>
  RELAY targets: a host name of at most 255 bytes and a port survive the trip, also when
  further bytes follow the encoding; a longer name is refused by the encoder.
\<close>

theorem relay_target_roundtrip:
  assumes "utf8_valid host"
  shows "(if length host \<le> 255
     then \<exists>bs. encode_relay_target host port = Inr bs \<and>
       (\<forall>rest. decode_relay_target (bs @ rest) = Inr (host, port))
     else encode_relay_target host port = Inl (General ''Target host string exceeds 255 bytes limit''))"
  using decode_encode_target [OF _ assms] by (simp add: encode_relay_target_def)

section \<open>Witnesses\<close>

text \<open>
  A concrete key agreement: X25519 is replaced by exclusive or with the secret as public key,
  the encapsulation writes the secret into the ciphertext.
\<close>

definition xor_kex :: kex where
  "xor_kex = \<lparr>x_public = fit 32, x_dh = (\<lambda>a p. map2 (XOR) (fit 32 a) (fit 32 p)),
    kem_public = (\<lambda>dk. replicate 1152 0 @ fit 32 dk),
    kem_encap = (\<lambda>ek r. Some (fit 1088 r, fit 32 (fit 1088 r))),
    kem_decap = (\<lambda>dk ct. Some (fit 32 ct)),
    hkdf = (\<lambda>salt ikm info n. Some (fit n (info @ ikm)))\<rparr>"

lemma fit_fit [simp]: "fit n (fit n xs) = fit n xs"
  by (simp add: fit_def)

lemma triples_below_zero: "\<forall>b \<in> set bs. b = 0 \<Longrightarrow> triples_below bs"
  by (induction bs rule: triples_below.induct) (auto simp: Let_def)

lemma map2_xor_commute: "map2 (XOR) xs ys = map2 (XOR) ys (xs :: bytes)"
  by (induction xs arbitrary: ys) (auto simp: zip_Cons1 xor.commute split: list.splits)

lemma kex_ok_xor: "kex_ok xor_kex"
  unfolding kex_ok_def
proof (intro conjI allI)
  fix a b p dk :: bytes
  show "x_dh xor_kex a (x_public xor_kex b) = x_dh xor_kex b (x_public xor_kex a)"
    using map2_xor_commute by (simp add: xor_kex_def)
  show "mlkem768_public_is_canonical (kem_public xor_kex dk)"
    by (simp add: xor_kex_def mlkem768_public_is_canonical_def triples_below_zero)
qed (simp_all add: xor_kex_def)

lemma pin_a: "verifying_key fit_sigs key_a \<noteq> replicate 32 0"
  by (simp add: verifying_key_def fingerprint_def fit_sigs_def fit_def ascii_def Cons_replicate_eq)

lemma contributory_a: "x_dh xor_kex [3] (x_public xor_kex [1]) \<noteq> replicate 32 0"
  by (simp add: xor_kex_def fit_def Cons_replicate_eq)

lemma hop_1: "1 < MAX_HOPS"
  by (simp add: MAX_HOPS_def)

theorem handshake_agreement_witness:
  "kex_ok xor_kex \<and> (\<exists>create rh created.
    build_create_cell (replicate 32 0) 7 (x_public xor_kex [1]) (kem_public xor_kex [2]) 1 = Inr create \<and>
    handle_create_cell fit_sigs xor_kex [3] [4] (replicate 32 0) (create\<lparr>cell_circuit_id := 9\<rparr>) key_a =
      Inr (rh, created) \<and>
    process_created_cell fit_sigs xor_kex (created\<lparr>cell_circuit_id := 7, cell_command := Extended\<rparr>) [1]
      (x_public xor_kex [1]) [2] (kem_public xor_kex [2]) (verifying_key fit_sigs key_a) 7 1 =
      Inr (rh_crypt rh))"
  using handshake_agreement [OF sigs_ok_fit kex_ok_xor hop_1, of "replicate 32 0" "replicate 32 0" key_a
      "[3]" "[1]" Extended 7 "[2]" "[4]" 9] kex_ok_xor pin_a contributory_a
  by auto

theorem handshake_authentic_witness:
  "\<exists>c keys. process_created_cell fit_sigs xor_kex c [1] (x_public xor_kex [1]) [2] (kem_public xor_kex [2])
      (verifying_key fit_sigs key_a) 7 1 = Inr keys \<and>
    subslice 32 64 (cell_payload c) = verifying_key fit_sigs key_a"
proof -
  obtain c keys where "process_created_cell fit_sigs xor_kex c [1] (x_public xor_kex [1]) [2]
      (kem_public xor_kex [2]) (verifying_key fit_sigs key_a) 7 1 = Inr keys"
    using handshake_exchange [OF sigs_ok_fit kex_ok_xor hop_1, of "replicate 32 0" "replicate 32 0" key_a
      "[3]" "[1]" Extended 7 "[2]" "[4]" 9] pin_a contributory_a
    by auto
  with handshake_authentic [OF this] show ?thesis by (auto simp: Let_def)
qed

definition extend_a :: "bytes \<times> u16 \<times> bytes \<times> bytes \<times> nat" where
  "extend_a = (ascii ''relay.example'', 443, replicate 32 5, replicate 1184 0, 2)"

theorem extend_payload_roundtrip_witness:
  "wf_extend extend_a \<and> (\<exists>bs. encode_extend_payload (ascii ''relay.example'') 443 (replicate 32 5) (replicate 1184 0) 2 = Inr bs \<and>
     decode_extend_payload bs = Inr extend_a)"
proof -
  have "wf_extend extend_a"
    by (simp add: wf_extend_def extend_a_def MAX_HOPS_def ascii_def mlkem768_public_is_canonical_def
        triples_below_zero utf8_valid_ascii_bytes)
  then show ?thesis
    using extend_payload_roundtrip [of "ascii ''relay.example''" 443 "replicate 32 5" "replicate 1184 0" 2 "[]"]
    by (simp add: extend_a_def)
qed

theorem relay_target_roundtrip_witness:
  "\<exists>bs. encode_relay_target (ascii ''example.org'') 80 = Inr bs \<and>
     decode_relay_target (bs @ [1, 2, 3]) = Inr (ascii ''example.org'', 80)"
proof -
  have "utf8_valid (ascii ''example.org'')" by (simp add: ascii_def utf8_valid_ascii_bytes)
  from relay_target_roundtrip [OF this, of 80] show ?thesis by auto
qed

end
