(* ===== verification/Containers.thy ===== *)
theory Containers
  imports Prelude
begin

text \<open>
  Ordered maps. A \<open>BTreeMap\<close> of the source is an association list with strictly increasing
  keys, so that iteration in key order is the order of the list. The locale \<open>dict\<close> states the
  laws its clients use; the sorted association list is an instance.
\<close>

fun bt_insert :: "'k::linorder \<Rightarrow> 'v \<Rightarrow> ('k \<times> 'v) list \<Rightarrow> ('k \<times> 'v) list" where
  "bt_insert k v [] = [(k, v)]"
| "bt_insert k v ((k', v') # m) =
    (if k < k' then (k, v) # (k', v') # m
     else if k = k' then (k, v) # m
     else (k', v') # bt_insert k v m)"

definition bt_remove :: "'k \<Rightarrow> ('k \<times> 'v) list \<Rightarrow> ('k \<times> 'v) list" where
  "bt_remove k m = filter (\<lambda>(k', _). k' \<noteq> k) m"

definition bt_keys :: "('k \<times> 'v) list \<Rightarrow> 'k list" where
  "bt_keys m = map fst m"

definition bt_wf :: "('k::linorder \<times> 'v) list \<Rightarrow> bool" where
  "bt_wf m \<longleftrightarrow> sorted_wrt (<) (bt_keys m)"

lemma bt_keys_insert: "set (bt_keys (bt_insert k v m)) = insert k (set (bt_keys m))"
proof (induction m)
  case (Cons a m)
  then show ?case by (cases a) (simp add: bt_keys_def insert_commute)
qed (simp add: bt_keys_def)

lemma bt_get_insert: "bt_wf m \<Longrightarrow> map_of (bt_insert k v m) k' = (if k' = k then Some v else map_of m k')"
proof (induction m)
  case Nil
  then show ?case by simp
next
  case (Cons a m)
  then show ?case by (cases a) (auto simp: bt_wf_def bt_keys_def)
qed

lemma bt_wf_insert: "bt_wf m \<Longrightarrow> bt_wf (bt_insert k v m)"
proof (induction m)
  case Nil
  then show ?case by (simp add: bt_wf_def bt_keys_def)
next
  case (Cons a m)
  obtain k' v' where a: "a = (k', v')" by (cases a)
  have "set (map fst (bt_insert k v m)) = insert k (set (map fst m))"
    using bt_keys_insert [of k v m] by (simp add: bt_keys_def)
  with Cons show ?case by (fastforce simp: a bt_wf_def bt_keys_def)
qed

lemma bt_wf_remove: "bt_wf m \<Longrightarrow> bt_wf (bt_remove k m)"
  by (induction m) (auto simp: bt_wf_def bt_keys_def bt_remove_def)

lemma bt_get_remove: "map_of (bt_remove k m) k' = (if k' = k then None else map_of m k')"
  by (induction m) (auto simp: bt_remove_def)

lemma bt_distinct: "bt_wf m \<Longrightarrow> distinct (bt_keys m)"
  by (simp add: bt_wf_def strict_sorted_iff)

lemma bt_length: "bt_wf m \<Longrightarrow> length m = card (dom (map_of m))"
  using distinct_card [OF bt_distinct, of m] by (simp add: dom_map_of_conv_image_fst bt_keys_def)

lemma bt_wf_Nil [simp]: "bt_wf []"
  by (simp add: bt_wf_def bt_keys_def)

lemma bt_keys_dom: "set (bt_keys m) = dom (map_of m)"
  by (simp add: bt_keys_def dom_map_of_conv_image_fst)

text \<open>
  The laws of a finite dictionary, and what follows for its size.
\<close>

locale dict =
  fixes wf :: "'m \<Rightarrow> bool" and get :: "'m \<Rightarrow> 'k \<Rightarrow> 'v option"
    and ins :: "'k \<Rightarrow> 'v \<Rightarrow> 'm \<Rightarrow> 'm" and del :: "'k \<Rightarrow> 'm \<Rightarrow> 'm" and size :: "'m \<Rightarrow> nat"
  assumes wf_ins: "wf m \<Longrightarrow> wf (ins k v m)"
    and wf_del: "wf m \<Longrightarrow> wf (del k m)"
    and get_ins: "wf m \<Longrightarrow> get (ins k v m) = (get m)(k \<mapsto> v)"
    and get_del: "wf m \<Longrightarrow> get (del k m) = (get m)(k := None)"
    and finite_get: "wf m \<Longrightarrow> finite (dom (get m))"
    and size_get: "wf m \<Longrightarrow> size m = card (dom (get m))"
begin

lemma size_ins_new: "wf m \<Longrightarrow> get m k = None \<Longrightarrow> size (ins k v m) = size m + 1"
  by (simp add: size_get wf_ins get_ins finite_get domIff)

lemma size_ins_old: "wf m \<Longrightarrow> get m k = Some u \<Longrightarrow> size (ins k v m) = size m"
proof -
  assume w: "wf m" and g: "get m k = Some u"
  then have "insert k (dom (get m)) = dom (get m)" by auto
  with w show ?thesis by (simp add: size_get wf_ins get_ins)
qed

lemma size_del_le: "wf m \<Longrightarrow> size (del k m) \<le> size m"
  by (simp add: size_get wf_del get_del finite_get card_mono)

lemma size_del_present: "wf m \<Longrightarrow> get m k = Some u \<Longrightarrow> size (del k m) + 1 = size m"
proof -
  assume w: "wf m" and g: "get m k = Some u"
  then have "dom (get m) = insert k (dom ((get m)(k := None)))" by auto
  with w show ?thesis
    using card_insert_disjoint [of "dom ((get m)(k := None))" k] finite_get [OF w]
    by (simp add: size_get wf_del get_del)
qed

lemma del_absent: "wf m \<Longrightarrow> get m k = None \<Longrightarrow> get (del k m) = get m"
  by (simp add: get_del fun_upd_idem)

end

interpretation bt: dict bt_wf map_of bt_insert bt_remove length
proof
  fix m :: "('k::linorder \<times> 'v) list" and k v
  assume wf: "bt_wf m"
  show "bt_wf (bt_insert k v m)" by (rule bt_wf_insert [OF wf])
  show "bt_wf (bt_remove k m)" by (rule bt_wf_remove [OF wf])
  show "map_of (bt_insert k v m) = (map_of m)(k \<mapsto> v)" by (rule ext) (simp add: bt_get_insert [OF wf])
  show "map_of (bt_remove k m) = (map_of m)(k := None)" by (rule ext) (simp add: bt_get_remove)
  show "finite (dom (map_of m))" by (rule finite_dom_map_of)
  show "length m = card (dom (map_of m))" by (rule bt_length [OF wf])
qed

end
