(* ===== verification/Session.thy ===== *)
theory Session
  imports Handshake Flow Containers
begin

text \<open>
  Multiplexed padded sessions of \<open>src/src/onion/session.rs\<close>. The loop \<open>run\<close> selects among a
  clock tick, a request to open a stream, an event of a worker task and a received frame; each
  branch is one handler on the record \<open>session\<close>, which holds the local variables of the loop.
  The worker tasks of a stream (its writer and its reader) are steps of their own on the same
  record: the queues between them and the loop are lists. Time is in nanoseconds. The receive
  budget, a floating-point number of cells in the source, is kept exactly, in units of a four
  millionth of a cell (250 cells per second are one unit per nanosecond).
\<close>

section \<open>Constants and errors\<close>

definition MAX_STREAMS :: nat where [size_defs]: "MAX_STREAMS = 16"
definition QUEUE :: nat where [size_defs]: "QUEUE = 32"
definition MAX_CONTROLS :: nat where [size_defs]: "MAX_CONTROLS = 64"
definition MAX_IDS :: u16 where [size_defs]: "MAX_IDS = 1024"
definition LIFETIME :: nat where [size_defs]: "LIFETIME = secs 300"
definition BUCKET :: nat where [size_defs]: "BUCKET = 64"

datatype sess_error =
    Invalid string
  | SeCell cell_error
  | SeCircuit CircuitError
  | SeFlow flow_error
  | SeWrite

section \<open>Privacy profiles\<close>

datatype Profile = Balanced | LongTail | FixedWindow | Strict | Rmt | Poisson

definition Profile_parse :: "bytes \<Rightarrow> sess_error + Profile" where
  "Profile_parse v =
    (if v = ascii ''balanced'' then Inr Balanced
     else if v = ascii ''balanced-longtail'' then Inr LongTail
     else if v = ascii ''fixed-window'' then Inr FixedWindow
     else if v = ascii ''strict'' then Inr Strict
     else if v = ascii ''research-rmt'' then Inr Rmt
     else if v = ascii ''research-poisson'' then Inr Poisson
     else Inl (Invalid ''Unknown privacy profile''))"

fun Profile_encode :: "Profile \<Rightarrow> bytes" where
  "Profile_encode Balanced = [1, 1]"
| "Profile_encode Strict = [1, 2]"
| "Profile_encode Rmt = [1, 3]"
| "Profile_encode Poisson = [1, 4]"
| "Profile_encode LongTail = [1, 5]"
| "Profile_encode FixedWindow = [1, 6]"

definition Profile_decode :: "bytes \<Rightarrow> sess_error + Profile" where
  "Profile_decode v =
    (if v = [1, 1] then Inr Balanced
     else if v = [1, 2] then Inr Strict
     else if v = [1, 3] then Inr Rmt
     else if v = [1, 4] then Inr Poisson
     else if v = [1, 5] then Inr LongTail
     else if v = [1, 6] then Inr FixedWindow
     else Inl (Invalid ''Unsupported session profile/version''))"

text \<open>The jitter engines draw the interval of the research profiles: \<open>sample\<close>.\<close>

definition interval :: "nat \<Rightarrow> Profile \<Rightarrow> nat" where
  "interval sample p =
    (case p of Balanced \<Rightarrow> millis 40 | LongTail \<Rightarrow> millis 40
     | Strict \<Rightarrow> millis 20 | FixedWindow \<Rightarrow> millis 20
     | Rmt \<Rightarrow> sample | Poisson \<Rightarrow> sample)"

definition div_ceil :: "nat \<Rightarrow> nat \<Rightarrow> nat" where
  "div_ceil a b = (a + (b - 1)) div b"

definition can_finish :: "Profile \<Rightarrow> nat \<Rightarrow> nat \<Rightarrow> nat \<Rightarrow> bool" where
  "can_finish p age idle cells =
    (if p = FixedWindow then age \<ge> secs 120 \<and> (cells + 1) mod 6000 = 0
     else
       let (quantum, minimum_idle) = (if p = LongTail then (60, 20) else (30, 10));
           last_activity = (age - idle) div secs 1
       in age \<ge> secs (max (div_ceil (last_activity + minimum_idle) quantum * quantum) quantum) \<and>
          idle \<ge> secs minimum_idle \<and> (cells + 1) mod BUCKET = 0)"

section \<open>Packing queued reads\<close>

datatype try_recv_error = EmptyQueue | Disconnected

record Outgoing =
  og_queue :: "bytes list"
  og_open :: bool
  og_pending :: "bytes option"

text \<open>The bounded loop of \<open>try_next\<close>: data so far, remaining queue, overflow.\<close>

fun pack :: "nat \<Rightarrow> bytes \<Rightarrow> bytes list \<Rightarrow> bytes \<times> bytes list \<times> bytes option" where
  "pack 0 data q = (data, q, None)"
| "pack (Suc n) data q =
    (if length data = PAYLOAD_SIZE then (data, q, None)
     else case q of
         [] \<Rightarrow> (data, [], None)
       | nxt # q' \<Rightarrow>
           let avail = PAYLOAD_SIZE - length data in
           if length nxt > avail then (data @ take avail nxt, q', Some (drop avail nxt))
           else pack n (data @ nxt) q')"

definition try_next :: "Outgoing \<Rightarrow> try_recv_error + (bytes \<times> Outgoing)" where
  "try_next og =
    (let go = (\<lambda>data q. let (d, q', p) = pack (QUEUE - 1) data q
                        in Inr (d, og\<lparr>og_queue := q', og_pending := p\<rparr>))
     in case og_pending og of
          Some data \<Rightarrow> go data (og_queue og)
        | None \<Rightarrow>
            (case og_queue og of
               [] \<Rightarrow> Inl (if og_open og then EmptyQueue else Disconnected)
             | data # q \<Rightarrow> go data q))"

section \<open>Streams\<close>

text \<open>
  \<open>st_incoming\<close> is the channel to the writer task (\<open>None\<close> is the end marker),
  \<open>st_count\<close> and \<open>st_writer\<close> are the writer's counter and whether the task still holds
  the channel. \<open>st_reply\<close> and \<open>st_application\<close> say whether the options are filled.
\<close>

record Stream =
  st_incoming :: "bytes option list"
  st_outgoing :: Outgoing
  st_window :: SendWindow
  st_received :: u32
  st_written :: u32
  st_ack :: "u32 option"
  st_sent_end :: bool
  st_received_end :: bool
  st_ready :: bool
  st_reply :: bool
  st_application :: bool
  st_count :: u32
  st_writer :: bool

datatype Event = Written u16 u32 | Connected u16 bool | Failed u16

definition attach :: Stream where
  "attach = \<lparr>st_incoming = [], st_outgoing = \<lparr>og_queue = [], og_open = True, og_pending = None\<rparr>,
     st_window = SendWindow_default, st_received = 0, st_written = 0, st_ack = None,
     st_sent_end = False, st_received_end = False, st_ready = True, st_reply = False,
     st_application = False, st_count = 0, st_writer = True\<rparr>"

text \<open>\<open>try_send\<close> on the channel of capacity \<open>QUEUE + 1\<close>: fails when full or without receiver.\<close>

definition try_send :: "bytes option \<Rightarrow> Stream \<Rightarrow> Stream option" where
  "try_send x st =
    (if st_writer st \<and> length (st_incoming st) < QUEUE + 1
     then Some (st\<lparr>st_incoming := st_incoming st @ [x]\<rparr>) else None)"

section \<open>Cells of the session\<close>

datatype Crypto = CryptoClient OnionCircuit | CryptoExit RelayCircuitHop

fun Crypto_id :: "Crypto \<Rightarrow> u32" where
  "Crypto_id (CryptoClient c) = oc_circuit_id c"
| "Crypto_id (CryptoExit c) = rh_circuit_id c"

definition Crypto_outgoing ::
  "crypto \<Rightarrow> bytes \<Rightarrow> Crypto \<Rightarrow> CellCommand \<Rightarrow> u16 \<Rightarrow> bytes \<Rightarrow> sess_error + (Crypto \<times> bytes)" where
  "Crypto_outgoing cr rnd k command sid data =
    (case OnionCell_new rnd (Crypto_id k) 0 command sid data of
       Inl e \<Rightarrow> Inl (SeCell e)
     | Inr cell \<Rightarrow>
         (case k of
            CryptoClient c \<Rightarrow>
              (case wrap_forward cr c cell of
                 Inl e \<Rightarrow> Inl (SeCircuit e)
               | Inr (c', _, wire) \<Rightarrow> Inr (CryptoClient c', wire))
          | CryptoExit c \<Rightarrow>
              (case wrap_backward_originate cr c (serialize cell) of
                 (c', wire, Inl e) \<Rightarrow> Inl (SeCircuit e)
               | (c', wire, Inr _) \<Rightarrow> Inr (CryptoExit c', wire))))"

definition Crypto_incoming :: "crypto \<Rightarrow> Crypto \<Rightarrow> bytes \<Rightarrow> sess_error + (Crypto \<times> OnionCell)" where
  "Crypto_incoming cr k wire =
    (case k of
       CryptoClient c \<Rightarrow>
         (case unwrap_backward cr c wire of
            (c', Inl e) \<Rightarrow> Inl (SeCircuit e)
          | (c', Inr (hop, cell)) \<Rightarrow>
              if hop + 1 \<noteq> length (oc_hops c')
              then Inl (Invalid ''Session cell originated before exit'')
              else Inr (CryptoClient c', cell))
     | CryptoExit c \<Rightarrow>
         (case peel_forward cr c wire of
            (c', wire', Inl e) \<Rightarrow> Inl (SeCircuit e)
          | (c', wire', Inr (AddressedToThisRelay _ _)) \<Rightarrow>
              (case parse wire' of
                 Inl e \<Rightarrow> Inl (SeCell e)
               | Inr cell \<Rightarrow> Inr (CryptoExit c', cell))
          | (c', wire', Inr ForwardDownstream) \<Rightarrow> Inl (Invalid ''Unaddressed session cell'')))"

section \<open>The state of the loop\<close>

type_synonym control = "CellCommand \<times> u16 \<times> bytes"

record session =
  se_client :: bool
  se_crypto :: Crypto
  se_profile :: Profile
  se_streams :: "(u16 \<times> Stream) list"
  se_connecting :: "u16 set"
  se_connect_tasks :: "u16 set"
  se_closed :: "u16 set"
  se_receive_budget :: nat
  se_receive_time :: nat
  se_events :: "Event list"
  se_controls :: "control list"
  se_last_id :: u16
  se_cursor :: u16
  se_cells :: nat
  se_start :: nat
  se_activity :: nat
  se_finishing :: bool
  se_peer_finish :: bool
  se_prefer_control :: bool
  se_deadline :: nat

definition BUDGET_CELL :: nat where [size_defs]: "BUDGET_CELL = 4000000"
definition BUDGET_MAX :: nat where [size_defs]: "BUDGET_MAX = 512 * BUDGET_CELL"

definition session_start :: "bool \<Rightarrow> Crypto \<Rightarrow> Profile \<Rightarrow> nat \<Rightarrow> nat \<Rightarrow> session" where
  "session_start client k p sample now =
    \<lparr>se_client = client, se_crypto = k, se_profile = p, se_streams = [], se_connecting = {},
     se_connect_tasks = {}, se_closed = {}, se_receive_budget = BUDGET_MAX, se_receive_time = now,
     se_events = [], se_controls = [], se_last_id = 0, se_cursor = 0, se_cells = 0, se_start = now,
     se_activity = now, se_finishing = False, se_peer_finish = False, se_prefer_control = False,
     se_deadline = now + interval sample p\<rparr>"

text \<open>
  What a handler yields: the loop goes on, or the session has ended in order. \<open>Wire\<close> is a
  frame written to the link, \<open>ReplyOk\<close> and \<open>ReplyErr\<close> answer the application that asked
  for a stream.
\<close>

datatype sess_output = Wire bytes | ReplyOk u16 | ReplyErr string

datatype progress = Running session "sess_output list" | Done "sess_output list"

definition put_stream :: "u16 \<Rightarrow> Stream \<Rightarrow> session \<Rightarrow> session" where
  "put_stream sid st s = s\<lparr>se_streams := bt_insert sid st (se_streams s)\<rparr>"

definition push_control :: "control \<Rightarrow> session \<Rightarrow> session" where
  "push_control c s = s\<lparr>se_controls := se_controls s @ [c]\<rparr>"

text \<open>\<open>streams.remove(&id); closed.insert(id)\<close>, as every branch that ends a stream does.\<close>

definition drop_stream :: "u16 \<Rightarrow> session \<Rightarrow> session" where
  "drop_stream sid s = s\<lparr>se_streams := bt_remove sid (se_streams s),
     se_closed := insert sid (se_closed s)\<rparr>"

section \<open>The clock branch\<close>

text \<open>The round-robin selection over the stream identifiers.\<close>

fun select_stream ::
  "u16 list \<Rightarrow> (u16 \<times> Stream) list \<Rightarrow> sess_error + ((u16 \<times> Stream) list \<times> control option)" where
  "select_stream [] ss = Inr (ss, None)"
| "select_stream (sid # ids) ss =
    (case map_of ss sid of
       None \<Rightarrow> Inl (Invalid ''Missing stream'')
     | Some st \<Rightarrow>
         if \<not> st_ready st then select_stream ids ss
         else (case st_ack st of
           Some ack \<Rightarrow> Inr (bt_insert sid (st\<lparr>st_ack := None\<rparr>) ss, Some (DataAck, sid, to_be 4 ack))
         | None \<Rightarrow>
             if \<not> st_sent_end st \<and> available (st_window st) then
               (case try_next (st_outgoing st) of
                  Inr (data, og) \<Rightarrow>
                    (case sent (st_window st) of
                       Inl e \<Rightarrow> Inl (SeFlow e)
                     | Inr w \<Rightarrow> Inr (bt_insert sid (st\<lparr>st_outgoing := og, st_window := w\<rparr>) ss,
                                     Some (Data, sid, data)))
                | Inl Disconnected \<Rightarrow>
                    Inr (bt_insert sid (st\<lparr>st_sent_end := True\<rparr>) ss, Some (End, sid, []))
                | Inl EmptyQueue \<Rightarrow> select_stream ids ss)
             else select_stream ids ss))"

definition round_robin :: "session \<Rightarrow> u16 list" where
  "round_robin s = (let ids = bt_keys (se_streams s)
     in filter (\<lambda>i. i > se_cursor s) ids @ filter (\<lambda>i. i \<le> se_cursor s) ids)"

definition pop_control :: "session \<Rightarrow> session \<times> control option" where
  "pop_control s =
    (case se_controls s of [] \<Rightarrow> (s, None) | c # cs \<Rightarrow> (s\<lparr>se_controls := cs\<rparr>, Some c))"

text \<open>The cell of this tick: a control in alternation, else a stream, else a control, else a dummy.\<close>

definition first_control :: "session \<Rightarrow> session \<times> control option" where
  "first_control s =
    (let s = s\<lparr>se_prefer_control := \<not> se_prefer_control s\<rparr>
     in if se_prefer_control s then pop_control s else (s, None))"

definition stream_or_control :: "nat \<Rightarrow> session \<Rightarrow> sess_error + (session \<times> control)" where
  "stream_or_control now s =
    ebind (if now - se_start s \<ge> secs 1 then select_stream (round_robin s) (se_streams s)
           else Inr (se_streams s, None)) (\<lambda>(ss, selected).
      case selected of
        Some (command, sid, data) \<Rightarrow>
          Inr (s\<lparr>se_streams := ss, se_cursor := sid\<rparr>, (command, sid, data))
      | None \<Rightarrow>
          (case pop_control (s\<lparr>se_streams := ss\<rparr>) of
             (s, Some c) \<Rightarrow> Inr (s, c)
           | (s, None) \<Rightarrow> Inr (s, (Dummy, 0, []))))"

definition select_cell :: "nat \<Rightarrow> session \<Rightarrow> sess_error + (session \<times> control)" where
  "select_cell now s =
    (case first_control s of
       (s, Some c) \<Rightarrow> Inr (s, c)
     | (s, None) \<Rightarrow> stream_or_control now s)"

definition retirable :: "Stream \<Rightarrow> bool" where
  "retirable st \<longleftrightarrow> st_sent_end st \<and> st_received_end st \<and> drained (st_window st) \<and>
     st_received st = st_written st \<and> st_ack st = None"

text \<open>\<open>gone\<close> lists the streams whose reply channel the application has closed.\<close>

definition retire :: "u16 list \<Rightarrow> session \<Rightarrow> session" where
  "retire gone s =
    (let retired = map fst (filter (\<lambda>(_, st). retirable st) (se_streams s));
         s = fold drop_stream retired s;
         cancelled = map fst (filter (\<lambda>(sid, st). st_reply st \<and> sid \<in> set gone) (se_streams s))
     in fold (\<lambda>sid s. push_control (SessionReset, sid, []) (drop_stream sid s)) cancelled s)"

record tick_env =
  te_now :: nat
  te_after :: nat
  te_rnd :: bytes
  te_written :: bool
  te_sample :: nat
  te_gone :: "u16 list"

definition idle_session :: "session \<Rightarrow> bool" where
  "idle_session s \<longleftrightarrow> se_streams s = [] \<and> se_connecting s = {} \<and> se_controls s = []"

definition finish_due :: "nat \<Rightarrow> session \<Rightarrow> bool" where
  "finish_due now s \<longleftrightarrow> idle_session s \<and>
     can_finish (se_profile s) (now - se_start s) (now - se_activity s) (se_cells s)"

definition request_finish :: "nat \<Rightarrow> session \<Rightarrow> session" where
  "request_finish now s =
    (if finish_due now s \<and> se_client s \<and> \<not> se_finishing s
     then push_control (SessionFinish, 0, []) (s\<lparr>se_finishing := True\<rparr>) else s)"

definition on_tick :: "crypto \<Rightarrow> tick_env \<Rightarrow> session \<Rightarrow> sess_error + progress" where
  "on_tick cr te s =
    (if finish_due (te_now te) s \<and> \<not> se_client s \<and> se_peer_finish s
     then ebind (Crypto_outgoing cr (te_rnd te) (se_crypto s) SessionFinished 0 []) (\<lambda>(k, wire).
            if \<not> te_written te then Inl SeWrite else Inr (Done [Wire wire]))
     else ebind (select_cell (te_now te) (request_finish (te_now te) s)) (\<lambda>(s, (command, sid, data)).
            ebind (Crypto_outgoing cr (te_rnd te) (se_crypto s) command sid data) (\<lambda>(k, wire).
            if \<not> te_written te then Inl SeWrite
            else (case next_deadline (se_deadline s) (te_after te) (interval (te_sample te) (se_profile s)) of
              None \<Rightarrow> Inl (Invalid ''zero interval'')
            | Some next \<Rightarrow>
                if se_cells s + 1 \<ge> 2 ^ 64 then Inl (Invalid ''Cell count exhausted'')
                else Inr (Running (retire (te_gone te)
                       (s\<lparr>se_crypto := k, se_deadline := next, se_cells := se_cells s + 1\<rparr>)) [Wire wire])))))"

section \<open>Requests and events\<close>

definition on_open :: "nat \<Rightarrow> bytes \<Rightarrow> u16 \<Rightarrow> session \<Rightarrow> sess_error + progress" where
  "on_open now host port s =
    (if length (se_streams s) \<ge> MAX_STREAMS \<or> se_last_id s \<ge> MAX_IDS
     then Inr (Running s [ReplyErr ''Session stream budget exhausted''])
     else if port = 0 \<or> host = [] then Inr (Running s [ReplyErr ''Empty target or zero port''])
     else case encode_relay_target host port of
       Inl _ \<Rightarrow> Inr (Running s [ReplyErr ''target''])
     | Inr target \<Rightarrow>
         let sid = se_last_id s + 1;
             st = attach\<lparr>st_ready := False, st_reply := True, st_application := True\<rparr>;
             s = put_stream sid st (s\<lparr>se_last_id := sid\<rparr>);
             s = push_control (SessionOpen, sid, target) s
         in Inr (Running (s\<lparr>se_activity := now\<rparr>) []))"

definition on_event :: "Event \<Rightarrow> session \<Rightarrow> sess_error + progress" where
  "on_event ev s =
    (case ev of
       Written sid count \<Rightarrow>
         (case map_of (se_streams s) sid of
            None \<Rightarrow> Inr (Running s [])
          | Some st \<Rightarrow>
              if count \<noteq> st_written st + 1 \<or> count > st_received st
              then Inl (Invalid ''Invalid write acknowledgement'')
              else Inr (Running (put_stream sid (st\<lparr>st_written := count, st_ack := Some count\<rparr>) s) []))
     | Connected sid ok \<Rightarrow>
         if se_client s then Inl (Invalid ''Unexpected connect completion'')
         else
           let s = s\<lparr>se_connect_tasks := se_connect_tasks s - {sid}\<rparr> in
           if sid \<notin> se_connecting s then Inr (Running s [])
           else
             let s = s\<lparr>se_connecting := se_connecting s - {sid}\<rparr> in
             if ok then Inr (Running (push_control (SessionOpened, sid, []) (put_stream sid attach s)) [])
             else Inr (Running (push_control (SessionRefused, sid, [1]) s) [])
     | Failed sid \<Rightarrow>
         (case map_of (se_streams s) sid of
            None \<Rightarrow> Inr (Running s [])
          | Some _ \<Rightarrow> Inr (Running (push_control (SessionReset, sid, []) (drop_stream sid s)) [])))"

section \<open>Received frames\<close>

text \<open>Each match arm with its guard; \<open>None\<close> sends the cell to the last arm.\<close>

definition closed_ignored :: "CellCommand \<Rightarrow> bool" where
  "closed_ignored c \<longleftrightarrow> c \<in> {Data, DataAck, End, SessionOpened, SessionRefused}"

definition on_session_open :: "nat \<Rightarrow> u16 \<Rightarrow> bytes \<Rightarrow> session \<Rightarrow> sess_error + progress" where
  "on_session_open now sid data s =
    (let s = s\<lparr>se_last_id := sid\<rparr> in
     if length (se_streams s) + card (se_connecting s) \<ge> MAX_STREAMS
     then Inr (Running (push_control (SessionRefused, sid, [1]) s) [])
     else case decode_relay_target data of
       Inl e \<Rightarrow> Inl (SeCircuit e)
     | Inr (host, port) \<Rightarrow>
         if host = [] \<or> port = 0 then Inl (Invalid ''Noncanonical session destination'')
         else (case encode_relay_target host port of
           Inl e \<Rightarrow> Inl (SeCircuit e)
         | Inr canonical \<Rightarrow>
             if canonical \<noteq> data then Inl (Invalid ''Noncanonical session destination'')
             else Inr (Running (s\<lparr>se_connecting := insert sid (se_connecting s),
                                  se_activity := now,
                                  se_connect_tasks := insert sid (se_connect_tasks s)\<rparr>) [])))"

definition on_session_opened :: "bool \<Rightarrow> u16 \<Rightarrow> session \<Rightarrow> sess_error + progress" where
  "on_session_opened reply_ok sid s =
    (case map_of (se_streams s) sid of
       None \<Rightarrow> Inl (Invalid ''Unknown opened stream'')
     | Some st \<Rightarrow>
         if st_ready st then Inl (Invalid ''Duplicate stream open acknowledgement'')
         else if \<not> st_reply st then Inl (Invalid ''Missing stream reply'')
         else if \<not> st_application st then Inl (Invalid ''Missing application stream'')
         else
           let s = put_stream sid (st\<lparr>st_ready := True, st_reply := False, st_application := False\<rparr>) s in
           if reply_ok then Inr (Running s [ReplyOk sid])
           else Inr (Running (push_control (SessionReset, sid, []) (drop_stream sid s)) []))"

definition on_session_refused :: "u16 \<Rightarrow> session \<Rightarrow> sess_error + progress" where
  "on_session_refused sid s =
    (case map_of (se_streams s) sid of
       None \<Rightarrow> Inl (Invalid ''Unknown refused stream'')
     | Some st \<Rightarrow>
         if st_ready st then Inl (Invalid ''Refusal after stream accepted'')
         else Inr (Running (drop_stream sid s)
                (if st_reply st then [ReplyErr ''Exit refused destination''] else [])))"

definition on_data :: "nat \<Rightarrow> u16 \<Rightarrow> bytes \<Rightarrow> session \<Rightarrow> sess_error + progress" where
  "on_data now sid data s =
    (case map_of (se_streams s) sid of
       None \<Rightarrow> Inl (Invalid ''Data for unknown stream'')
     | Some st \<Rightarrow>
         if \<not> st_ready st \<or> st_received_end st \<or> data = [] \<or> st_received st - st_written st \<ge> WINDOW_CELLS
         then Inl (Invalid ''Stream receive credit violation'')
         else (case checked_add (st_received st) 1 of
           None \<Rightarrow> Inl (Invalid ''Receive count exhausted'')
         | Some n \<Rightarrow>
             (case try_send (Some data) (st\<lparr>st_received := n\<rparr>) of
                None \<Rightarrow> Inl (Invalid ''Stream receive queue exhausted'')
              | Some st' \<Rightarrow> Inr (Running ((put_stream sid st' s)\<lparr>se_activity := now\<rparr>) []))))"

definition on_data_ack :: "u16 \<Rightarrow> bytes \<Rightarrow> session \<Rightarrow> sess_error + progress" where
  "on_data_ack sid data s =
    (case map_of (se_streams s) sid of
       None \<Rightarrow> Inl (Invalid ''Ack for unknown stream'')
     | Some st \<Rightarrow>
         if \<not> st_ready st then Inl (Invalid ''Ack before stream opened'')
         else (case acknowledge (st_window st) data of
           Inl e \<Rightarrow> Inl (SeFlow e)
         | Inr w \<Rightarrow> Inr (Running (put_stream sid (st\<lparr>st_window := w\<rparr>) s) [])))"

definition on_end :: "nat \<Rightarrow> u16 \<Rightarrow> session \<Rightarrow> sess_error + progress" where
  "on_end now sid s =
    (case map_of (se_streams s) sid of
       None \<Rightarrow> Inl (Invalid ''End for unknown stream'')
     | Some st \<Rightarrow>
         if \<not> st_ready st \<or> st_received_end st
         then Inl (Invalid ''Duplicate/premature stream end'')
         else (case try_send None (st\<lparr>st_received_end := True\<rparr>) of
           None \<Rightarrow> Inl (Invalid ''End receive queue exhausted'')
         | Some st' \<Rightarrow> Inr (Running ((put_stream sid st' s)\<lparr>se_activity := now\<rparr>) [])))"

definition on_reset :: "u16 \<Rightarrow> session \<Rightarrow> session" where
  "on_reset sid s =
    (drop_stream sid s)\<lparr>se_connecting := se_connecting s - {sid},
                        se_connect_tasks := se_connect_tasks s - {sid}\<rparr>"

text \<open>The match on the command of an authenticated cell.\<close>

definition on_cell :: "nat \<Rightarrow> bool \<Rightarrow> CellCommand \<Rightarrow> u16 \<Rightarrow> bytes \<Rightarrow> session \<Rightarrow> sess_error + progress" where
  "on_cell now reply_ok command sid data s =
    (if sid \<in> se_closed s \<and> closed_ignored command then Inr (Running s [])
     else if command = Dummy \<and> sid = 0 \<and> data = [] then Inr (Running s [])
     else if command = SessionOpen \<and> \<not> se_client s \<and> \<not> se_peer_finish s \<and> sid > se_last_id s \<and> sid \<le> MAX_IDS
     then on_session_open now sid data s
     else if command = SessionOpened \<and> se_client s \<and> data = [] then on_session_opened reply_ok sid s
     else if command = SessionRefused \<and> se_client s \<and> data = [1] then on_session_refused sid s
     else if command = Data then on_data now sid data s
     else if command = DataAck then on_data_ack sid data s
     else if command = End \<and> data = [] then on_end now sid s
     else if command = SessionReset \<and> sid > 0 \<and> sid \<le> se_last_id s \<and> data = []
     then Inr (Running (on_reset sid s) [])
     else if command = SessionFinish \<and> \<not> se_client s \<and> sid = 0 \<and> data = [] \<and> se_streams s = [] \<and>
       se_connecting s = {} \<and> \<not> se_peer_finish s
     then Inr (Running (s\<lparr>se_peer_finish := True\<rparr>) [])
     else if command = SessionFinished \<and> se_client s \<and> se_finishing s \<and> sid = 0 \<and> data = []
     then Inr (Done [])
     else Inl (Invalid ''Invalid session command or state''))"

definition on_frame :: "crypto \<Rightarrow> nat \<Rightarrow> bool \<Rightarrow> bytes \<Rightarrow> session \<Rightarrow> sess_error + progress" where
  "on_frame cr now reply_ok wire s =
    (let budget = min (se_receive_budget s + (now - se_receive_time s)) BUDGET_MAX;
         s = s\<lparr>se_receive_budget := budget, se_receive_time := now\<rparr>
     in if budget < BUDGET_CELL then Inl (Invalid ''Session receive rate budget exhausted'')
        else
          let s = s\<lparr>se_receive_budget := budget - BUDGET_CELL\<rparr> in
          ebind (Crypto_incoming cr (se_crypto s) wire) (\<lambda>(k, cell).
            on_cell now reply_ok (cell_command cell) (cell_stream_id cell)
              (take (unat (cell_length cell)) (cell_payload cell)) (s\<lparr>se_crypto := k\<rparr>)))"

section \<open>One turn of the loop\<close>

datatype turn =
    Tick tick_env
  | OpenRequest nat bytes u16
  | OwnerClosed
  | WorkerEvent
  | Frame nat bool bytes
  | LinkClosed
  | WorkerPanic

text \<open>
  The checks at the head of the loop, at time \<open>t0\<close>, then the selected branch. A branch whose
  channel has nothing to offer is not selected: \<open>WorkerEvent\<close> without a queued event and an
  open request while finishing leave the loop waiting.
\<close>

definition session_turn :: "crypto \<Rightarrow> nat \<Rightarrow> turn \<Rightarrow> session \<Rightarrow> sess_error + progress" where
  "session_turn cr t0 t s =
    (if t0 - se_start s \<ge> LIFETIME then Inl (Invalid ''Session lifetime expired; no replay'')
     else if length (se_controls s) > MAX_CONTROLS then Inl (Invalid ''Session control budget exhausted'')
     else case t of
       Tick te \<Rightarrow> on_tick cr te s
     | OpenRequest now host port \<Rightarrow>
         if se_client s \<and> \<not> se_finishing s then on_open now host port s else Inr (Running s [])
     | OwnerClosed \<Rightarrow>
         if se_client s \<and> \<not> se_finishing s then Inl (Invalid ''Session owner closed'') else Inr (Running s [])
     | WorkerEvent \<Rightarrow>
         (case se_events s of [] \<Rightarrow> Inr (Running s []) | ev # evs \<Rightarrow> on_event ev (s\<lparr>se_events := evs\<rparr>))
     | Frame now reply_ok wire \<Rightarrow> on_frame cr now reply_ok wire s
     | LinkClosed \<Rightarrow> Inl (Invalid ''Padded session truncated'')
     | WorkerPanic \<Rightarrow> Inl (Invalid ''Session worker panicked''))"

section \<open>Worker tasks\<close>

definition push_event :: "Event \<Rightarrow> session \<Rightarrow> session" where
  "push_event ev s = s\<lparr>se_events := se_events s @ [ev]\<rparr>"

text \<open>
  One item of the writer task: it takes the head of its channel; \<open>ok\<close> is whether the socket
  accepted the bytes (or the shutdown) in time.
\<close>

definition writer_step :: "u16 \<Rightarrow> bool \<Rightarrow> session \<Rightarrow> session" where
  "writer_step sid ok s =
    (case map_of (se_streams s) sid of
       None \<Rightarrow> s
     | Some st \<Rightarrow>
         if \<not> st_writer st then s
         else (case st_incoming st of
             [] \<Rightarrow> s
           | Some data # q \<Rightarrow>
               (case (if ok then checked_add (st_count st) 1 else None) of
                  Some n \<Rightarrow> push_event (Written sid n)
                              (put_stream sid (st\<lparr>st_incoming := q, st_count := n\<rparr>) s)
                | None \<Rightarrow> push_event (Failed sid)
                              (put_stream sid (st\<lparr>st_incoming := q, st_writer := False\<rparr>) s))
           | None # q \<Rightarrow>
               let s = put_stream sid (st\<lparr>st_incoming := q, st_writer := False\<rparr>) s
               in if ok then s else push_event (Failed sid) s))"

text \<open>
  One item of the reader task: a chunk of the socket goes to the queue (when it has room), the
  end of the socket closes the queue, an error also reports the failure.
\<close>

datatype read_result = ReadChunk bytes | ReadEof | ReadError

definition reader_step :: "u16 \<Rightarrow> read_result \<Rightarrow> session \<Rightarrow> session" where
  "reader_step sid r s =
    (case map_of (se_streams s) sid of
       None \<Rightarrow> s
     | Some st \<Rightarrow>
         let og = st_outgoing st in
         if \<not> og_open og then s
         else (case r of
             ReadChunk data \<Rightarrow>
               if data = [] \<or> length data > PAYLOAD_SIZE \<or> length (og_queue og) \<ge> QUEUE then s
               else put_stream sid (st\<lparr>st_outgoing := og\<lparr>og_queue := og_queue og @ [data]\<rparr>\<rparr>) s
           | ReadEof \<Rightarrow> put_stream sid (st\<lparr>st_outgoing := og\<lparr>og_open := False\<rparr>\<rparr>) s
           | ReadError \<Rightarrow> push_event (Failed sid)
               (put_stream sid (st\<lparr>st_outgoing := og\<lparr>og_open := False\<rparr>\<rparr>) s)))"

text \<open>A connect task of the exit completes and reports; an aborted one does not.\<close>

definition connect_step :: "u16 \<Rightarrow> bool \<Rightarrow> session \<Rightarrow> session" where
  "connect_step sid ok s =
    (if sid \<in> se_connect_tasks s then push_event (Connected sid ok) s else s)"

text \<open>
  The reachable states, with the turns taken so far: turns that keep the loop running,
  interleaved with steps of the tasks.
\<close>

inductive session_run :: "crypto \<Rightarrow> session \<Rightarrow> turn list \<Rightarrow> session \<Rightarrow> bool" for cr s0 where
  run_start: "session_run cr s0 [] s0"
| run_turn: "session_run cr s0 ts s \<Longrightarrow> session_turn cr t0 t s = Inr (Running s' out) \<Longrightarrow>
    session_run cr s0 (ts @ [t]) s'"
| run_writer: "session_run cr s0 ts s \<Longrightarrow> session_run cr s0 ts (writer_step sid ok s)"
| run_reader: "session_run cr s0 ts s \<Longrightarrow> session_run cr s0 ts (reader_step sid r s)"
| run_connect: "session_run cr s0 ts s \<Longrightarrow> session_run cr s0 ts (connect_step sid ok s)"

end
