(* ===== verification/SessionInv.thy ===== *)
theory SessionInv
  imports Session OnionPath
begin

text \<open>
  The invariant of a padded session and its preservation by every branch of the loop and every
  worker task: stream and identifier budgets, the disjointness of live, connecting and closed
  identifiers, credit in both directions, and the accounting that ties the counters of a stream
  to the contents of its queues and to the events still in flight.
\<close>

section \<open>The invariant of a stream\<close>

definition ndata :: "bytes option list \<Rightarrow> nat" where
  "ndata q = length (filter (\<lambda>x. x \<noteq> None) q)"

definition nends :: "bytes option list \<Rightarrow> nat" where
  "nends q = length (filter (\<lambda>x. x = None) q)"

lemma ndata_simps [simp]:
  "ndata [] = 0" "ndata (Some d # q) = Suc (ndata q)" "ndata (None # q) = ndata q"
  "ndata (q @ r) = ndata q + ndata r"
  by (simp_all add: ndata_def)

lemma nends_simps [simp]:
  "nends [] = 0" "nends (Some d # q) = nends q" "nends (None # q) = Suc (nends q)"
  "nends (q @ r) = nends q + nends r"
  by (simp_all add: nends_def)

lemma length_queue: "length q = ndata q + nends q"
  by (induction q) (auto simp: ndata_def nends_def)

text \<open>The write counts reported for a stream and not yet seen by the loop, in order.\<close>

definition pend :: "u16 \<Rightarrow> Event list \<Rightarrow> nat list" where
  "pend sid evs = concat (map (\<lambda>e. case e of Written i c \<Rightarrow> (if i = sid then [unat c] else []) | _ \<Rightarrow> []) evs)"

lemma pend_simps [simp]:
  "pend sid [] = []"
  "pend sid (Written i c # evs) = (if i = sid then unat c # pend sid evs else pend sid evs)"
  "pend sid (Connected i ok # evs) = pend sid evs"
  "pend sid (Failed i # evs) = pend sid evs"
  "pend sid (evs @ evs') = pend sid evs @ pend sid evs'"
  by (simp_all add: pend_def)

definition stream_ok :: "bool \<Rightarrow> nat list \<Rightarrow> Stream \<Rightarrow> bool" where
  "stream_ok client pending st \<longleftrightarrow>
     sw_inv (st_window st) \<and>
     unat (st_written st) \<le> unat (st_count st) \<and>
     unat (st_count st) + ndata (st_incoming st) \<le> unat (st_received st) \<and>
     (st_writer st \<longrightarrow> unat (st_count st) + ndata (st_incoming st) = unat (st_received st)) \<and>
     unat (st_received st) - unat (st_written st) \<le> 32 \<and>
     nends (st_incoming st) \<le> (if st_received_end st then 1 else 0) \<and>
     pending = [Suc (unat (st_written st)) ..< Suc (unat (st_count st))] \<and>
     (\<not> st_ready st \<longrightarrow> client \<and> st_reply st \<and> st_application st)"

lemma stream_ok_attach: "stream_ok client [] attach"
  by (simp add: stream_ok_def attach_def sw_inv_default)

lemma stream_ok_attach_client:
  "stream_ok True [] (attach\<lparr>st_ready := False, st_reply := True, st_application := True\<rparr>)"
  by (simp add: stream_ok_def attach_def sw_inv_default)

section \<open>The invariant of a session\<close>

definition event_ok :: "bool \<Rightarrow> u16 \<Rightarrow> u16 set \<Rightarrow> Event \<Rightarrow> bool" where
  "event_ok client last_id connecting ev \<longleftrightarrow>
     (case ev of Written sid c \<Rightarrow> sid \<le> last_id \<and> sid \<notin> connecting
      | Connected sid ok \<Rightarrow> \<not> client | Failed sid \<Rightarrow> True)"

definition live_ok :: "session \<Rightarrow> bool" where
  "live_ok s \<longleftrightarrow>
     (\<forall>sid st. map_of (se_streams s) sid = Some st \<longrightarrow>
        stream_ok (se_client s) (pend sid (se_events s)) st \<and> 0 < sid \<and> sid \<le> se_last_id s \<and>
        sid \<notin> se_closed s \<and> sid \<notin> se_connecting s)"

definition ids_ok :: "session \<Rightarrow> bool" where
  "ids_ok s \<longleftrightarrow>
     (\<forall>sid \<in> se_connecting s. 0 < sid \<and> sid \<le> se_last_id s \<and> sid \<notin> se_closed s) \<and>
     (\<forall>sid \<in> se_closed s. 0 < sid \<and> sid \<le> se_last_id s) \<and>
     se_connect_tasks s = se_connecting s \<and> (se_client s \<longrightarrow> se_connecting s = {}) \<and>
     se_last_id s \<le> MAX_IDS"

definition events_ok :: "session \<Rightarrow> bool" where
  "events_ok s \<longleftrightarrow>
     (\<forall>ev \<in> set (se_events s). event_ok (se_client s) (se_last_id s) (se_connecting s) ev)"

definition session_inv :: "session \<Rightarrow> bool" where
  "session_inv s \<longleftrightarrow> bt_wf (se_streams s) \<and> live_ok s \<and> ids_ok s \<and> events_ok s \<and>
     length (se_streams s) + card (se_connecting s) \<le> MAX_STREAMS"

lemmas session_inv_defs = session_inv_def live_ok_def ids_ok_def events_ok_def

lemma session_inv_start: "session_inv (session_start client k p sample now)"
  by (simp add: session_inv_defs session_start_def)

lemma session_inv_irrelevant [simp]:
  "session_inv (s\<lparr>se_crypto := k\<rparr>) = session_inv s"
  "session_inv (s\<lparr>se_receive_budget := b\<rparr>) = session_inv s"
  "session_inv (s\<lparr>se_receive_time := b\<rparr>) = session_inv s"
  "session_inv (s\<lparr>se_controls := c\<rparr>) = session_inv s"
  "session_inv (s\<lparr>se_cursor := i\<rparr>) = session_inv s"
  "session_inv (s\<lparr>se_cells := n\<rparr>) = session_inv s"
  "session_inv (s\<lparr>se_activity := n\<rparr>) = session_inv s"
  "session_inv (s\<lparr>se_finishing := f\<rparr>) = session_inv s"
  "session_inv (s\<lparr>se_peer_finish := f\<rparr>) = session_inv s"
  "session_inv (s\<lparr>se_prefer_control := f\<rparr>) = session_inv s"
  "session_inv (s\<lparr>se_deadline := n\<rparr>) = session_inv s"
  by (simp_all add: session_inv_defs)

lemma session_inv_push_control [simp]: "session_inv (push_control c s) = session_inv s"
  by (simp add: push_control_def)

lemma session_inv_stream:
  assumes "session_inv s" and "map_of (se_streams s) sid = Some st"
  shows "stream_ok (se_client s) (pend sid (se_events s)) st" "0 < sid" "sid \<le> se_last_id s"
    "sid \<notin> se_closed s" "sid \<notin> se_connecting s" "bt_wf (se_streams s)"
  using assms by (simp_all add: session_inv_def live_ok_def)

text \<open>Replacing a live stream.\<close>

lemma session_inv_put:
  assumes inv: "session_inv s" and old: "map_of (se_streams s) sid = Some st"
    and ok: "stream_ok (se_client s) (pend sid (se_events s)) st'"
  shows "session_inv (put_stream sid st' s)"
proof -
  note wf = session_inv_stream(6) [OF inv old]
  show ?thesis
    using inv old ok bt.size_ins_old [OF wf old]
    by (simp add: session_inv_defs put_stream_def bt.wf_ins [OF wf] bt.get_ins [OF wf])
qed

text \<open>Ending a stream.\<close>

lemma session_inv_drop:
  assumes inv: "session_inv s" and sid: "0 < sid" "sid \<le> se_last_id s" "sid \<notin> se_connecting s"
  shows "session_inv (drop_stream sid s)"
proof -
  have wf: "bt_wf (se_streams s)" using inv by (simp add: session_inv_def)
  show ?thesis
    using inv sid bt.size_del_le [OF wf, of sid]
    by (simp add: session_inv_defs drop_stream_def bt.wf_del [OF wf] bt.get_del [OF wf]) blast
qed

lemma session_inv_drop_live:
  "session_inv s \<Longrightarrow> map_of (se_streams s) sid = Some st \<Longrightarrow> session_inv (drop_stream sid s)"
  using session_inv_stream session_inv_drop by blast

lemma event_ok_less: "event_ok client l c ev \<Longrightarrow> event_ok client l (c - {sid}) ev"
  by (auto simp: event_ok_def split: Event.splits)

lemma session_inv_disconnect:
  assumes "session_inv s"
  shows "session_inv (s\<lparr>se_connecting := se_connecting s - {sid}, se_connect_tasks := se_connect_tasks s - {sid}\<rparr>)"
proof -
  have "card (se_connecting s - {sid}) \<le> card (se_connecting s)" by (rule card_mono) auto
  with assms show ?thesis by (simp add: session_inv_defs event_ok_less)
qed

lemma session_inv_reset:
  assumes inv: "session_inv s" and sid: "0 < sid" "sid \<le> se_last_id s"
  shows "session_inv (on_reset sid s)"
proof -
  have "session_inv (drop_stream sid (s\<lparr>se_connecting := se_connecting s - {sid},
      se_connect_tasks := se_connect_tasks s - {sid}\<rparr>))"
    by (rule session_inv_drop [OF session_inv_disconnect [OF inv]]) (use sid in auto)
  moreover have "on_reset sid s = drop_stream sid (s\<lparr>se_connecting := se_connecting s - {sid},
      se_connect_tasks := se_connect_tasks s - {sid}\<rparr>)"
    by (simp add: on_reset_def drop_stream_def)
  ultimately show ?thesis by simp
qed

section \<open>The clock branch\<close>

text \<open>One stream of the map is replaced by one that keeps whatever accounting the old one kept.\<close>

definition touched :: "(u16 \<times> Stream) list \<Rightarrow> (u16 \<times> Stream) list \<Rightarrow> bool" where
  "touched ss ss' \<longleftrightarrow> ss' = ss \<or>
     (\<exists>sid st st'. map_of ss sid = Some st \<and> ss' = bt_insert sid st' ss \<and>
        (\<forall>client pending. stream_ok client pending st \<longrightarrow> stream_ok client pending st'))"

lemma touchedI:
  "map_of ss sid = Some st \<Longrightarrow> (\<And>client pending. stream_ok client pending st \<Longrightarrow> stream_ok client pending st') \<Longrightarrow>
   touched ss (bt_insert sid st' ss)"
  unfolding touched_def by blast

lemma touched_refl: "touched ss ss"
  by (simp add: touched_def)

lemma stream_ok_sending:
  "stream_ok client pending st \<Longrightarrow> stream_ok client pending (st\<lparr>st_ack := None\<rparr>)"
  "stream_ok client pending st \<Longrightarrow> stream_ok client pending (st\<lparr>st_sent_end := True\<rparr>)"
  "sent (st_window st) = Inr w \<Longrightarrow> stream_ok client pending st \<Longrightarrow>
     stream_ok client pending (st\<lparr>st_outgoing := og, st_window := w\<rparr>)"
  using sent_Inr(3) by (auto simp: stream_ok_def)

lemma touched_sending:
  assumes "map_of ss sid = Some st"
  shows "touched ss (bt_insert sid (st\<lparr>st_ack := None\<rparr>) ss)"
    "touched ss (bt_insert sid (st\<lparr>st_sent_end := True\<rparr>) ss)"
    "sent (st_window st) = Inr w \<Longrightarrow> touched ss (bt_insert sid (st\<lparr>st_outgoing := og, st_window := w\<rparr>) ss)"
  by (auto intro: touchedI [OF assms] stream_ok_sending)

lemma select_stream_touched: "select_stream ids ss = Inr (ss', sel) \<Longrightarrow> touched ss ss'"
proof (induction ids ss rule: select_stream.induct)
  case (2 sid ids ss)
  then show ?case
    by (auto split: if_splits option.splits sum.splits try_recv_error.splits
        intro: touched_sending)
qed (simp add: touched_refl)

lemma pop_control_inv: "pop_control s = (s', c) \<Longrightarrow> session_inv s' = session_inv s"
  by (auto simp: pop_control_def split: list.splits)

lemma session_inv_select:
  assumes inv: "session_inv s" and sel: "select_stream ids (se_streams s) = Inr (ss, c)"
  shows "session_inv (s\<lparr>se_streams := ss\<rparr>)"
proof (cases "ss = se_streams s")
  case True
  with inv show ?thesis by simp
next
  case False
  with select_stream_touched [OF sel] obtain sid st st' where
    old: "map_of (se_streams s) sid = Some st" and ss: "ss = bt_insert sid st' (se_streams s)"
    and keep: "\<And>client pending. stream_ok client pending st \<Longrightarrow> stream_ok client pending st'"
    by (auto simp: touched_def)
  show ?thesis
    using session_inv_put [OF inv old keep [OF session_inv_stream(1) [OF inv old]]]
    by (simp add: put_stream_def ss)
qed

lemma first_control_inv: "first_control s = (s', c) \<Longrightarrow> session_inv s' = session_inv s"
  by (auto simp: first_control_def Let_def dest: pop_control_inv split: if_splits)

lemma stream_or_control_Inr:
  assumes "stream_or_control now s = Inr (s', c)"
  obtains ids ss sel where "select_stream ids (se_streams s) = Inr (ss, sel)"
    "(\<exists>cu. s' = s\<lparr>se_streams := ss, se_cursor := cu\<rparr>) \<or> (\<exists>o'. pop_control (s\<lparr>se_streams := ss\<rparr>) = (s', o'))"
proof -
  from assms obtain ss sel where ss: "(if now - se_start s \<ge> secs 1
      then select_stream (round_robin s) (se_streams s) else Inr (se_streams s, None)) = Inr (ss, sel)"
    and s': "(\<exists>cu. s' = s\<lparr>se_streams := ss, se_cursor := cu\<rparr>) \<or> (\<exists>o'. pop_control (s\<lparr>se_streams := ss\<rparr>) = (s', o'))"
    by (fastforce simp: stream_or_control_def ebind_eq_Inr split: option.splits prod.splits)
  from ss obtain ids where "select_stream ids (se_streams s) = Inr (ss, sel)"
    by (cases "now - se_start s \<ge> secs 1") (auto intro: that [of "[]"])
  from that [OF this s'] show ?thesis .
qed

lemma stream_or_control_inv:
  assumes inv: "session_inv s" and c: "stream_or_control now s = Inr (s', c)"
  shows "session_inv s'"
  using c
proof (rule stream_or_control_Inr)
  fix ids ss sel
  assume "select_stream ids (se_streams s) = Inr (ss, sel)"
  from session_inv_select [OF inv this] have i: "session_inv (s\<lparr>se_streams := ss\<rparr>)" .
  moreover have "session_inv (s\<lparr>se_streams := ss, se_cursor := cu\<rparr>)" for cu using i by simp
  moreover assume "(\<exists>cu. s' = s\<lparr>se_streams := ss, se_cursor := cu\<rparr>) \<or> (\<exists>o'. pop_control (s\<lparr>se_streams := ss\<rparr>) = (s', o'))"
  ultimately show ?thesis by (auto dest: pop_control_inv)
qed

lemma select_cell_inv:
  "session_inv s \<Longrightarrow> select_cell now s = Inr (s', c) \<Longrightarrow> session_inv s'"
  by (auto simp: select_cell_def dest: first_control_inv stream_or_control_inv split: prod.splits option.splits)

lemma drop_stream_sel [simp]:
  "se_last_id (drop_stream sid s) = se_last_id s" "se_connecting (drop_stream sid s) = se_connecting s"
  by (simp_all add: drop_stream_def)

lemma push_control_sel [simp]:
  "se_last_id (push_control c s) = se_last_id s" "se_connecting (push_control c s) = se_connecting s"
  "se_streams (push_control c s) = se_streams s" "se_client (push_control c s) = se_client s"
  "se_events (push_control c s) = se_events s"
  by (simp_all add: push_control_def)

definition droppable :: "session \<Rightarrow> u16 list \<Rightarrow> bool" where
  "droppable s ids \<longleftrightarrow> (\<forall>sid \<in> set ids. 0 < sid \<and> sid \<le> se_last_id s \<and> sid \<notin> se_connecting s)"

lemma droppable_Cons:
  "session_inv s \<Longrightarrow> droppable s (sid # ids) \<Longrightarrow> session_inv (drop_stream sid s) \<and> droppable (drop_stream sid s) ids"
  by (simp add: droppable_def session_inv_drop)

lemma droppable_push [simp]: "droppable (push_control c s) ids = droppable s ids"
  by (simp add: droppable_def)

lemma fold_drop_inv:
  "session_inv s \<Longrightarrow> droppable s ids \<Longrightarrow> session_inv (fold drop_stream ids s)"
proof (induction ids arbitrary: s)
  case (Cons sid ids)
  with droppable_Cons [OF Cons.prems] show ?case by simp
qed simp

lemma fold_cancel_inv:
  "session_inv s \<Longrightarrow> droppable s ids \<Longrightarrow>
   session_inv (fold (\<lambda>sid s. push_control (SessionReset, sid, []) (drop_stream sid s)) ids s)"
proof (induction ids arbitrary: s)
  case (Cons sid ids)
  with droppable_Cons [OF Cons.prems] show ?case by simp
qed simp

lemma droppable_live:
  assumes "session_inv s"
  shows "droppable s (map fst (filter P (se_streams s)))"
proof -
  have "map_of (se_streams s) sid \<noteq> None" if "sid \<in> fst ` set (filter P (se_streams s))" for sid
  proof -
    have "sid \<in> fst ` set (se_streams s)" using that by auto
    then show ?thesis by (simp add: map_of_eq_None_iff)
  qed
  with assms show ?thesis by (fastforce simp: droppable_def dest: session_inv_stream)
qed

lemma retire_inv: "session_inv s \<Longrightarrow> session_inv (retire gone s)"
  by (simp add: retire_def Let_def fold_drop_inv fold_cancel_inv droppable_live)

lemma on_tick_Running:
  assumes "on_tick cr te s = Inr (Running s' out)"
  obtains s2 command sid data k wire nxt where
    "select_cell (te_now te) (request_finish (te_now te) s) = Inr (s2, command, sid, data)"
    "Crypto_outgoing cr (te_rnd te) (se_crypto s2) command sid data = Inr (k, wire)"
    "s' = retire (te_gone te) (s2\<lparr>se_crypto := k, se_deadline := nxt, se_cells := se_cells s2 + 1\<rparr>)"
    "out = [Wire wire]"
  using assms by (auto simp: on_tick_def ebind_eq_Inr split: if_splits option.splits)

lemma on_tick_inv:
  assumes inv: "session_inv s" and tick: "on_tick cr te s = Inr (Running s' out)"
  shows "session_inv s'"
proof -
  have "session_inv (request_finish (te_now te) s)" using inv by (simp add: request_finish_def)
  from select_cell_inv [OF this] show ?thesis
    using tick by (auto elim!: on_tick_Running simp: retire_inv)
qed

section \<open>Requests and events\<close>

lemma session_inv_new_stream:
  assumes inv: "session_inv s" and new: "map_of (se_streams s) sid = None" "sid \<notin> se_connecting s"
    "sid \<notin> se_closed s" "0 < sid" "sid \<le> se_last_id s"
    and room: "length (se_streams s) + card (se_connecting s) < MAX_STREAMS"
    and ok: "stream_ok (se_client s) (pend sid (se_events s)) st"
  shows "session_inv (put_stream sid st s)"
proof -
  have wf: "bt_wf (se_streams s)" using inv by (simp add: session_inv_def)
  show ?thesis
    using inv new room ok bt.size_ins_new [OF wf new(1)]
    by (simp add: session_inv_defs put_stream_def bt.wf_ins [OF wf] bt.get_ins [OF wf])
qed

lemma pend_empty: "(\<And>c. Written sid c \<notin> set evs) \<Longrightarrow> pend sid evs = []"
  by (induction evs) (auto simp: pend_def split: Event.splits)

lemma pend_unknown:
  assumes "session_inv s" and "se_last_id s < sid \<or> sid \<in> se_connecting s"
  shows "pend sid (se_events s) = []"
  using assms by (intro pend_empty) (force simp: session_inv_def events_ok_def event_ok_def)

lemma session_inv_next_id:
  assumes inv: "session_inv s" and sid: "se_last_id s < sid" "sid \<le> MAX_IDS"
  shows "session_inv (s\<lparr>se_last_id := sid\<rparr>)"
  using inv sid
  by (fastforce simp: session_inv_defs event_ok_def split: Event.splits)

lemma next_id_less: "\<not> MAX_IDS \<le> i \<Longrightarrow> i < i + 1 \<and> 0 < i + 1 \<and> i + 1 \<le> MAX_IDS"
  by (auto simp: MAX_IDS_def word_less_nat_alt word_le_nat_alt unat_word_ariths)

lemma fresh_id:
  assumes "session_inv s" and "se_last_id s < sid"
  shows "map_of (se_streams s) sid = None" "sid \<notin> se_connecting s" "sid \<notin> se_closed s"
proof -
  show "map_of (se_streams s) sid = None"
    using assms(2) session_inv_stream(3) [OF assms(1), of sid] by (cases "map_of (se_streams s) sid") auto
  show "sid \<notin> se_connecting s" "sid \<notin> se_closed s"
    using assms by (auto simp: session_inv_def ids_ok_def)
qed

lemma on_open_inv:
  assumes inv: "session_inv s" and c: "se_client s" and o: "on_open now host port s = Inr (Running s' out)"
  shows "session_inv s'"
proof (cases "length (se_streams s) \<ge> MAX_STREAMS \<or> se_last_id s \<ge> MAX_IDS \<or> port = 0 \<or> host = [] \<or>
    \<not> is_ok (encode_relay_target host port)")
  case True
  with o have "s' = s" by (auto simp: on_open_def is_ok_iff split: if_splits sum.splits)
  with inv show ?thesis by simp
next
  case False
  let ?sid = "se_last_id s + 1"
  let ?st = "attach\<lparr>st_ready := False, st_reply := True, st_application := True\<rparr>"
  from False o obtain target where s': "s' = (push_control (SessionOpen, ?sid, target)
      (put_stream ?sid ?st (s\<lparr>se_last_id := ?sid\<rparr>)))\<lparr>se_activity := now\<rparr>"
    by (auto simp: on_open_def is_ok_iff Let_def)
  from False have id: "se_last_id s < ?sid" "0 < ?sid" "?sid \<le> MAX_IDS" using next_id_less by blast+
  have empty: "se_connecting s = {}" using inv c by (simp add: session_inv_def ids_ok_def)
  have "session_inv (put_stream ?sid ?st (s\<lparr>se_last_id := ?sid\<rparr>))"
    by (rule session_inv_new_stream [OF session_inv_next_id [OF inv id(1,3)]])
      (use fresh_id [OF inv id(1)] id False c empty pend_unknown [OF inv] stream_ok_attach_client in auto)
  then show ?thesis by (simp add: s')
qed

text \<open>Taking the head of the event queue changes the pending counts of one stream only.\<close>

lemma events_ok_tail:
  assumes "session_inv s" and "se_events s = ev # evs"
  shows "events_ok (s\<lparr>se_events := evs\<rparr>)" "event_ok (se_client s) (se_last_id s) (se_connecting s) ev"
  using assms by (simp_all add: session_inv_def events_ok_def)

lemma session_inv_pop_other:
  assumes inv: "session_inv s" and evs: "se_events s = ev # evs"
    and other: "\<And>sid c. ev = Written sid c \<Longrightarrow> map_of (se_streams s) sid = None"
  shows "session_inv (s\<lparr>se_events := evs\<rparr>)"
proof -
  have "pend sid (se_events s) = pend sid evs" if "map_of (se_streams s) sid = Some st" for sid st
    using that other by (cases ev) (auto simp: evs)
  with inv events_ok_tail [OF inv evs] show ?thesis by (simp add: session_inv_def live_ok_def ids_ok_def)
qed

lemma stream_ok_written:
  assumes ok: "stream_ok client (unat c # pending) st"
  shows "c = st_written st + 1" "\<not> c > st_received st"
    "stream_ok client pending (st\<lparr>st_written := c, st_ack := Some c\<rparr>)"
proof -
  from ok have up: "unat c # pending = [Suc (unat (st_written st)) ..< Suc (unat (st_count st))]"
    and le: "unat (st_count st) \<le> unat (st_received st)"
    by (auto simp: stream_ok_def)
  then have lt: "unat (st_written st) < unat (st_count st)"
    by (metis list.distinct(1) not_less upt_eq_Nil_conv not_less_eq)
  with up have c: "unat c = Suc (unat (st_written st))"
    and rest: "pending = [Suc (Suc (unat (st_written st))) ..< Suc (unat (st_count st))]"
    by (simp_all add: upt_conv_Cons del: upt_Suc)
  have "unat (st_written st) + 1 < 2 ^ 32"
    using lt unat_u32_less [of "st_count st"] by simp
  then have "unat (st_written st + 1) = Suc (unat (st_written st))"
    by (simp add: unat_word_ariths)
  with c show "c = st_written st + 1" by (intro unsigned_word_eqI [where 'a = nat]) simp
  show "\<not> c > st_received st" using c lt le by (simp add: word_less_nat_alt)
  show "stream_ok client pending (st\<lparr>st_written := c, st_ack := Some c\<rparr>)"
    using ok c lt rest by (auto simp: stream_ok_def)
qed

lemma session_inv_written:
  assumes inv: "session_inv s" and evs: "se_events s = Written sid c # evs"
    and st: "map_of (se_streams s) sid = Some st"
  shows "session_inv (put_stream sid (st\<lparr>st_written := c, st_ack := Some c\<rparr>) (s\<lparr>se_events := evs\<rparr>))"
    "c = st_written st + 1" "\<not> c > st_received st"
proof -
  note wf = session_inv_stream(6) [OF inv st]
  have ok: "stream_ok (se_client s) (unat c # pend sid evs) st"
    using session_inv_stream(1) [OF inv st] by (simp add: evs)
  note w = stream_ok_written [OF ok]
  show "c = st_written st + 1" "\<not> c > st_received st" by (rule w)+
  have "pend i evs = pend i (se_events s)" if "i \<noteq> sid" for i using that by (simp add: evs)
  then show "session_inv (put_stream sid (st\<lparr>st_written := c, st_ack := Some c\<rparr>) (s\<lparr>se_events := evs\<rparr>))"
    using inv events_ok_tail [OF inv evs] st w(3) bt.size_ins_old [OF wf st]
    by (simp add: session_inv_def live_ok_def ids_ok_def events_ok_def put_stream_def bt.wf_ins [OF wf] bt.get_ins [OF wf])
qed

lemma on_event_inv:
  assumes inv: "session_inv s" and evs: "se_events s = ev # evs"
    and e: "on_event ev (s\<lparr>se_events := evs\<rparr>) = Inr (Running s' out)"
  shows "session_inv s'"
proof (cases ev)
  case (Written sid c)
  show ?thesis
  proof (cases "map_of (se_streams s) sid")
    case None
    with e Written session_inv_pop_other [OF inv evs] show ?thesis by (auto simp: on_event_def)
  next
    case (Some st)
    with e Written have "s' = put_stream sid (st\<lparr>st_written := c, st_ack := Some c\<rparr>) (s\<lparr>se_events := evs\<rparr>)"
      by (auto simp: on_event_def split: if_splits)
    with session_inv_written(1) [OF inv evs [unfolded Written] Some] show ?thesis by simp
  qed
next
  case (Connected sid ok)
  then have i1: "session_inv (s\<lparr>se_events := evs\<rparr>)" using session_inv_pop_other [OF inv evs] by simp
  let ?s = "s\<lparr>se_events := evs, se_connecting := se_connecting s - {sid},
      se_connect_tasks := se_connect_tasks s - {sid}\<rparr>"
  show ?thesis
  proof (cases "sid \<in> se_connecting s")
    case False
    then have "se_connect_tasks s - {sid} = se_connect_tasks s"
      using inv by (simp add: session_inv_def ids_ok_def)
    then have "s\<lparr>se_events := evs, se_connect_tasks := se_connect_tasks s - {sid}\<rparr> = s\<lparr>se_events := evs\<rparr>"
      by simp
    with e Connected False i1 show ?thesis by (auto simp: on_event_def Let_def split: if_splits)
  next
    case True
    have i2: "session_inv ?s" using session_inv_disconnect [OF i1, of sid] by simp
    have card: "card (se_connecting s - {sid}) + 1 = card (se_connecting s)"
      using True by (simp add: card_gt_0_iff card_Diff_singleton) (metis One_nat_def Suc_pred card_gt_0_iff empty_iff finite)
    have nostream: "map_of (se_streams s) sid = None"
      using True session_inv_stream(5) [OF inv, of sid] by (cases "map_of (se_streams s) sid") auto
    have "pend sid evs = []" using pend_unknown [OF inv, of sid] True Connected by (simp add: evs)
    moreover have "0 < sid" "sid \<le> se_last_id s" "sid \<notin> se_closed s"
      using inv True by (simp_all add: session_inv_def ids_ok_def)
    ultimately have i3: "session_inv (put_stream sid attach ?s)"
      using inv card nostream stream_ok_attach
      by (intro session_inv_new_stream [OF i2]) (simp_all add: session_inv_def)
    have swap: "s\<lparr>se_events := evs, se_connect_tasks := se_connect_tasks s - {sid},
        se_connecting := se_connecting s - {sid}\<rparr> = ?s" by simp
    from e Connected True have "s' = push_control (SessionOpened, sid, []) (put_stream sid attach ?s) \<or>
        s' = push_control (SessionRefused, sid, [1]) ?s"
      by (auto simp: on_event_def Let_def swap split: if_splits)
    with i2 i3 show ?thesis by auto
  qed
next
  case (Failed sid)
  then have i1: "session_inv (s\<lparr>se_events := evs\<rparr>)" using session_inv_pop_other [OF inv evs] by simp
  with e Failed session_inv_drop_live [OF i1, of sid] show ?thesis
    by (auto simp: on_event_def split: option.splits)
qed

section \<open>Received frames\<close>

lemma on_session_open_inv:
  assumes inv: "session_inv s" and sid: "se_last_id s < sid" "sid \<le> MAX_IDS" and c: "\<not> se_client s"
    and o: "on_session_open now sid data s = Inr (Running s' out)"
  shows "session_inv s'"
proof -
  let ?s = "s\<lparr>se_last_id := sid\<rparr>"
  have i1: "session_inv ?s" by (rule session_inv_next_id [OF inv sid])
  note fresh = fresh_id [OF inv sid(1)]
  have pos: "0 < sid" using sid(1) by (rule le_less_trans [rotated]) simp
  have nopend: "Written sid c' \<notin> set (se_events s)" for c'
    using inv sid(1) by (force simp: session_inv_def events_ok_def event_ok_def)
  have i2: "session_inv (?s\<lparr>se_connecting := insert sid (se_connecting s), se_activity := now,
      se_connect_tasks := insert sid (se_connect_tasks s)\<rparr>)"
    if room: "length (se_streams s) + card (se_connecting s) < MAX_STREAMS"
  proof -
    have "event_ok False sid (insert sid (se_connecting s)) ev" if "ev \<in> set (se_events s)" for ev
      using that i1 nopend c by (fastforce simp: session_inv_def events_ok_def event_ok_def split: Event.splits)
    moreover have "i \<noteq> sid" if "map_of (se_streams s) i = Some st" for i st
      using that fresh(1) by auto
    ultimately show ?thesis
      using i1 room fresh pos c by (simp add: session_inv_defs)
  qed
  show ?thesis
    using o i1 i2 by (auto simp: on_session_open_def Let_def not_le split: if_splits sum.splits)
qed

lemma stream_ok_update:
  "stream_ok client pending st \<Longrightarrow> stream_ok client pending
     (st\<lparr>st_ready := True, st_reply := False, st_application := False\<rparr>)"
  "stream_ok client pending st \<Longrightarrow> acknowledge (st_window st) data = Inr w \<Longrightarrow>
     stream_ok client pending (st\<lparr>st_window := w\<rparr>)"
  using acknowledge_inv by (auto simp: stream_ok_def)

lemma try_send_ok:
  "try_send x st = Some st' \<Longrightarrow> st_writer st \<and> st' = st\<lparr>st_incoming := st_incoming st @ [x]\<rparr>"
  by (auto simp: try_send_def split: if_splits)

lemma received_minus_written:
  "stream_ok client pending st \<Longrightarrow>
   st_received st - st_written st \<ge> WINDOW_CELLS \<longleftrightarrow> unat (st_received st) - unat (st_written st) \<ge> 32"
  by (auto simp: stream_ok_def WINDOW_CELLS_def word_le_nat_alt unat_sub_if')

lemma stream_ok_data:
  assumes ok: "stream_ok client pending st" and credit: "\<not> st_received st - st_written st \<ge> WINDOW_CELLS"
    and n: "checked_add (st_received st) 1 = Some n"
    and s: "try_send (Some data) (st\<lparr>st_received := n\<rparr>) = Some st'"
  shows "stream_ok client pending st'"
  using try_send_ok [OF s] checked_add_Some [OF n] ok credit received_minus_written [OF ok]
  by (auto simp: stream_ok_def)

lemma stream_ok_end:
  assumes ok: "stream_ok client pending st" and e: "\<not> st_received_end st"
    and s: "try_send None (st\<lparr>st_received_end := True\<rparr>) = Some st'"
  shows "stream_ok client pending st'"
  using try_send_ok [OF s] ok e by (auto simp: stream_ok_def)

lemma session_inv_put':
  "session_inv s \<Longrightarrow> map_of (se_streams s) sid = Some st \<Longrightarrow>
   (\<And>client pending. stream_ok client pending st \<Longrightarrow> stream_ok client pending st') \<Longrightarrow>
   session_inv (put_stream sid st' s)"
  using session_inv_put session_inv_stream(1) by blast

lemma on_session_opened_inv:
  assumes inv: "session_inv s" and o: "on_session_opened reply_ok sid s = Inr (Running s' out)"
  shows "session_inv s'"
proof -
  from o obtain st where st: "map_of (se_streams s) sid = Some st"
    by (auto simp: on_session_opened_def split: option.splits)
  let ?st = "st\<lparr>st_ready := True, st_reply := False, st_application := False\<rparr>"
  have i1: "session_inv (put_stream sid ?st s)"
    by (rule session_inv_put' [OF inv st stream_ok_update(1)])
  have "map_of (se_streams (put_stream sid ?st s)) sid = Some ?st"
    using session_inv_stream(6) [OF inv st] by (simp add: put_stream_def bt_get_insert)
  from session_inv_drop_live [OF i1 this] i1 o st show ?thesis
    by (auto simp: on_session_opened_def Let_def split: if_splits)
qed

lemma on_cell_inv:
  assumes inv: "session_inv s" and o: "on_cell now reply_ok command sid data s = Inr (Running s' out)"
  shows "session_inv s'"
proof -
  have open_case: "session_inv s'"
    if "on_session_open now sid data s = Inr (Running s' out)" "\<not> se_client s" "sid > se_last_id s" "sid \<le> MAX_IDS"
    using that by (intro on_session_open_inv [OF inv])
  have refused: "session_inv s'" if "on_session_refused sid s = Inr (Running s' out)"
    using that session_inv_drop_live [OF inv] by (auto simp: on_session_refused_def split: option.splits if_splits)
  have data: "session_inv s'" if "on_data now sid data s = Inr (Running s' out)"
    using that by (auto simp: on_data_def split: option.splits if_splits
        intro!: session_inv_put' [OF inv] elim!: stream_ok_data)
  have ack: "session_inv s'" if "on_data_ack sid data s = Inr (Running s' out)"
    using that by (auto simp: on_data_ack_def split: option.splits if_splits sum.splits
        intro!: session_inv_put' [OF inv] elim: stream_ok_update)
  have ende: "session_inv s'" if "on_end now sid s = Inr (Running s' out)"
    using that by (auto simp: on_end_def split: option.splits if_splits
        intro!: session_inv_put' [OF inv] elim!: stream_ok_end)
  show ?thesis
    using o inv open_case refused data ack ende on_session_opened_inv [OF inv] session_inv_reset [OF inv, of sid]
    unfolding on_cell_def by (simp split: if_splits) auto
qed

lemma on_frame_Inr:
  assumes "on_frame cr now reply_ok wire s = Inr p"
  obtains b k cell where "b = min (se_receive_budget s + (now - se_receive_time s)) BUDGET_MAX"
    "BUDGET_CELL \<le> b" "Crypto_incoming cr (se_crypto s) wire = Inr (k, cell)"
    "on_cell now reply_ok (cell_command cell) (cell_stream_id cell)
      (take (unat (cell_length cell)) (cell_payload cell))
      (s\<lparr>se_receive_time := now, se_receive_budget := b - BUDGET_CELL, se_crypto := k\<rparr>) = Inr p"
proof -
  define b where "b = min (se_receive_budget s + (now - se_receive_time s)) BUDGET_MAX"
  from assms obtain k cell where "BUDGET_CELL \<le> b" "Crypto_incoming cr (se_crypto s) wire = Inr (k, cell)"
    "on_cell now reply_ok (cell_command cell) (cell_stream_id cell)
      (take (unat (cell_length cell)) (cell_payload cell))
      (s\<lparr>se_receive_time := now, se_receive_budget := b - BUDGET_CELL, se_crypto := k\<rparr>) = Inr p"
    unfolding on_frame_def Let_def b_def [symmetric]
    by (auto simp: ebind_eq_Inr not_less split: if_splits)
  then show ?thesis by (rule that [OF b_def])
qed

lemma on_frame_inv:
  assumes inv: "session_inv s" and o: "on_frame cr now reply_ok wire s = Inr (Running s' out)"
  shows "session_inv s'"
  using o
proof (rule on_frame_Inr)
  fix b k cell
  assume c: "on_cell now reply_ok (cell_command cell) (cell_stream_id cell)
      (take (unat (cell_length cell)) (cell_payload cell))
      (s\<lparr>se_receive_time := now, se_receive_budget := b - BUDGET_CELL, se_crypto := k\<rparr>) = Inr (Running s' out)"
  show "session_inv s'" by (rule on_cell_inv [OF _ c]) (use inv in simp)
qed

lemma session_turn_inv:
  assumes inv: "session_inv s" and o: "session_turn cr t0 t s = Inr (Running s' out)"
  shows "session_inv s'"
  using o inv on_tick_inv [OF inv] on_open_inv [OF inv] on_event_inv [OF inv] on_frame_inv [OF inv]
  by (auto simp: session_turn_def split: if_splits turn.splits list.splits)

section \<open>Worker tasks\<close>

lemma session_inv_push_written:
  assumes inv: "session_inv s" and st: "map_of (se_streams s) sid = Some st"
    and ok: "\<And>client pending. stream_ok client pending st \<Longrightarrow> stream_ok client (pending @ [unat c]) st'"
  shows "session_inv (push_event (Written sid c) (put_stream sid st' s))"
proof -
  note wf = session_inv_stream(6) [OF inv st] and live = session_inv_stream(3,5) [OF inv st]
  have "event_ok (se_client s) (se_last_id s) (se_connecting s) (Written sid c)"
    using live by (simp add: event_ok_def)
  moreover have "stream_ok (se_client s) (pend sid (se_events s) @ [unat c]) st'"
    by (rule ok [OF session_inv_stream(1) [OF inv st]])
  ultimately show ?thesis
    using inv st bt.size_ins_old [OF wf st]
    by (simp add: session_inv_defs put_stream_def push_event_def bt.wf_ins [OF wf] bt.get_ins [OF wf])
qed

lemma session_inv_push_other:
  assumes "session_inv s" and "\<And>sid c. ev \<noteq> Written sid c"
    and "event_ok (se_client s) (se_last_id s) (se_connecting s) ev"
  shows "session_inv (push_event ev s)"
proof -
  have "pend sid (se_events s @ [ev]) = pend sid (se_events s)" for sid
    using assms(2) by (cases ev) auto
  with assms(1,3) show ?thesis by (simp add: session_inv_defs push_event_def)
qed

lemma session_inv_push_failed: "session_inv s \<Longrightarrow> session_inv (push_event (Failed sid) s)"
  by (rule session_inv_push_other) (simp_all add: event_ok_def)

lemma stream_ok_write:
  assumes "stream_ok client pending st" and "st_incoming st = Some data # q" and "st_writer st"
    and "checked_add (st_count st) 1 = Some n"
  shows "stream_ok client (pending @ [unat n]) (st\<lparr>st_incoming := q, st_count := n\<rparr>)"
  using assms checked_add_Some [OF assms(4)] by (auto simp: stream_ok_def)

lemma stream_ok_writer_gone:
  assumes "stream_ok client pending st" and "st_incoming st = x # q"
  shows "stream_ok client pending (st\<lparr>st_incoming := q, st_writer := False\<rparr>)"
  using assms by (cases x) (auto simp: stream_ok_def)

lemma writer_step_inv:
  assumes inv: "session_inv s"
  shows "session_inv (writer_step sid ok s)"
proof (cases "map_of (se_streams s) sid")
  case None
  with inv show ?thesis by (simp add: writer_step_def)
next
  case (Some st)
  have gone: "session_inv (put_stream sid (st\<lparr>st_incoming := q, st_writer := False\<rparr>) s)"
    if "st_incoming st = x # q" for x q
    by (rule session_inv_put' [OF inv Some stream_ok_writer_gone]) (use that in auto)
  have written: "session_inv (push_event (Written sid n) (put_stream sid (st\<lparr>st_incoming := q, st_count := n\<rparr>) s))"
    if "st_incoming st = Some d # q" "st_writer st" "checked_add (st_count st) 1 = Some n" for d q n
    by (rule session_inv_push_written [OF inv Some stream_ok_write]) (use that in auto)
  show ?thesis
    using inv Some gone written session_inv_push_failed
    by (auto simp: writer_step_def Let_def split: list.splits option.splits if_splits)
qed

lemma stream_ok_outgoing: "stream_ok client pending st \<Longrightarrow> stream_ok client pending (st\<lparr>st_outgoing := og\<rparr>)"
  by (simp add: stream_ok_def)

lemma reader_step_inv:
  assumes inv: "session_inv s"
  shows "session_inv (reader_step sid r s)"
  using inv session_inv_put' [OF inv _ stream_ok_outgoing] session_inv_push_failed
  by (auto simp: reader_step_def Let_def split: option.splits read_result.splits if_splits)

lemma connect_step_inv:
  assumes inv: "session_inv s"
  shows "session_inv (connect_step sid ok s)"
proof (cases "sid \<in> se_connect_tasks s")
  case True
  with inv have "\<not> se_client s" by (auto simp: session_inv_def ids_ok_def)
  then have "session_inv (push_event (Connected sid ok) s)"
    by (intro session_inv_push_other [OF inv]) (simp_all add: event_ok_def)
  with True show ?thesis by (simp add: connect_step_def)
qed (use inv in \<open>simp add: connect_step_def\<close>)

lemma session_run_inv: "session_run cr s0 ts s \<Longrightarrow> session_inv s0 \<Longrightarrow> session_inv s"
  by (induction rule: session_run.induct)
    (auto intro: session_turn_inv writer_step_inv reader_step_inv connect_step_inv)

end
