(* ===== verification/SessionProps.thy ===== *)
theory SessionProps
  imports SessionInv
begin

text \<open>
  Properties of padded sessions: budgets, absence of internal faults, stream identifiers that
  never come back, one cell per tick whatever the traffic, the receive rate, the packing of
  reads into cells, and the agreement of the session profile.
\<close>

section \<open>What a branch leaves alone\<close>

text \<open>The variables of the loop that choosing a cell and retiring streams do not touch.\<close>

definition same_frame :: "session \<Rightarrow> session \<Rightarrow> bool" where
  "same_frame s s' \<longleftrightarrow> se_client s' = se_client s \<and> se_connecting s' = se_connecting s \<and>
     se_receive_budget s' = se_receive_budget s \<and> se_receive_time s' = se_receive_time s \<and>
     se_events s' = se_events s \<and> se_last_id s' = se_last_id s \<and> se_start s' = se_start s \<and>
     se_closed s \<subseteq> se_closed s'"

lemma same_frame_refl [simp]: "same_frame s s"
  by (simp add: same_frame_def)

lemma same_frame_trans [trans]: "same_frame s s' \<Longrightarrow> same_frame s' s'' \<Longrightarrow> same_frame s s''"
  by (auto simp: same_frame_def)

lemma same_frame_fold: "(\<And>x s. same_frame s (f x s)) \<Longrightarrow> same_frame s (fold f xs s)"
proof (induction xs arbitrary: s)
  case (Cons x xs)
  from Cons.prems [of s x] Cons.IH [OF Cons.prems, of "f x s"] show ?case by (simp add: same_frame_trans)
qed simp

lemma same_frame_drop: "same_frame s (drop_stream sid s)"
  by (auto simp: same_frame_def drop_stream_def)

lemma same_frame_push: "same_frame s (push_control c s)"
  by (simp add: same_frame_def push_control_def)

lemma same_frame_pop: "pop_control s = (s', c) \<Longrightarrow> same_frame s s'"
  by (auto simp: pop_control_def same_frame_def split: list.splits)

lemma retire_frame: "same_frame s (retire gone s)"
proof -
  define s1 where "s1 = fold drop_stream (map fst (filter (\<lambda>(_, st). retirable st) (se_streams s))) s"
  have "same_frame s s1" unfolding s1_def by (rule same_frame_fold) (rule same_frame_drop)
  moreover have "same_frame s1 (retire gone s)"
    unfolding retire_def Let_def s1_def [symmetric]
    by (rule same_frame_fold) (rule same_frame_trans [OF same_frame_drop same_frame_push])
  ultimately show ?thesis by (rule same_frame_trans)
qed

lemma first_control_frame: "first_control s = (s', c) \<Longrightarrow> same_frame s s'"
proof -
  have "same_frame s (s\<lparr>se_prefer_control := p\<rparr>)" for p by (simp add: same_frame_def)
  then show "first_control s = (s', c) \<Longrightarrow> same_frame s s'"
    by (auto simp: first_control_def Let_def dest: same_frame_pop intro: same_frame_trans split: if_splits)
qed

lemma stream_or_control_frame:
  assumes "stream_or_control now s = Inr (s', c)"
  shows "same_frame s s'"
  using assms
proof (rule stream_or_control_Inr)
  fix ids ss sel
  have "same_frame s (s\<lparr>se_streams := ss\<rparr>)" "same_frame s (s\<lparr>se_streams := ss, se_cursor := cu\<rparr>)" for cu
    by (simp_all add: same_frame_def)
  moreover assume "(\<exists>cu. s' = s\<lparr>se_streams := ss, se_cursor := cu\<rparr>) \<or> (\<exists>o'. pop_control (s\<lparr>se_streams := ss\<rparr>) = (s', o'))"
  ultimately show ?thesis by (auto dest: same_frame_pop intro: same_frame_trans)
qed

lemma select_cell_frame: "select_cell now s = Inr (s', c) \<Longrightarrow> same_frame s s'"
  by (auto simp: select_cell_def dest: first_control_frame stream_or_control_frame intro: same_frame_trans
      split: prod.splits option.splits)

lemma on_tick_frame:
  assumes "on_tick cr te s = Inr (Running s' out)"
  shows "same_frame s s'"
  using assms
proof (rule on_tick_Running)
  fix s2 :: session and command sid data k wire nxt
  let ?s3 = "s2\<lparr>se_crypto := k, se_deadline := nxt, se_cells := se_cells s2 + 1\<rparr>"
  assume sel: "select_cell (te_now te) (request_finish (te_now te) s) = Inr (s2, command, sid, data)"
    and s': "s' = retire (te_gone te) ?s3"
  have "same_frame s (request_finish (te_now te) s)"
    by (simp add: request_finish_def same_frame_def push_control_def)
  also have "same_frame \<dots> s2" by (rule select_cell_frame [OF sel])
  also have "same_frame s2 ?s3" by (simp add: same_frame_def)
  also have "same_frame ?s3 s'" unfolding s' by (rule retire_frame)
  finally show ?thesis .
qed

section \<open>Identifiers that were closed stay closed\<close>

lemma closed_sel [simp]:
  "se_closed (put_stream sid st s) = se_closed s"
  "se_closed (push_control c s) = se_closed s"
  "se_closed (drop_stream sid s) = insert sid (se_closed s)"
  "se_closed (push_event ev s) = se_closed s"
  "se_closed (on_reset sid s) = insert sid (se_closed s)"
  by (simp_all add: put_stream_def push_control_def drop_stream_def push_event_def on_reset_def)

lemma on_cell_closed:
  "on_cell now reply_ok command sid data s = Inr (Running s' out) \<Longrightarrow> se_closed s \<subseteq> se_closed s'"
  by (auto simp: on_cell_def on_session_open_def on_session_opened_def on_session_refused_def on_data_def
      on_data_ack_def on_end_def Let_def split: if_splits option.splits sum.splits)

lemma session_turn_closed:
  assumes "session_turn cr t0 t s = Inr (Running s' out)"
  shows "se_closed s \<subseteq> se_closed s'"
proof (cases t)
  case (Tick te)
  with assms on_tick_frame [of cr te s s' out] show ?thesis
    by (auto simp: session_turn_def same_frame_def split: if_splits)
next
  case (Frame now reply_ok wire)
  with assms have "on_frame cr now reply_ok wire s = Inr (Running s' out)"
    by (auto simp: session_turn_def split: if_splits)
  then show ?thesis
  proof (rule on_frame_Inr)
    fix b k cell
    assume "on_cell now reply_ok (cell_command cell) (cell_stream_id cell)
      (take (unat (cell_length cell)) (cell_payload cell))
      (s\<lparr>se_receive_time := now, se_receive_budget := b - BUDGET_CELL, se_crypto := k\<rparr>) = Inr (Running s' out)"
    from on_cell_closed [OF this] show ?thesis by simp
  qed
next
  case WorkerEvent
  with assms show ?thesis
    by (auto simp: session_turn_def on_event_def Let_def split: if_splits list.splits Event.splits option.splits)
qed (use assms in \<open>auto simp: session_turn_def on_open_def Let_def split: if_splits sum.splits\<close>)

lemma worker_closed:
  "se_closed (writer_step sid ok s) = se_closed s" "se_closed (reader_step sid r s) = se_closed s"
  "se_closed (connect_step sid ok s) = se_closed s"
  by (auto simp: writer_step_def reader_step_def connect_step_def Let_def
      split: option.splits list.splits if_splits read_result.splits)

lemma session_run_closed: "session_run cr s0 ts s \<Longrightarrow> se_closed s0 \<subseteq> se_closed s"
  by (induction rule: session_run.induct) (auto dest: session_turn_closed simp: worker_closed)

section \<open>Internal faults\<close>

lemma select_stream_no_missing:
  "set ids \<subseteq> dom (map_of ss) \<Longrightarrow> select_stream ids ss = Inl e \<Longrightarrow> \<exists>f. e = SeFlow f"
  by (induction ids ss rule: select_stream.induct)
    (auto split: if_splits option.splits sum.splits try_recv_error.splits)

lemma round_robin_keys: "set (round_robin s) \<subseteq> dom (map_of (se_streams s))"
  by (auto simp: round_robin_def Let_def simp flip: bt_keys_dom)

lemma select_cell_fault: "select_cell now s = Inl e \<Longrightarrow> \<exists>f. e = SeFlow f"
  using select_stream_no_missing [OF round_robin_keys]
  by (auto simp: select_cell_def stream_or_control_def ebind_def
      split: prod.splits option.splits sum.splits if_splits)

text \<open>Errors that would mean the loop has lost track of its own state.\<close>

definition internal_fault :: "sess_error \<Rightarrow> bool" where
  "internal_fault e \<longleftrightarrow> e \<in> Invalid ` {''Missing stream'', ''Invalid write acknowledgement'',
     ''Unexpected connect completion'', ''Missing stream reply'', ''Missing application stream''}"

definition queue_fault :: "sess_error \<Rightarrow> bool" where
  "queue_fault e \<longleftrightarrow> e \<in> Invalid ` {''Stream receive queue exhausted'', ''End receive queue exhausted''}"

definition benign :: "sess_error \<Rightarrow> bool" where
  "benign e \<longleftrightarrow> \<not> internal_fault e \<and> \<not> queue_fault e"

lemma benign_simps [simp]:
  "benign (SeCell e1)" "benign (SeCircuit e2)" "benign (SeFlow e3)" "benign SeWrite"
  by (auto simp: benign_def internal_fault_def queue_fault_def)

lemma benign_Invalid:
  "benign (Invalid m) \<longleftrightarrow> m \<notin> {''Missing stream'', ''Invalid write acknowledgement'',
     ''Unexpected connect completion'', ''Missing stream reply'', ''Missing application stream'',
     ''Stream receive queue exhausted'', ''End receive queue exhausted''}"
  by (auto simp: benign_def internal_fault_def queue_fault_def)

lemma outgoing_fault: "Crypto_outgoing cr rnd k command sid data = Inl e \<Longrightarrow> benign e"
  by (cases k) (auto simp: Crypto_outgoing_def split: sum.splits prod.splits)

lemma incoming_fault: "Crypto_incoming cr k wire = Inl e \<Longrightarrow> benign e"
  by (cases k) (auto simp: Crypto_incoming_def benign_Invalid
      split: sum.splits prod.splits PeelOutcome.splits if_splits)

lemma on_tick_fault:
  assumes "on_tick cr te s = Inl e"
  shows "benign e"
proof (cases "finish_due (te_now te) s \<and> \<not> se_client s \<and> se_peer_finish s")
  case True
  with assms show ?thesis
    by (auto simp: on_tick_def ebind_def dest: outgoing_fault split: if_splits sum.splits)
next
  case False
  show ?thesis
  proof (cases "select_cell (te_now te) (request_finish (te_now te) s)")
    case (Inl f)
    with assms False select_cell_fault [OF Inl] show ?thesis by (auto simp: on_tick_def)
  next
    case (Inr r)
    obtain s2 command sid data where r: "r = (s2, command, sid, data)" by (cases r)
    show ?thesis
    proof (cases "Crypto_outgoing cr (te_rnd te) (se_crypto s2) command sid data")
      case (Inl f)
      with assms False Inr r have "f = e" by (simp add: on_tick_def)
      with outgoing_fault [OF Inl] show ?thesis by simp
    next
      case out: (Inr q)
      with assms False Inr r show ?thesis
        by (auto simp: on_tick_def benign_Invalid split: if_splits option.splits prod.splits)
    qed
  qed
qed

lemma on_event_fault:
  assumes inv: "session_inv s" and evs: "se_events s = ev # evs"
    and e: "on_event ev (s\<lparr>se_events := evs\<rparr>) = Inl e"
  shows "benign e"
proof (cases ev)
  case (Written sid c)
  show ?thesis
  proof (cases "map_of (se_streams s) sid")
    case None
    with e Written show ?thesis by (simp add: on_event_def)
  next
    case (Some st)
    from session_inv_written(2,3) [OF inv evs [unfolded Written] Some] e Some Written
    show ?thesis by (simp add: on_event_def)
  qed
next
  case (Connected sid ok)
  then have "\<not> se_client s" using events_ok_tail(2) [OF inv evs] by (simp add: event_ok_def)
  with e Connected show ?thesis by (auto simp: on_event_def Let_def split: if_splits)
next
  case (Failed sid)
  with e show ?thesis by (auto simp: on_event_def split: option.splits)
qed

definition writer_gone :: "session \<Rightarrow> bool" where
  "writer_gone s \<longleftrightarrow> (\<exists>sid st. map_of (se_streams s) sid = Some st \<and> \<not> st_writer st)"

lemma try_send_None:
  assumes "stream_ok client pending st" and "\<not> st_received_end st"
    and "st_incoming st' = st_incoming st" "st_writer st' = st_writer st" and "try_send x st' = None"
  shows "\<not> st_writer st"
proof -
  have "length (st_incoming st) \<le> 32"
    using assms(1,2) length_queue [of "st_incoming st"] by (auto simp: stream_ok_def)
  with assms(3-5) show ?thesis by (auto simp: try_send_def QUEUE_def split: if_splits)
qed

lemma on_data_fault:
  assumes inv: "session_inv s" and e: "on_data now sid data s = Inl e"
  shows "\<not> internal_fault e \<and> (queue_fault e \<longrightarrow> writer_gone s)"
proof (cases "map_of (se_streams s) sid")
  case None
  with e show ?thesis by (auto simp: on_data_def internal_fault_def queue_fault_def)
next
  case (Some st)
  have gone: "writer_gone s" if "try_send (Some data) (st\<lparr>st_received := n\<rparr>) = None" "\<not> st_received_end st" for n
    using try_send_None [OF session_inv_stream(1) [OF inv Some] that(2) _ _ that(1)] Some
    by (auto simp: writer_gone_def)
  show ?thesis
    using e Some gone
    by (auto simp: on_data_def internal_fault_def queue_fault_def split: if_splits option.splits)
qed

lemma on_end_fault:
  assumes inv: "session_inv s" and e: "on_end now sid s = Inl e"
  shows "\<not> internal_fault e \<and> (queue_fault e \<longrightarrow> writer_gone s)"
proof (cases "map_of (se_streams s) sid")
  case None
  with e show ?thesis by (auto simp: on_end_def internal_fault_def queue_fault_def)
next
  case (Some st)
  have gone: "writer_gone s" if "try_send None (st\<lparr>st_received_end := True\<rparr>) = None" "\<not> st_received_end st"
    using try_send_None [OF session_inv_stream(1) [OF inv Some] that(2) _ _ that(1)] Some
    by (auto simp: writer_gone_def)
  show ?thesis
    using e Some gone
    by (auto simp: on_end_def internal_fault_def queue_fault_def split: if_splits option.splits)
qed

lemma on_session_opened_fault:
  assumes inv: "session_inv s" and e: "on_session_opened reply_ok sid s = Inl e"
  shows "benign e"
proof (cases "map_of (se_streams s) sid")
  case None
  with e show ?thesis by (auto simp: on_session_opened_def benign_Invalid)
next
  case (Some st)
  have "\<not> st_ready st \<longrightarrow> st_reply st \<and> st_application st"
    using session_inv_stream(1) [OF inv Some] by (auto simp: stream_ok_def)
  with e Some show ?thesis by (auto simp: on_session_opened_def Let_def benign_Invalid split: if_splits)
qed

lemma on_cell_fault:
  assumes inv: "session_inv s" and e: "on_cell now reply_ok command sid data s = Inl e"
  shows "\<not> internal_fault e \<and> (queue_fault e \<longrightarrow> writer_gone s)"
proof -
  have b: "?thesis" if "benign e" using that by (simp add: benign_def)
  have o: "benign e" if "on_session_open now sid data s = Inl e"
    using that by (auto simp: on_session_open_def Let_def benign_Invalid split: if_splits sum.splits)
  have r: "benign e" if "on_session_refused sid s = Inl e"
    using that by (auto simp: on_session_refused_def benign_Invalid split: if_splits option.splits)
  have a: "benign e" if "on_data_ack sid data s = Inl e"
    using that by (auto simp: on_data_ack_def benign_Invalid split: if_splits option.splits sum.splits)
  have l: "benign (Invalid ''Invalid session command or state'')" by (simp add: benign_Invalid)
  show ?thesis
    using e b o r a l on_session_opened_fault [OF inv] on_data_fault [OF inv] on_end_fault [OF inv]
    unfolding on_cell_def by (simp split: if_splits)
qed

lemma on_frame_fault:
  assumes inv: "session_inv s" and e: "on_frame cr now reply_ok wire s = Inl e"
  shows "\<not> internal_fault e \<and> (queue_fault e \<longrightarrow> writer_gone s)"
proof -
  have b: "?thesis" if "benign e" using that by (simp add: benign_def)
  have r: "benign (Invalid ''Session receive rate budget exhausted'')" by (simp add: benign_Invalid)
  have c: "?thesis" if "on_cell now reply_ok command sid data
      (s\<lparr>se_receive_time := t, se_receive_budget := x, se_crypto := k\<rparr>) = Inl e" for command sid data t x k
    using on_cell_fault [OF _ that] inv by (simp add: writer_gone_def)
  show ?thesis
    using e b r c incoming_fault [of cr "se_crypto s" wire e]
    by (auto simp: on_frame_def Let_def ebind_def split: if_splits sum.splits)
qed

lemma session_turn_fault:
  assumes inv: "session_inv s" and e: "session_turn cr t0 t s = Inl e"
  shows "\<not> internal_fault e \<and> (queue_fault e \<longrightarrow> writer_gone s)"
proof -
  have b: "?thesis" if "benign e" using that by (simp add: benign_def)
  have o: "on_open now host port s \<noteq> Inl e" for now host port
    by (auto simp: on_open_def Let_def split: sum.splits)
  have ev: "benign e" if "se_events s = x # xs" "on_event x (s\<lparr>se_events := xs\<rparr>) = Inl e" for x xs
    using that by (rule on_event_fault [OF inv])
  have tick: "benign e" if "on_tick cr te s = Inl e" for te using that by (rule on_tick_fault)
  show ?thesis
  proof (cases t)
    case (Frame now reply_ok wire)
    with e show ?thesis
      using on_frame_fault [OF inv, of cr now reply_ok wire e] b
      by (auto simp: session_turn_def benign_Invalid split: if_splits)
  next
    case WorkerEvent
    with e ev b show ?thesis by (auto simp: session_turn_def benign_Invalid split: if_splits list.splits)
  qed (use e b o tick in \<open>auto simp: session_turn_def benign_Invalid split: if_splits\<close>)
qed

section \<open>One cell per tick\<close>

fun progress_out :: "progress \<Rightarrow> sess_output list" where
  "progress_out (Running s out) = out"
| "progress_out (Done out) = out"

definition wires :: "progress \<Rightarrow> bytes list" where
  "wires p = concat (map (\<lambda>x. case x of Wire w \<Rightarrow> [w] | _ \<Rightarrow> []) (progress_out p))"

lemma wrap_forward_length:
  assumes cr: "crypto_ok cr" and wf: "wf_cell cell" and w: "wrap_forward cr oc cell = Inr (oc', cell', raw)"
  shows "length raw = ONION_CELL_SIZE"
proof (cases "oc_hops oc" rule: rev_cases)
  case Nil
  with w obtain n where raw: "raw = serialize (cell\<lparr>cell_sequence_no := n\<rparr>)"
    by (auto simp: wrap_forward_def Let_def split: if_splits option.splits)
  have "wf_cell (cell\<lparr>cell_sequence_no := n\<rparr>)" using wf by (simp add: wf_cell_def)
  then show ?thesis by (simp add: raw length_serialize)
next
  case (snoc ks k)
  note f = wrap_forward_frame [OF w cr wf snoc]
  have "wf_cell cell'" using wf by (simp add: f(2) wf_cell_def)
  then have "length (drop 8 (serialize cell')) = BODY_SIZE" by (simp add: length_serialize BODY_SIZE_def)
  then show ?thesis
    by (simp add: f(1) frame_def length_fwd_layers [OF cr] sealed_body_facts(1) [OF cr] size_defs)
qed

lemma originate_length:
  assumes cr: "crypto_ok cr" and wf: "wf_cell cell"
    and w: "wrap_backward_originate cr rh (serialize cell) = (rh', raw, Inr ())"
  shows "length raw = ONION_CELL_SIZE"
  using w wf
proof (rule originate_frame)
  fix seq
  assume raw: "raw = frame (cell_circuit_id cell) seq
       (sealed_body cr (backward_aead_key (rh_crypt rh)) (build_nonce 2 0 seq) seq
         (drop 8 (serialize (cell\<lparr>cell_sequence_no := seq\<rparr>))))"
  have "wf_cell (cell\<lparr>cell_sequence_no := seq\<rparr>)" using wf by (simp add: wf_cell_def)
  then have "length (drop 8 (serialize (cell\<lparr>cell_sequence_no := seq\<rparr>))) = BODY_SIZE"
    by (simp add: length_serialize BODY_SIZE_def)
  then show ?thesis by (simp add: raw frame_def sealed_body_facts(1) [OF cr] size_defs)
qed

lemma outgoing_length:
  assumes cr: "crypto_ok cr" and rnd: "length rnd = 32"
    and o: "Crypto_outgoing cr rnd k command sid data = Inr (k', wire)"
  shows "length wire = ONION_CELL_SIZE"
proof -
  from o obtain cell where new: "OnionCell_new rnd (Crypto_id k) 0 command sid data = Inr cell"
    by (auto simp: Crypto_outgoing_def split: sum.splits)
  note wf = OnionCell_new_Inr(1) [OF new rnd]
  show ?thesis
  proof (cases k)
    case (CryptoClient c)
    with o new obtain oc' cell' where "wrap_forward cr c cell = Inr (oc', cell', wire)"
      by (auto simp: Crypto_outgoing_def split: sum.splits)
    then show ?thesis by (rule wrap_forward_length [OF cr wf])
  next
    case (CryptoExit c)
    with o new obtain c' where "wrap_backward_originate cr c (serialize cell) = (c', wire, Inr ())"
      by (auto simp: Crypto_outgoing_def split: sum.splits prod.splits)
    then show ?thesis by (rule originate_length [OF cr wf])
  qed
qed

lemma on_tick_wires:
  assumes cr: "crypto_ok cr" and rnd: "length (te_rnd te) = 32" and o: "on_tick cr te s = Inr p"
  shows "\<exists>w. wires p = [w] \<and> length w = ONION_CELL_SIZE"
proof -
  from o obtain k k' command sid data wire where
    "Crypto_outgoing cr (te_rnd te) k command sid data = Inr (k', wire)"
    and "progress_out p = [Wire wire]"
    by (auto simp: on_tick_def ebind_eq_Inr split: if_splits option.splits)
  with outgoing_length [OF cr rnd] show ?thesis by (auto simp: wires_def)
qed

lemma on_cell_wires: "on_cell now reply_ok command sid data s = Inr p \<Longrightarrow> wires p = []"
  by (auto simp: on_cell_def on_session_open_def on_session_opened_def on_session_refused_def on_data_def
      on_data_ack_def on_end_def Let_def wires_def split: if_splits option.splits sum.splits)

lemma quiet_wires:
  "on_open now host port s = Inr p \<Longrightarrow> wires p = []"
  "on_event ev s = Inr p \<Longrightarrow> wires p = []"
  by (auto simp: on_open_def on_event_def Let_def wires_def
      split: if_splits option.splits sum.splits Event.splits)

lemma on_frame_wires: "on_frame cr now reply_ok wire s = Inr p \<Longrightarrow> wires p = []"
  by (erule on_frame_Inr) (erule on_cell_wires)

section \<open>The receive budget\<close>

fun frame_time :: "turn \<Rightarrow> nat list" where
  "frame_time (Frame now reply_ok wire) = [now]"
| "frame_time _ = []"

definition frame_times :: "turn list \<Rightarrow> nat list" where
  "frame_times ts = concat (map frame_time ts)"

definition same_budget :: "session \<Rightarrow> session \<Rightarrow> bool" where
  "same_budget s s' \<longleftrightarrow> se_receive_budget s' = se_receive_budget s \<and> se_receive_time s' = se_receive_time s"

lemma budget_sel [simp]:
  "se_receive_budget (put_stream sid st s) = se_receive_budget s" "se_receive_time (put_stream sid st s) = se_receive_time s"
  "se_receive_budget (push_control c s) = se_receive_budget s" "se_receive_time (push_control c s) = se_receive_time s"
  "se_receive_budget (drop_stream sid s) = se_receive_budget s" "se_receive_time (drop_stream sid s) = se_receive_time s"
  "se_receive_budget (push_event ev s) = se_receive_budget s" "se_receive_time (push_event ev s) = se_receive_time s"
  "se_receive_budget (on_reset sid s) = se_receive_budget s" "se_receive_time (on_reset sid s) = se_receive_time s"
  by (simp_all add: put_stream_def push_control_def drop_stream_def push_event_def on_reset_def)

lemma on_cell_budget:
  "on_cell now reply_ok command sid data s = Inr (Running s' out) \<Longrightarrow> same_budget s s'"
  by (auto simp: on_cell_def on_session_open_def on_session_opened_def on_session_refused_def on_data_def
      on_data_ack_def on_end_def Let_def same_budget_def split: if_splits option.splits sum.splits)

lemma worker_budget:
  "same_budget s (writer_step sid ok s)" "same_budget s (reader_step sid r s)" "same_budget s (connect_step sid ok s)"
  by (auto simp: same_budget_def writer_step_def reader_step_def connect_step_def Let_def
      split: option.splits list.splits if_splits read_result.splits)

lemmas worker_budget_eqs =
  worker_budget [unfolded same_budget_def, THEN conjunct1] worker_budget [unfolded same_budget_def, THEN conjunct2]

lemma on_frame_budget:
  assumes "on_frame cr now reply_ok wire s = Inr (Running s' out)"
  shows "se_receive_time s' = now" "se_receive_budget s' + BUDGET_CELL \<le> se_receive_budget s + (now - se_receive_time s)"
  using assms by (auto elim!: on_frame_Inr dest!: on_cell_budget simp: same_budget_def)

lemma session_turn_budget:
  assumes "session_turn cr t0 t s = Inr (Running s' out)" and "frame_time t = []"
  shows "same_budget s s'"
proof (cases t)
  case (Tick te)
  with assms on_tick_frame [of cr te s s' out] show ?thesis
    by (auto simp: session_turn_def same_frame_def same_budget_def split: if_splits)
next
  case WorkerEvent
  with assms show ?thesis
    by (auto simp: session_turn_def on_event_def Let_def same_budget_def
        split: if_splits list.splits Event.splits option.splits)
qed (use assms in \<open>auto simp: session_turn_def on_open_def Let_def same_budget_def split: if_splits sum.splits\<close>)

lemma session_run_budget:
  assumes "session_run cr s0 ts s" and "sorted (se_receive_time s0 # frame_times ts)"
  shows "length (frame_times ts) * BUDGET_CELL + se_receive_budget s \<le>
      se_receive_budget s0 + (se_receive_time s - se_receive_time s0) \<and>
    se_receive_time s = last (se_receive_time s0 # frame_times ts)"
  using assms
proof (induction rule: session_run.induct)
  case run_start
  then show ?case by (simp add: frame_times_def)
next
  case (run_turn ts s t0 t s' out)
  have sorted: "sorted (se_receive_time s0 # frame_times ts)"
    using run_turn.prems by (simp add: frame_times_def sorted_append)
  note IH = run_turn.IH [OF sorted]
  show ?case
  proof (cases "frame_time t")
    case Nil
    then have eqs: "frame_times (ts @ [t]) = frame_times ts" "se_receive_budget s' = se_receive_budget s"
      "se_receive_time s' = se_receive_time s"
      using session_turn_budget [OF run_turn.hyps(2) Nil] by (simp_all add: same_budget_def frame_times_def)
    show ?thesis unfolding eqs by (rule IH)
  next
    case (Cons now rest)
    then obtain reply_ok wire where t: "t = Frame now reply_ok wire" and "rest = []"
      by (cases t) auto
    then have "on_frame cr now reply_ok wire s = Inr (Running s' out)"
      using run_turn.hyps(2) by (auto simp: session_turn_def split: if_splits)
    note f = on_frame_budget [OF this]
    have ft: "frame_times (ts @ [t]) = frame_times ts @ [now]" by (simp add: frame_times_def t)
    have le: "se_receive_time s0 \<le> se_receive_time s" "se_receive_time s \<le> now"
      using sorted_snoc_last [OF run_turn.prems [unfolded ft]] IH by simp_all
    have "length (frame_times ts) * BUDGET_CELL + BUDGET_CELL + se_receive_budget s' \<le>
        se_receive_budget s0 + (now - se_receive_time s0)"
      using conjunct1 [OF IH] f(2) le by linarith
    then show ?thesis using f(1) by (simp add: ft)
  qed
qed (unfold worker_budget_eqs, blast)+

section \<open>Packing\<close>

definition og_bytes :: "Outgoing \<Rightarrow> bytes" where
  "og_bytes og = (case og_pending og of None \<Rightarrow> [] | Some d \<Rightarrow> d) @ concat (og_queue og)"

definition chunk_ok :: "bytes \<Rightarrow> bool" where
  "chunk_ok d \<longleftrightarrow> d \<noteq> [] \<and> length d \<le> PAYLOAD_SIZE"

definition og_wf :: "Outgoing \<Rightarrow> bool" where
  "og_wf og \<longleftrightarrow> (\<forall>d \<in> set (og_queue og). chunk_ok d) \<and> (case og_pending og of None \<Rightarrow> True | Some d \<Rightarrow> chunk_ok d)"

lemma pack_spec:
  assumes "pack n data q = (d, q', p)" and "length data \<le> PAYLOAD_SIZE" and "\<forall>x \<in> set q. chunk_ok x"
  shows "d @ (case p of None \<Rightarrow> [] | Some r \<Rightarrow> r) @ concat q' = data @ concat q \<and> length data \<le> length d \<and>
    length d \<le> PAYLOAD_SIZE \<and> (\<forall>x \<in> set q'. chunk_ok x) \<and> (case p of None \<Rightarrow> True | Some r \<Rightarrow> chunk_ok r)"
  using assms
proof (induction n data q rule: pack.induct)
  case (2 n data q)
  show ?case
  proof (cases "length data = PAYLOAD_SIZE \<or> q = []")
    case True
    with "2.prems" show ?thesis by (auto split: list.splits)
  next
    case False
    then obtain nxt q1 where q: "q = nxt # q1" by (cases q) auto
    show ?thesis
    proof (cases "length nxt > PAYLOAD_SIZE - length data")
      case True
      with False "2.prems" q have "d = data @ take (PAYLOAD_SIZE - length data) nxt" "q' = q1"
        "p = Some (drop (PAYLOAD_SIZE - length data) nxt)"
        by (auto simp: Let_def)
      then show ?thesis using True "2.prems"(2,3) by (auto simp: q chunk_ok_def)
    next
      case le: False
      with False "2.prems" q have "pack n (data @ nxt) q1 = (d, q', p)" by (simp add: Let_def)
      moreover have "length (data @ nxt) \<le> PAYLOAD_SIZE" using le "2.prems"(2) by simp
      ultimately show ?thesis using "2.IH" [OF _ q refl] False le "2.prems"(3) q by auto
    qed
  qed
qed auto

lemma try_next_Inr:
  assumes wf: "og_wf og" and t: "try_next og = Inr (d, og')"
  shows "d @ og_bytes og' = og_bytes og \<and> d \<noteq> [] \<and> length d \<le> PAYLOAD_SIZE \<and> og_wf og' \<and> og_open og' = og_open og"
proof -
  have step: ?thesis if p: "pack (QUEUE - 1) data q = (d, q', p)" and og': "og' = og\<lparr>og_queue := q', og_pending := p\<rparr>"
    and data: "chunk_ok data" and q: "\<forall>x \<in> set q. chunk_ok x" and b: "og_bytes og = data @ concat q" for data q q' p
  proof -
    have "og_bytes og' = (case p of None \<Rightarrow> [] | Some r \<Rightarrow> r) @ concat q'" by (simp add: og' og_bytes_def)
    with pack_spec [OF p _ q] data show ?thesis by (auto simp: b og' og_wf_def chunk_ok_def)
  qed
  show ?thesis
  proof (cases "og_pending og")
    case (Some data)
    with t obtain q' p where "pack (QUEUE - 1) data (og_queue og) = (d, q', p)" "og' = og\<lparr>og_queue := q', og_pending := p\<rparr>"
      by (auto simp: try_next_def Let_def split: prod.splits)
    then show ?thesis by (rule step) (use wf Some in \<open>simp_all add: og_wf_def og_bytes_def\<close>)
  next
    case None
    with t obtain data q q' p where "og_queue og = data # q" and
      p: "pack (QUEUE - 1) data q = (d, q', p)" "og' = og\<lparr>og_queue := q', og_pending := p\<rparr>"
      by (auto simp: try_next_def Let_def split: prod.splits list.splits)
    then show ?thesis using p by (intro step [OF p]) (use wf None in \<open>simp_all add: og_wf_def og_bytes_def\<close>)
  qed
qed

lemma try_next_Inl: "try_next og = Inl e \<Longrightarrow> og_bytes og = [] \<and> e = (if og_open og then EmptyQueue else Disconnected)"
  by (auto simp: try_next_def og_bytes_def Let_def split: option.splits list.splits prod.splits)

text \<open>The data cells a sequence of ticks takes from a queue that receives nothing more.\<close>

fun drain :: "nat \<Rightarrow> Outgoing \<Rightarrow> bytes list \<times> Outgoing" where
  "drain 0 og = ([], og)"
| "drain (Suc n) og =
    (case try_next og of
       Inl _ \<Rightarrow> ([], og)
     | Inr (d, og') \<Rightarrow> (let (ds, og'') = drain n og' in (d # ds, og'')))"

lemma drain_spec:
  assumes "og_wf og" and "length (og_bytes og) \<le> n" and "drain n og = (ds, og')"
  shows "concat ds = og_bytes og \<and> og_bytes og' = [] \<and> (\<forall>d \<in> set ds. d \<noteq> [] \<and> length d \<le> PAYLOAD_SIZE)"
  using assms
proof (induction n arbitrary: og ds og')
  case 0
  then show ?case by simp
next
  case (Suc n)
  show ?case
  proof (cases "try_next og")
    case (Inl e)
    with Suc.prems try_next_Inl [OF Inl] show ?thesis by simp
  next
    case (Inr r)
    obtain d og1 where r: "r = (d, og1)" by (cases r)
    note t = try_next_Inr [OF Suc.prems(1) Inr [unfolded r]]
    obtain ds1 og2 where d: "drain n og1 = (ds1, og2)" by (cases "drain n og1")
    have bytes: "og_bytes og = d @ og_bytes og1" "d \<noteq> []" "length d \<le> PAYLOAD_SIZE" "og_wf og1"
      using t by auto
    then have "length (og_bytes og1) \<le> n" using Suc.prems(2) by (cases d) auto
    note IH = Suc.IH [OF bytes(4) this d]
    have "ds = d # ds1" "og' = og2" using Suc.prems(3) Inr r d by auto
    with IH bytes show ?thesis by simp
  qed
qed

section \<open>Properties\<close>

text \<open>
  C10. Budgets of a session, in every state any peer, application and task schedule can bring
  about: at most 16 streams live or connecting, identifiers at most 1024, no identifier both
  live and closed; for every live stream at most 32 cells unacknowledged in each direction and
  at most 33 items queued for its writer.
\<close>

theorem session_bounded:
  assumes "session_run cr (session_start client k p sample now) ts s"
  shows "length (se_streams s) + card (se_connecting s) \<le> 16 \<and> unat (se_last_id s) \<le> 1024 \<and>
    dom (map_of (se_streams s)) \<inter> (se_closed s \<union> se_connecting s) = {} \<and>
    (\<forall>sid st. map_of (se_streams s) sid = Some st \<longrightarrow>
       unat (sw_sent (st_window st)) - unat (sw_acknowledged (st_window st)) \<le> 32 \<and>
       unat (st_received st) - unat (st_written st) \<le> 32 \<and> length (st_incoming st) \<le> 33)"
proof -
  have inv: "session_inv s" by (rule session_run_inv [OF assms session_inv_start])
  have "unat (sw_sent (st_window st)) - unat (sw_acknowledged (st_window st)) \<le> 32 \<and>
       unat (st_received st) - unat (st_written st) \<le> 32 \<and> length (st_incoming st) \<le> 33"
    if "map_of (se_streams s) sid = Some st" for sid st
  proof -
    have "stream_ok (se_client s) (pend sid (se_events s)) st" by (rule session_inv_stream(1) [OF inv that])
    then show ?thesis
      using length_queue [of "st_incoming st"]
      by (auto simp: stream_ok_def sw_inv_def split: if_splits)
  qed
  moreover have "unat (se_last_id s) \<le> 1024"
    using inv by (simp add: session_inv_def ids_ok_def MAX_IDS_def word_le_nat_alt)
  ultimately show ?thesis
    using inv session_inv_stream [OF inv] by (auto simp: session_inv_def MAX_STREAMS_def)
qed

text \<open>
  C11. The loop never loses track of its own state: no turn of a reachable session ends with an
  internal error (a missing stream or reply, a write count out of order, an unexpected connect
  completion), and the queue towards a writer never overflows. A queue error has a single
  cause, a writer task that has already gone.
\<close>

theorem session_no_internal_fault:
  assumes "session_run cr (session_start client k p sample now) ts s"
    and "session_turn cr t0 t s = Inl e"
  shows "\<not> internal_fault e \<and> (queue_fault e \<longrightarrow> writer_gone s)"
  by (rule session_turn_fault [OF session_run_inv [OF assms(1) session_inv_start] assms(2)])

text \<open>
  C12. Stream identifiers are never reused: once an identifier is closed no continuation of the
  session has a stream or a pending connection under it, whatever the peer sends.
\<close>

theorem session_no_resurrection:
  assumes "session_run cr (session_start client k p sample now) ts s"
    and "sid \<in> se_closed s" and "session_run cr s ts' s'"
  shows "sid \<in> se_closed s' \<and> map_of (se_streams s') sid = None \<and> sid \<notin> se_connecting s'"
proof -
  have "session_inv s" by (rule session_run_inv [OF assms(1) session_inv_start])
  then have inv: "session_inv s'" by (rule session_run_inv [OF assms(3)])
  have closed: "sid \<in> se_closed s'" using session_run_closed [OF assms(3)] assms(2) by blast
  have "map_of (se_streams s') sid = None"
    using session_inv_stream(4) [OF inv, of sid] closed by (cases "map_of (se_streams s') sid") auto
  moreover have "sid \<notin> se_connecting s'" using inv closed by (auto simp: session_inv_def ids_ok_def)
  ultimately show ?thesis using closed by blast
qed

text \<open>
  C9. Constant rate: a tick writes exactly one frame of 8192 bytes to the link, whether it
  carries a control, data, an acknowledgement or nothing, and no other turn writes anything, so
  the instants and sizes of the frames do not depend on the traffic of the streams.
\<close>

theorem session_constant_rate:
  assumes "crypto_ok cr" and "\<forall>te. t = Tick te \<longrightarrow> length (te_rnd te) = 32"
    and "session_turn cr t0 t s = Inr p"
  shows "(case t of Tick te \<Rightarrow> \<exists>w. wires p = [w] \<and> length w = ONION_CELL_SIZE | _ \<Rightarrow> wires p = [])"
  using assms on_tick_wires [OF assms(1)] quiet_wires on_frame_wires
  by (auto simp: session_turn_def split: turn.splits if_splits list.splits) (auto simp: wires_def)


text \<open>
  C14. Packing is lossless: the data cells taken from a stream carry exactly its queued bytes, in
  order, none empty and none larger than a payload; as many turns as there are bytes suffice to
  empty the queue.
\<close>

theorem packing_lossless:
  assumes "og_wf og" and "length (og_bytes og) \<le> n"
  shows "case drain n og of (ds, og') \<Rightarrow>
    concat ds = og_bytes og \<and> og_bytes og' = [] \<and> (\<forall>d \<in> set ds. d \<noteq> [] \<and> length d \<le> PAYLOAD_SIZE)"
  using drain_spec [OF assms] by (cases "drain n og") auto

interpretation prof: payload_codec "\<lambda>_. True" "\<lambda>p. Inr (Profile_encode p) :: unit + bytes" Profile_decode
proof
  fix p
  show "\<exists>bs. (Inr (Profile_encode p) :: unit + bytes) = Inr bs \<and> Profile_decode bs = Inr p"
    by (cases p) (simp_all add: Profile_decode_def)
qed

section \<open>Witnesses\<close>

text \<open>
  A client session over a circuit with no hops; one application asks for a stream, a second
  later a tick sends the request, another request is refused by the budget check of the port.
\<close>

definition client0 :: session where
  "client0 = session_start True (CryptoClient (OnionCircuit_new 5)) Balanced 0 0"

definition tick1 :: tick_env where
  "tick1 = \<lparr>te_now = 40000000, te_after = 40000001, te_rnd = replicate 32 0, te_written = True,
     te_sample = 0, te_gone = []\<rparr>"

definition client1 :: session where
  "client1 = (push_control (SessionOpen, 1, [1, 97, 0, 80])
     (put_stream 1 (attach\<lparr>st_ready := False, st_reply := True, st_application := True\<rparr>)
       (client0\<lparr>se_last_id := 1\<rparr>)))\<lparr>se_activity := 7\<rparr>"

lemma port_80: "to_be 2 (80 :: u16) = [0, 80]"
  by (simp add: to_be_2)

lemma client1_turn: "session_turn xor_crypto 0 (OpenRequest 7 [97] 80) client0 = Inr (Running client1 [])"
  by (simp add: session_turn_def client0_def client1_def session_start_def on_open_def encode_relay_target_def
      Let_def size_defs port_80)

lemma client1_run: "session_run xor_crypto client0 [OpenRequest 7 [97] 80] client1"
  using run_turn [OF run_start client1_turn] by simp

theorem session_bounded_witness:
  "session_run xor_crypto client0 [OpenRequest 7 [97] 80] client1 \<and> length (se_streams client1) \<le> 16"
  using client1_run session_bounded [OF client1_run [unfolded client0_def]] by linarith

theorem session_no_internal_fault_witness:
  "session_turn xor_crypto 0 LinkClosed client1 = Inl (Invalid ''Padded session truncated'') \<and>
   \<not> internal_fault (Invalid ''Padded session truncated'')"
proof -
  have "session_turn xor_crypto 0 LinkClosed client1 = Inl (Invalid ''Padded session truncated'')"
    by (simp add: session_turn_def client1_def client0_def session_start_def push_control_def put_stream_def size_defs)
  with session_no_internal_fault [OF client1_run [unfolded client0_def] this] show ?thesis by blast
qed

definition client2 :: session where
  "client2 = push_control (SessionReset, 1, []) (drop_stream 1 (client1\<lparr>se_events := []\<rparr>))"

lemma client2_run: "session_run xor_crypto client0 [OpenRequest 7 [97] 80, WorkerEvent] client2"
proof -
  have r: "reader_step 1 ReadError client1 = push_event (Failed 1) (put_stream 1
      (attach\<lparr>st_ready := False, st_reply := True, st_application := True,
        st_outgoing := \<lparr>og_queue = [], og_open = False, og_pending = None\<rparr>\<rparr>) client1)" (is "_ = ?s")
    by (simp add: reader_step_def client1_def client0_def session_start_def push_control_def put_stream_def attach_def)
  have "session_turn xor_crypto 0 WorkerEvent ?s = Inr (Running client2 [])"
    by (simp add: session_turn_def client2_def client1_def client0_def session_start_def push_control_def
        put_stream_def push_event_def drop_stream_def on_event_def bt_remove_def size_defs)
  from run_turn [OF run_reader [OF client1_run, of 1 ReadError, unfolded r] this] show ?thesis by simp
qed

theorem session_no_resurrection_witness:
  "1 \<in> se_closed client2 \<and> map_of (se_streams client2) 1 = None"
proof -
  have "1 \<in> se_closed client2" by (simp add: client2_def)
  with session_no_resurrection [OF client2_run [unfolded client0_def] this run_start] show ?thesis by blast
qed


definition outgoing_a :: Outgoing where
  "outgoing_a = \<lparr>og_queue = [[1, 2], [3]], og_open = True, og_pending = Some [0]\<rparr>"

lemma pack_numeral:
  "pack (numeral n) data q =
    (if length data = PAYLOAD_SIZE then (data, q, None)
     else case q of
         [] \<Rightarrow> (data, [], None)
       | nxt # q' \<Rightarrow>
           let avail = PAYLOAD_SIZE - length data in
           if length nxt > avail then (data @ take avail nxt, q', Some (drop avail nxt))
           else pack (pred_numeral n) (data @ nxt) q')"
  by (subst numeral_eq_Suc, subst pack.simps) (rule refl)

theorem packing_lossless_witness:
  "fst (drain (Suc (Suc (Suc (Suc 0)))) outgoing_a) = [[0, 1, 2, 3]] \<and>
   concat (fst (drain (Suc (Suc (Suc (Suc 0)))) outgoing_a)) = og_bytes outgoing_a"
proof -
  have "fst (drain (Suc (Suc (Suc (Suc 0)))) outgoing_a) = [[0, 1, 2, 3]]"
    by (simp add: outgoing_a_def try_next_def pack_numeral QUEUE_def PAYLOAD_SIZE_eq Let_def)
  moreover have "og_wf outgoing_a" "length (og_bytes outgoing_a) \<le> Suc (Suc (Suc (Suc 0)))"
    by (simp_all add: outgoing_a_def og_wf_def og_bytes_def chunk_ok_def PAYLOAD_SIZE_eq)
  note packing_lossless [OF this]
  ultimately show ?thesis by (auto split: prod.splits)
qed

lemma tick1_turn: "\<exists>p. session_turn xor_crypto 0 (Tick tick1) client0 = Inr p"
  by (simp add: session_turn_def client0_def session_start_def tick1_def on_tick_def finish_due_def can_finish_def
      Let_def size_defs request_finish_def select_cell_def first_control_def stream_or_control_def pop_control_def
      Crypto_outgoing_def OnionCell_new_def wrap_forward_def OnionCircuit_new_def checked_add_def
      next_deadline_def interval_def)

theorem session_constant_rate_witness:
  "crypto_ok xor_crypto \<and> (\<exists>p w. session_turn xor_crypto 0 (Tick tick1) client0 = Inr p \<and>
     wires p = [w] \<and> length w = ONION_CELL_SIZE)"
proof -
  obtain p where p: "session_turn xor_crypto 0 (Tick tick1) client0 = Inr p" using tick1_turn by blast
  from session_constant_rate [OF crypto_ok_xor _ p] p crypto_ok_xor show ?thesis by (auto simp: tick1_def)
qed

end
