(* ===== verification/Multipath.thy ===== *)
theory Multipath
  imports Cell Containers
begin

text \<open>
  Sequencing over several circuits: the slicer and the reassembler of
  \<open>src/src/onion/multipath.rs\<close>. The buffer of the reassembler is an ordered map; the loop that
  empties it after each packet is \<open>pop_all\<close>.
\<close>

section \<open>Definitions\<close>

definition MULTIPATH_HEADER_SIZE :: nat where [size_defs]: "MULTIPATH_HEADER_SIZE = 8"
definition MULTIPATH_SEQ_GAP :: u64 where [size_defs]: "MULTIPATH_SEQ_GAP = 100000"
definition MAX_BUFFERED_ENTRIES :: nat where [size_defs]: "MAX_BUFFERED_ENTRIES = 10000"

record MultiPathSlicer =
  sl_next_seq :: u64

definition MultiPathSlicer_new :: MultiPathSlicer where
  "MultiPathSlicer_new = \<lparr>sl_next_seq = 0\<rparr>"

datatype slice_error = PacketExceedsCapacity | MultipathSequenceExhausted

text \<open>\<open>out\<close> is the output buffer; the result is the new slicer, the buffer and the length used.\<close>

definition slice_data ::
  "MultiPathSlicer \<Rightarrow> bytes \<Rightarrow> bytes \<Rightarrow> slice_error + (MultiPathSlicer \<times> bytes \<times> nat)" where
  "slice_data sl data out =
    (let len = length data + MULTIPATH_HEADER_SIZE in
     if len > PAYLOAD_SIZE \<or> len > length out then Inl PacketExceedsCapacity
     else case checked_add (sl_next_seq sl) 1 of
       None \<Rightarrow> Inl MultipathSequenceExhausted
     | Some nxt \<Rightarrow>
         Inr (sl\<lparr>sl_next_seq := nxt\<rparr>, put 8 data (put 0 (to_be 8 (sl_next_seq sl)) out), 8 + length data))"

record MultiPathReassembler =
  ra_next :: u64
  ra_buffer :: "(u64 \<times> bytes) list"

definition MultiPathReassembler_new :: MultiPathReassembler where
  "MultiPathReassembler_new = \<lparr>ra_next = 0, ra_buffer = []\<rparr>"

definition receive :: "MultiPathReassembler \<Rightarrow> bytes \<Rightarrow> MultiPathReassembler \<times> bytes option" where
  "receive ra payload =
    (if length payload < MULTIPATH_HEADER_SIZE \<or> length payload > PAYLOAD_SIZE then (ra, None)
     else
       let seq = from_be (subslice 0 8 payload) in
       if seq < ra_next ra \<or> seq = - 1 then (ra, None)
       else if seq - ra_next ra > MULTIPATH_SEQ_GAP then (ra, None)
       else if seq = ra_next ra then
         (ra\<lparr>ra_next := ra_next ra + 1, ra_buffer := bt_remove seq (ra_buffer ra)\<rparr>,
          Some (case map_of (ra_buffer ra) seq of Some d \<Rightarrow> d | None \<Rightarrow> drop 8 payload))
       else if map_of (ra_buffer ra) seq \<noteq> None \<or> length (ra_buffer ra) \<ge> MAX_BUFFERED_ENTRIES
       then (ra, None)
       else (ra\<lparr>ra_buffer := bt_insert seq (drop 8 payload) (ra_buffer ra)\<rparr>, None))"

definition pop_next_buffered :: "MultiPathReassembler \<Rightarrow> MultiPathReassembler \<times> bytes option" where
  "pop_next_buffered ra =
    (case map_of (ra_buffer ra) (ra_next ra) of
       Some d \<Rightarrow> (ra\<lparr>ra_next := ra_next ra + 1, ra_buffer := bt_remove (ra_next ra) (ra_buffer ra)\<rparr>, Some d)
     | None \<Rightarrow> (ra, None))"

lemma bt_remove_shorter: "map_of m k = Some v \<Longrightarrow> length (bt_remove k m) < length m"
  by (induction m) (auto simp: bt_remove_def less_Suc_eq_le split: if_splits intro: le_less_trans [OF length_filter_le])

text \<open>\<open>while let Some(d) = reassembler.pop_next_buffered()\<close>: each pass removes an entry.\<close>

function pop_all :: "MultiPathReassembler \<Rightarrow> MultiPathReassembler \<times> bytes list" where
  "pop_all ra =
    (case pop_next_buffered ra of
       (ra', None) \<Rightarrow> (ra', [])
     | (ra', Some d) \<Rightarrow> (let (ra'', ds) = pop_all ra' in (ra'', d # ds)))"
  by pat_completeness auto
termination
  by (relation "measure (\<lambda>ra. length (ra_buffer ra))")
    (auto simp: pop_next_buffered_def dest: bt_remove_shorter split: option.splits)

declare pop_all.simps [simp del]

lemma pop_all_None: "pop_next_buffered ra = (ra', None) \<Longrightarrow> pop_all ra = (ra', [])"
  by (subst pop_all.simps) simp

lemma pop_all_Some:
  "pop_next_buffered ra = (ra', Some d) \<Longrightarrow> pop_all ra = (let (ra'', ds) = pop_all ra' in (ra'', d # ds))"
  by (subst pop_all.simps) simp

text \<open>One received packet and what is written to the application for it.\<close>

definition deliver :: "MultiPathReassembler \<Rightarrow> bytes \<Rightarrow> MultiPathReassembler \<times> bytes list" where
  "deliver ra payload =
    (let (ra', first) = receive ra payload; (ra'', rest) = pop_all ra'
     in (ra'', (case first of None \<Rightarrow> [] | Some d \<Rightarrow> [d]) @ rest))"

fun deliver_all :: "MultiPathReassembler \<Rightarrow> bytes list \<Rightarrow> MultiPathReassembler \<times> bytes list" where
  "deliver_all ra [] = (ra, [])"
| "deliver_all ra (p # ps) =
    (let (ra', ds) = deliver ra p; (ra'', es) = deliver_all ra' ps in (ra'', ds @ es))"

text \<open>The packets a slicer makes of a list of chunks.\<close>

fun slice_all :: "MultiPathSlicer \<Rightarrow> bytes list \<Rightarrow> slice_error + bytes list" where
  "slice_all sl [] = Inr []"
| "slice_all sl (c # cs) =
    (case slice_data sl c (replicate PAYLOAD_SIZE 0) of
       Inl e \<Rightarrow> Inl e
     | Inr (sl', out, n) \<Rightarrow> ebind (slice_all sl' cs) (\<lambda>ps. Inr (take n out # ps)))"

section \<open>Packets\<close>

definition packet :: "nat \<Rightarrow> bytes \<Rightarrow> bytes" where
  "packet i d = to_be 8 (of_nat i :: u64) @ d"

definition chunk_fits :: "bytes \<Rightarrow> bool" where
  "chunk_fits d \<longleftrightarrow> length d + 8 \<le> PAYLOAD_SIZE"

lemma slice_data_packet:
  assumes "chunk_fits d" and "i + 1 < 2 ^ 64"
  shows "\<exists>out. slice_data \<lparr>sl_next_seq = of_nat i\<rparr> d (replicate PAYLOAD_SIZE 0) =
    Inr (\<lparr>sl_next_seq = of_nat (i + 1)\<rparr>, out, 8 + length d) \<and> take (8 + length d) out = packet i d"
proof -
  have "unat (of_nat i :: u64) = i" using assms(2) by (simp add: unat_of_nat)
  then have "checked_add (of_nat i :: u64) 1 = Some (of_nat (i + 1))"
    using assms(2) by (simp add: checked_add_def)
  moreover have "take (8 + length d) (put 8 d (put 0 (to_be 8 (of_nat i :: u64)) (replicate PAYLOAD_SIZE 0))) = packet i d"
    by (simp add: put_def packet_def)
  ultimately show ?thesis
    using assms(1) by (simp add: slice_data_def chunk_fits_def MULTIPATH_HEADER_SIZE_def Let_def)
qed

lemma slice_all_packets:
  assumes "\<forall>c \<in> set cs. chunk_fits c" and "i + length cs < 2 ^ 64"
  shows "slice_all \<lparr>sl_next_seq = of_nat i\<rparr> cs = Inr (map2 packet [i ..< i + length cs] cs)"
  using assms
proof (induction cs arbitrary: i)
  case Nil
  then show ?case by simp
next
  case (Cons c cs)
  from Cons.prems obtain out where
    "slice_data \<lparr>sl_next_seq = of_nat i\<rparr> c (replicate PAYLOAD_SIZE 0) =
      Inr (\<lparr>sl_next_seq = of_nat (i + 1)\<rparr>, out, 8 + length c)" "take (8 + length c) out = packet i c"
    using slice_data_packet [of c i] by auto
  moreover have "slice_all \<lparr>sl_next_seq = of_nat (i + 1)\<rparr> cs = Inr (map2 packet [i + 1 ..< i + 1 + length cs] cs)"
    using Cons.prems by (intro Cons.IH) simp_all
  moreover have "[i ..< i + length (c # cs)] = i # [i + 1 ..< i + 1 + length cs]"
    using upt_conv_Cons [of i "i + length (c # cs)"] by (simp del: upt_Suc)
  ultimately show ?case by simp
qed

lemma packet_fields:
  assumes "i < 2 ^ 64"
  shows "unat (from_be (subslice 0 8 (packet i d)) :: u64) = i" "drop 8 (packet i d) = d"
    "length (packet i d) = 8 + length d"
  using assms by (simp_all add: packet_def subslice_def be_inverse unat_of_nat)

section \<open>The invariant of reassembly\<close>

text \<open>
  Relative to the chunks \<open>cs\<close> the sender cut: what was written so far is the prefix of length
  \<open>ra_next\<close>, and the buffer holds later chunks under their own numbers.
\<close>

definition ra_ok :: "bytes list \<Rightarrow> bytes list \<Rightarrow> MultiPathReassembler \<Rightarrow> bool" where
  "ra_ok cs out ra \<longleftrightarrow> bt_wf (ra_buffer ra) \<and> unat (ra_next ra) \<le> length cs \<and>
     out = take (unat (ra_next ra)) cs \<and>
     (\<forall>q d. map_of (ra_buffer ra) q = Some d \<longrightarrow>
        unat (ra_next ra) \<le> unat q \<and> unat q < length cs \<and> d = cs ! unat q)"

text \<open>The numbers received so far: those written and those buffered.\<close>

definition known :: "MultiPathReassembler \<Rightarrow> nat set" where
  "known ra = {..< unat (ra_next ra)} \<union> unat ` dom (map_of (ra_buffer ra))"

lemma ra_ok_new: "ra_ok cs [] MultiPathReassembler_new" "known MultiPathReassembler_new = {}"
  by (simp_all add: ra_ok_def known_def MultiPathReassembler_new_def)

lemma unat_next: "unat q < length cs \<Longrightarrow> length cs < 2 ^ 64 \<Longrightarrow> unat (q + 1 :: u64) = unat q + 1"
  by (simp add: unat_word_ariths)

text \<open>Writing the chunk numbered \<open>ra_next\<close>.\<close>

lemma ra_ok_write:
  assumes ok: "ra_ok cs out ra" and len: "length cs < 2 ^ 64" and next_lt: "unat (ra_next ra) < length cs"
  shows "ra_ok cs (out @ [cs ! unat (ra_next ra)])
      (ra\<lparr>ra_next := ra_next ra + 1, ra_buffer := bt_remove (ra_next ra) (ra_buffer ra)\<rparr>)"
    "known (ra\<lparr>ra_next := ra_next ra + 1, ra_buffer := bt_remove (ra_next ra) (ra_buffer ra)\<rparr>) =
      insert (unat (ra_next ra)) (known ra)"
proof -
  let ?n = "ra_next ra" and ?b = "ra_buffer ra"
  have wf: "bt_wf ?b" and out: "out = take (unat ?n) cs"
    and buf: "\<And>q d. map_of ?b q = Some d \<Longrightarrow> unat ?n \<le> unat q \<and> unat q < length cs \<and> d = cs ! unat q"
    using ok by (auto simp: ra_ok_def)
  have n: "unat (?n + 1) = unat ?n + 1" by (rule unat_next [OF next_lt len])
  have "unat ?n + 1 \<le> unat q" if "map_of ?b q = Some d" "q \<noteq> ?n" for q d
  proof -
    have "unat ?n \<noteq> unat q" using that(2) by (metis unsigned_word_eqI)
    with buf [OF that(1)] show ?thesis by simp
  qed
  then show "ra_ok cs (out @ [cs ! unat ?n]) (ra\<lparr>ra_next := ?n + 1, ra_buffer := bt_remove ?n ?b\<rparr>)"
    using buf next_lt
    by (auto simp: ra_ok_def bt_wf_remove [OF wf] n bt_get_remove out take_Suc_conv_app_nth split: if_splits)
  have "unat ` (dom (map_of ?b) - {?n}) \<union> {unat ?n} = unat ` dom (map_of ?b) \<union> {unat ?n}" by auto
  then show "known (ra\<lparr>ra_next := ?n + 1, ra_buffer := bt_remove ?n ?b\<rparr>) = insert (unat ?n) (known ra)"
    by (auto simp: known_def n bt.get_del [OF wf] lessThan_Suc)
qed

lemma pop_next_ok:
  assumes ok: "ra_ok cs out ra" and len: "length cs < 2 ^ 64" and p: "pop_next_buffered ra = (ra', res)"
  shows "ra_ok cs (out @ (case res of None \<Rightarrow> [] | Some d \<Rightarrow> [d])) ra' \<and> known ra' = known ra"
proof (cases "map_of (ra_buffer ra) (ra_next ra)")
  case None
  with p ok show ?thesis by (auto simp: pop_next_buffered_def)
next
  case (Some d)
  with ok have d: "unat (ra_next ra) < length cs" "d = cs ! unat (ra_next ra)" by (auto simp: ra_ok_def)
  have "unat (ra_next ra) \<in> known ra" using Some by (force simp: known_def)
  moreover have "ra' = ra\<lparr>ra_next := ra_next ra + 1, ra_buffer := bt_remove (ra_next ra) (ra_buffer ra)\<rparr>"
    "res = Some d"
    using Some p by (simp_all add: pop_next_buffered_def)
  ultimately show ?thesis
    using ra_ok_write [OF ok len d(1)] by (simp add: insert_absorb d(2))
qed

lemma pop_all_ok:
  assumes "ra_ok cs out ra" and "length cs < 2 ^ 64" and "pop_all ra = (ra', ds)"
  shows "ra_ok cs (out @ ds) ra' \<and> known ra' = known ra \<and> map_of (ra_buffer ra') (ra_next ra') = None"
  using assms(1,3)
proof (induction ra arbitrary: out ds rule: pop_all.induct)
  case (1 ra)
  obtain ra1 o1 where p: "pop_next_buffered ra = (ra1, o1)" by fastforce
  note step = pop_next_ok [OF "1.prems"(1) assms(2) p]
  show ?case
  proof (cases o1)
    case None
    then have "ra1 = ra" "map_of (ra_buffer ra) (ra_next ra) = None"
      using p by (auto simp: pop_next_buffered_def split: option.splits)
    moreover have "ra' = ra1" "ds = []" using "1.prems"(2) pop_all_None [OF p [unfolded None]] by simp_all
    ultimately show ?thesis using "1.prems"(1) by simp
  next
    case (Some d)
    obtain ds1 where "pop_all ra1 = (ra', ds1)" "ds = d # ds1"
      using "1.prems"(2) pop_all_Some [OF p [unfolded Some]] by (auto split: prod.splits)
    with "1.IH" [OF p [symmetric] Some, of "out @ [d]" ds1] step Some show ?thesis by simp
  qed
qed

text \<open>
  A packet of the sender is either written, buffered, already known, or dropped because of a
  limit; the last cannot happen while at most \<open>MAX_BUFFERED_ENTRIES\<close> chunks are outstanding.
\<close>

lemma receive_ok:
  assumes ok: "ra_ok cs out ra" and len: "length cs < 2 ^ 64" and i: "i < length cs" and fit: "chunk_fits (cs ! i)"
    and r: "receive ra (packet i (cs ! i)) = (ra', res)"
  shows "ra_ok cs (out @ (case res of None \<Rightarrow> [] | Some d \<Rightarrow> [d])) ra' \<and> known ra' \<subseteq> insert i (known ra)"
    and "length cs \<le> 10000 \<Longrightarrow> known ra' = insert i (known ra)"
proof -
  let ?p = "packet i (cs ! i)" and ?n = "ra_next ra" and ?b = "ra_buffer ra"
  define q :: u64 where "q = from_be (subslice 0 8 ?p)"
  have lt: "i < 2 ^ 64" using i len by simp
  have q: "unat q = i" and d: "drop 8 ?p = cs ! i" and l: "length ?p = 8 + length (cs ! i)"
    using packet_fields [OF lt, of "cs ! i"] by (simp_all add: q_def)
  have nmax: "q \<noteq> - 1"
  proof
    assume "q = - 1"
    then have "unat q = 2 ^ 64 - 1" by (simp add: unsigned_minus_1_eq_mask mask_eq_exp_minus_1)
    with q i len show False by simp
  qed
  have wf: "bt_wf ?b" using ok by (simp add: ra_ok_def)
  have r': "receive ra ?p =
    (if q < ?n then (ra, None)
     else if q - ?n > MULTIPATH_SEQ_GAP then (ra, None)
     else if q = ?n then (ra\<lparr>ra_next := ?n + 1, ra_buffer := bt_remove q ?b\<rparr>,
          Some (case map_of ?b q of Some d \<Rightarrow> d | None \<Rightarrow> cs ! i))
     else if map_of ?b q \<noteq> None \<or> length ?b \<ge> MAX_BUFFERED_ENTRIES then (ra, None)
     else (ra\<lparr>ra_buffer := bt_insert q (cs ! i) ?b\<rparr>, None))"
    using nmax fit unfolding receive_def q_def [symmetric] d
    by (simp add: l chunk_fits_def MULTIPATH_HEADER_SIZE_def)
  have in_known: "i \<in> known ra" if "q < ?n \<or> map_of ?b q \<noteq> None"
    using that q by (force simp: known_def word_less_nat_alt)
  have same: "(case map_of ?b q of Some d \<Rightarrow> d | None \<Rightarrow> cs ! i) = cs ! i"
    using ok q by (cases "map_of ?b q") (auto simp: ra_ok_def)
  have ins: "ra_ok cs out (ra\<lparr>ra_buffer := bt_insert q (cs ! i) ?b\<rparr>)"
      "known (ra\<lparr>ra_buffer := bt_insert q (cs ! i) ?b\<rparr>) = insert i (known ra)" if "\<not> q < ?n"
  proof -
    have "unat ?n \<le> i" using that q by (simp add: word_less_nat_alt)
    then show "ra_ok cs out (ra\<lparr>ra_buffer := bt_insert q (cs ! i) ?b\<rparr>)"
      using ok q i by (simp add: ra_ok_def bt.wf_ins [OF wf] bt.get_ins [OF wf])
    show "known (ra\<lparr>ra_buffer := bt_insert q (cs ! i) ?b\<rparr>) = insert i (known ra)"
      using q by (simp add: known_def bt.get_ins [OF wf])
  qed
  have wr: "ra_ok cs (out @ [cs ! i]) (ra\<lparr>ra_next := ?n + 1, ra_buffer := bt_remove q ?b\<rparr>)"
      "known (ra\<lparr>ra_next := ?n + 1, ra_buffer := bt_remove q ?b\<rparr>) = insert i (known ra)" if "q = ?n"
    using ra_ok_write [OF ok len] that q i by simp_all
  show "ra_ok cs (out @ (case res of None \<Rightarrow> [] | Some d \<Rightarrow> [d])) ra' \<and> known ra' \<subseteq> insert i (known ra)"
  proof (cases "q = ?n")
    case True
    with r r' same have "(ra' = ra \<and> res = None) \<or>
        (ra' = ra\<lparr>ra_next := ?n + 1, ra_buffer := bt_remove q ?b\<rparr> \<and> res = Some (cs ! i))"
      by (simp split: if_splits)
    with wr [OF True] ok show ?thesis by auto
  next
    case False
    with r r' have "(ra' = ra \<and> res = None) \<or>
        (\<not> q < ?n \<and> ra' = ra\<lparr>ra_buffer := bt_insert q (cs ! i) ?b\<rparr> \<and> res = None)"
      by (simp split: if_splits)
    with ins ok show ?thesis by auto
  qed
  assume small: "length cs \<le> 10000"
  have gap: "\<not> q - ?n > MULTIPATH_SEQ_GAP" if "\<not> q < ?n"
    using that q i small by (simp add: MULTIPATH_SEQ_GAP_def word_less_nat_alt unat_sub_if')
  have room: "length ?b < MAX_BUFFERED_ENTRIES" if "map_of ?b q = None"
  proof -
    have "unat ` dom (map_of ?b) \<subseteq> {..< length cs} - {i}"
    proof
      fix j assume "j \<in> unat ` dom (map_of ?b)"
      then obtain p d where p: "j = unat p" "map_of ?b p = Some d" by auto
      with that q have "j \<noteq> i" by (metis option.distinct(1) unsigned_word_eqI)
      with p ok show "j \<in> {..< length cs} - {i}" by (simp add: ra_ok_def)
    qed
    then have "card (unat ` dom (map_of ?b)) \<le> card ({..< length cs} - {i})"
      by (intro card_mono) auto
    moreover have "card (unat ` dom (map_of ?b)) = length ?b"
      by (subst card_image) (auto simp: bt_length [OF wf] inj_on_def intro: unsigned_word_eqI)
    ultimately show ?thesis using small i by (simp add: MAX_BUFFERED_ENTRIES_def)
  qed
  show "known ra' = insert i (known ra)"
  proof (cases "q < ?n \<or> map_of ?b q \<noteq> None")
    case True
    then have abs: "insert i (known ra) = known ra" using in_known by (simp add: insert_absorb)
    show ?thesis
    proof (cases "q = ?n")
      case True
      with r r' gap same wr [OF True] show ?thesis by simp
    next
      case False
      with \<open>q < ?n \<or> _\<close> r r' abs show ?thesis by (auto split: if_splits)
    qed
  next
    case False
    with r r' gap room ins wr same show ?thesis by (auto split: if_splits)
  qed
qed

lemma deliver_ok:
  assumes ok: "ra_ok cs out ra" and len: "length cs < 2 ^ 64" and i: "i < length cs" and fit: "chunk_fits (cs ! i)"
    and d: "deliver ra (packet i (cs ! i)) = (ra', ds)"
  shows "ra_ok cs (out @ ds) ra'" "map_of (ra_buffer ra') (ra_next ra') = None"
    "length cs \<le> 10000 \<Longrightarrow> known ra' = insert i (known ra)"
proof -
  obtain ra1 res where r: "receive ra (packet i (cs ! i)) = (ra1, res)" by fastforce
  obtain rest where p: "pop_all ra1 = (ra', rest)" and ds: "ds = (case res of None \<Rightarrow> [] | Some d \<Rightarrow> [d]) @ rest"
    using d r by (auto simp: deliver_def split: prod.splits)
  note r1 = receive_ok [OF ok len i fit r]
  from pop_all_ok [OF conjunct1 [OF r1(1)] len p] r1(2)
  show "ra_ok cs (out @ ds) ra'" "map_of (ra_buffer ra') (ra_next ra') = None"
    "length cs \<le> 10000 \<Longrightarrow> known ra' = insert i (known ra)"
    by (simp_all add: ds)
qed

lemma deliver_all_ok:
  assumes "ra_ok cs out ra" and "length cs < 2 ^ 64" and "\<forall>c \<in> set cs. chunk_fits c"
    and "set ps \<subseteq> {packet i (cs ! i) | i. i < length cs}"
    and "map_of (ra_buffer ra) (ra_next ra) = None"
    and "deliver_all ra ps = (ra', ds)"
  shows "ra_ok cs (out @ ds) ra' \<and> map_of (ra_buffer ra') (ra_next ra') = None \<and>
    (length cs \<le> 10000 \<longrightarrow> known ra' = known ra \<union> {i. i < length cs \<and> packet i (cs ! i) \<in> set ps})"
  using assms(1,4-6)
proof (induction ps arbitrary: ra out ds)
  case Nil
  then show ?case by simp
next
  case (Cons p ps)
  then obtain i where i: "i < length cs" and p: "p = packet i (cs ! i)" by auto
  obtain ra1 ds1 where d: "deliver ra p = (ra1, ds1)" by fastforce
  obtain es where e: "deliver_all ra1 ps = (ra', es)" and ds: "ds = ds1 @ es"
    using Cons.prems(4) d by (auto split: prod.splits)
  have fit: "chunk_fits (cs ! i)" using assms(3) i by simp
  note s = deliver_ok [OF Cons.prems(1) assms(2) i fit d [unfolded p]]
  have inj: "j = i" if "j < length cs" "packet j (cs ! j) = p" for j
    using packet_fields(1) [of i "cs ! i"] packet_fields(1) [of j "cs ! j"] that i assms(2) p by simp
  have "j < length cs \<and> packet j (cs ! j) \<in> set (p # ps) \<longleftrightarrow>
      j = i \<or> j < length cs \<and> packet j (cs ! j) \<in> set ps" for j
  proof (cases "j = i")
    case True
    with i p show ?thesis by simp
  next
    case False
    then have "j < length cs \<Longrightarrow> packet j (cs ! j) \<noteq> p" using inj by blast
    with False show ?thesis by auto
  qed
  then have "{j. j < length cs \<and> packet j (cs ! j) \<in> set (p # ps)} =
      insert i {j. j < length cs \<and> packet j (cs ! j) \<in> set ps}"
    by blast
  with Cons.IH [OF s(1) _ s(2) e] Cons.prems(2) s(3) show ?case by (simp add: ds)
qed

section \<open>Properties\<close>



end
