(* ===== verification/MultipathRouter.thy ===== *)
theory MultipathRouter
  imports Multipath OnionPath
begin

text \<open>
  The client side of a multipath connection, \<open>src/src/gateway/multipath_router.rs\<close>: the forward
  task cuts the application's bytes into packets and sends one cell per tick over the path with
  the least load, the backward task collects cells from all paths and reassembles. Both share
  the circuits. Reads, write results and random draws are arguments of the steps.
\<close>

section \<open>The forward task\<close>

record mp_router =
  mp_circuits :: "OnionCircuit list"
  mp_slicer :: MultiPathSlicer
  mp_seqs :: "u32 list"
  mp_loads :: "nat list"
  mp_buffer :: bytes
  mp_open :: bool
  mp_reasm :: MultiPathReassembler
  mp_partial :: "bytes list"

definition mp_start :: "nat \<Rightarrow> OnionCircuit list \<Rightarrow> mp_router option" where
  "mp_start num_paths circuits =
    (if num_paths = 0 \<or> length circuits \<noteq> num_paths then None
     else Some \<lparr>mp_circuits = circuits, mp_slicer = MultiPathSlicer_new, mp_seqs = replicate num_paths 2,
                mp_loads = replicate num_paths 0, mp_buffer = [], mp_open = True,
                mp_reasm = MultiPathReassembler_new, mp_partial = replicate num_paths []\<rparr>)"

text \<open>\<open>None\<close> is an end of file or an error of the application's socket.\<close>

definition mp_client_read :: "bytes option \<Rightarrow> mp_router \<Rightarrow> mp_router" where
  "mp_client_read r s =
    (if mp_open s \<and> length (mp_buffer s) < 65536 then
       (case r of None \<Rightarrow> s\<lparr>mp_open := False\<rparr> | Some [] \<Rightarrow> s\<lparr>mp_open := False\<rparr>
        | Some data \<Rightarrow> s\<lparr>mp_buffer := mp_buffer s @ data\<rparr>)
     else s)"

text \<open>The scan for the least loaded path: index, best index, best load, remaining loads.\<close>

fun least_loaded :: "nat \<Rightarrow> nat \<Rightarrow> nat \<Rightarrow> nat list \<Rightarrow> nat" where
  "least_loaded i best min_load [] = best"
| "least_loaded i best min_load (l # ls) =
    (if l < min_load then least_loaded (i + 1) i l ls else least_loaded (i + 1) best min_load ls)"

definition select_path :: "nat list \<Rightarrow> nat" where
  "select_path loads = least_loaded 0 0 (2 ^ 64 - 1) loads"

datatype mp_forward = MpStop | MpSend nat bytes mp_router

definition mp_tick :: "crypto \<Rightarrow> bytes \<Rightarrow> mp_router \<Rightarrow> mp_forward" where
  "mp_tick cr rnd s =
    (if \<not> mp_open s \<and> mp_buffer s = [] then MpStop
     else
       let sliced = (if mp_buffer s = [] then Some (s, Dummy, replicate PAYLOAD_SIZE 0)
             else
               let n = min (length (mp_buffer s)) (PAYLOAD_SIZE - MULTIPATH_HEADER_SIZE) in
               case slice_data (mp_slicer s) (take n (mp_buffer s)) (replicate PAYLOAD_SIZE 0) of
                 Inl _ \<Rightarrow> None
               | Inr (sl, out, len) \<Rightarrow>
                   Some (s\<lparr>mp_slicer := sl, mp_buffer := drop n (mp_buffer s)\<rparr>, Data, take len out))
       in case sliced of
            None \<Rightarrow> MpStop
          | Some (s, cmd, data) \<Rightarrow>
              let c = select_path (mp_loads s);
                  s = s\<lparr>mp_loads := (mp_loads s)[c := mp_loads s ! c + 1]\<rparr>;
                  seq = mp_seqs s ! c;
                  s = s\<lparr>mp_seqs := (mp_seqs s)[c := seq + 1]\<rparr>
              in case OnionCell_new rnd (oc_circuit_id (mp_circuits s ! c)) seq cmd 1 data of
                   Inl _ \<Rightarrow> MpStop
                 | Inr cell \<Rightarrow>
                     (case wrap_forward cr (mp_circuits s ! c) cell of
                        Inl _ \<Rightarrow> MpStop
                      | Inr (oc, _, wire) \<Rightarrow> MpSend c wire (s\<lparr>mp_circuits := (mp_circuits s)[c := oc]\<rparr>)))"

section \<open>The backward task\<close>

text \<open>
  \<open>wok\<close> says whether the application accepts writes: a failed write of a packet in order ends
  the task, a failed write in the inner loop ends that loop only.
\<close>

datatype mp_backward = MpEnd | MpGo mp_router "bytes list"

definition mp_on_data :: "bool \<Rightarrow> bytes \<Rightarrow> mp_router \<Rightarrow> mp_backward" where
  "mp_on_data wok data s =
    (let (ra, first) = receive (mp_reasm s) data in
     if first \<noteq> None \<and> \<not> wok then MpEnd
     else if wok then
       (let (ra', rest) = pop_all ra
        in MpGo (s\<lparr>mp_reasm := ra'\<rparr>) ((case first of None \<Rightarrow> [] | Some d \<Rightarrow> [d]) @ rest))
     else MpGo (s\<lparr>mp_reasm := fst (pop_next_buffered ra)\<rparr>) [])"

text \<open>One read of path \<open>i\<close>: \<open>None\<close> is an error or the idle timeout, no bytes the end of file.\<close>

definition mp_upstream_read :: "crypto \<Rightarrow> bool \<Rightarrow> nat \<Rightarrow> bytes option \<Rightarrow> mp_router \<Rightarrow> mp_backward" where
  "mp_upstream_read cr wok i r s =
    (case r of
       None \<Rightarrow> MpEnd
     | Some chunk \<Rightarrow>
         if chunk = [] then MpEnd
         else
           let buf = mp_partial s ! i @ chunk in
           if length buf \<noteq> ONION_CELL_SIZE then MpGo (s\<lparr>mp_partial := (mp_partial s)[i := buf]\<rparr>) []
           else
             let s = s\<lparr>mp_partial := (mp_partial s)[i := []]\<rparr>;
                 (oc, res) = unwrap_backward cr (mp_circuits s ! i) buf;
                 s = s\<lparr>mp_circuits := (mp_circuits s)[i := oc]\<rparr>
             in case res of
                  Inl _ \<Rightarrow> MpEnd
                | Inr (_, cell) \<Rightarrow>
                    if cell_command cell = Data
                    then mp_on_data wok (take (min (unat (cell_length cell)) (length (cell_payload cell))) (cell_payload cell)) s
                    else if cell_command cell = Destroy then MpEnd
                    else MpGo s [])"

section \<open>Load balance\<close>

lemma least_loaded_spec:
  assumes "best < i \<or> i = 0 \<and> (\<forall>l \<in> set ls. l < min_load) \<and> ls \<noteq> []"
  shows "\<exists>b. least_loaded i best min_load ls = b \<and>
    ((b = best \<and> (\<forall>l \<in> set ls. min_load \<le> l)) \<or>
     (i \<le> b \<and> b - i < length ls \<and> (\<forall>l \<in> set ls. ls ! (b - i) \<le> l) \<and> ls ! (b - i) < min_load))"
  using assms
proof (induction i best min_load ls rule: least_loaded.induct)
  case (2 i best min_load l ls)
  show ?case
  proof (cases "l < min_load")
    case True
    from "2.IH"(1) [OF True] obtain b where b: "least_loaded (i + 1) i l ls = b"
      and c: "(b = i \<and> (\<forall>k \<in> set ls. l \<le> k)) \<or>
        (i + 1 \<le> b \<and> b - (i + 1) < length ls \<and> (\<forall>k \<in> set ls. ls ! (b - (i + 1)) \<le> k) \<and> ls ! (b - (i + 1)) < l)"
      by auto
    have "(l # ls) ! (b - i) = ls ! (b - (i + 1))" if "i + 1 \<le> b"
      using that by (simp add: nth_Cons')
    then show ?thesis using True b c by (auto simp: less_diff_conv)
  next
    case False
    with "2.prems" have "best < i" by auto
    from "2.IH"(2) [OF False] \<open>best < i\<close> obtain b where b: "least_loaded (i + 1) best min_load ls = b"
      and c: "(b = best \<and> (\<forall>k \<in> set ls. min_load \<le> k)) \<or>
        (i + 1 \<le> b \<and> b - (i + 1) < length ls \<and> (\<forall>k \<in> set ls. ls ! (b - (i + 1)) \<le> k) \<and> ls ! (b - (i + 1)) < min_load)"
      by auto
    have "(l # ls) ! (b - i) = ls ! (b - (i + 1))" if "i + 1 \<le> b"
      using that by (simp add: nth_Cons')
    then show ?thesis using False b c by (auto simp: less_diff_conv)
  qed
qed simp

lemma select_path_least:
  assumes "loads \<noteq> []" and "\<forall>l \<in> set loads. l < 2 ^ 64 - 1"
  shows "select_path loads < length loads" "\<forall>l \<in> set loads. loads ! select_path loads \<le> l"
proof -
  from least_loaded_spec [of 0 0 loads "2 ^ 64 - 1"] assms
  have "(select_path loads = 0 \<and> (\<forall>l \<in> set loads. 2 ^ 64 - 1 \<le> l)) \<or>
      (select_path loads < length loads \<and> (\<forall>l \<in> set loads. loads ! select_path loads \<le> l))"
    by (auto simp: select_path_def)
  moreover have "\<not> (\<forall>l \<in> set loads. 2 ^ 64 - 1 \<le> l)"
    using assms by (cases loads) auto
  ultimately show "select_path loads < length loads" "\<forall>l \<in> set loads. loads ! select_path loads \<le> l"
    by blast+
qed

text \<open>Loads that differ by at most one.\<close>

definition balanced :: "nat list \<Rightarrow> bool" where
  "balanced loads \<longleftrightarrow> (\<forall>a \<in> set loads. \<forall>b \<in> set loads. a \<le> b + 1)"

lemma balanced_step:
  assumes "balanced loads" and "c < length loads" and "\<forall>l \<in> set loads. loads ! c \<le> l"
  shows "balanced (loads[c := loads ! c + 1])"
proof -
  have up: "x = loads ! c + 1 \<or> x \<in> set loads" if "x \<in> set (loads[c := loads ! c + 1])" for x
    using that set_update_subset_insert by fastforce
  have "x \<le> y + 1" if x: "x \<in> set (loads[c := loads ! c + 1])" and y: "y \<in> set (loads[c := loads ! c + 1])" for x y
    using up [OF x] up [OF y] assms(1,3) nth_mem [OF assms(2)] by (auto simp: balanced_def intro: le_SucI)
  then show ?thesis by (simp add: balanced_def)
qed

text \<open>The steps of the two tasks in any order, with the number of cells sent.\<close>

inductive mp_steps :: "crypto \<Rightarrow> mp_router \<Rightarrow> nat \<Rightarrow> mp_router \<Rightarrow> bool" for cr s0 where
  mp_init: "mp_steps cr s0 0 s0"
| mp_read: "mp_steps cr s0 n s \<Longrightarrow> mp_steps cr s0 n (mp_client_read r s)"
| mp_send: "mp_steps cr s0 n s \<Longrightarrow> mp_tick cr rnd s = MpSend i wire s' \<Longrightarrow> mp_steps cr s0 (n + 1) s'"
| mp_back: "mp_steps cr s0 n s \<Longrightarrow> mp_upstream_read cr wok i r s = MpGo s' out \<Longrightarrow> mp_steps cr s0 n s'"

lemma mp_client_read_loads [simp]: "mp_loads (mp_client_read r s) = mp_loads s"
  by (simp add: mp_client_read_def split: option.splits list.splits)

lemma mp_upstream_read_loads: "mp_upstream_read cr wok i r s = MpGo s' out \<Longrightarrow> mp_loads s' = mp_loads s"
  by (auto simp: mp_upstream_read_def mp_on_data_def Let_def split: option.splits if_splits sum.splits prod.splits)

lemma mp_tick_loads:
  assumes "mp_tick cr rnd s = MpSend i wire s'"
  shows "i = select_path (mp_loads s) \<and> mp_loads s' = (mp_loads s)[i := mp_loads s ! i + 1]"
  using assms
  by (auto simp: mp_tick_def Let_def split: if_splits option.splits sum.splits prod.splits)

lemma mp_steps_loads:
  assumes "mp_steps cr s0 n s" and "mp_loads s0 = replicate k 0" and "0 < k" and "n < 2 ^ 64 - 1"
  shows "balanced (mp_loads s) \<and> sum_list (mp_loads s) = n \<and> length (mp_loads s) = k"
  using assms(1,4)
proof (induction rule: mp_steps.induct)
  case mp_init
  then show ?case using assms(2) by (simp add: balanced_def)
next
  case (mp_send n s rnd i wire s')
  have IH: "balanced (mp_loads s)" "sum_list (mp_loads s) = n" "length (mp_loads s) = k"
    using mp_send by simp_all
  have bound: "\<forall>l \<in> set (mp_loads s). l < 2 ^ 64 - 1"
    using mp_send.prems IH(2) member_le_sum_list [of _ "mp_loads s"] by fastforce
  have "mp_loads s \<noteq> []" using IH(3) assms(3) by auto
  note sp = select_path_least [OF this bound]
  have t: "i = select_path (mp_loads s)" "mp_loads s' = (mp_loads s)[i := mp_loads s ! i + 1]"
    using mp_tick_loads [OF mp_send.hyps(2)] by auto
  have "balanced (mp_loads s')" using balanced_step [OF IH(1) sp] t by simp
  moreover have "sum_list (mp_loads s') = n + 1"
    using sp(1) IH(2) elem_le_sum_list [OF sp(1)] by (simp add: t sum_list_update)
  ultimately show ?case by (simp add: t IH)
next
  case (mp_back n s wok i r s' out)
  then show ?case using mp_upstream_read_loads [OF mp_back.hyps(2)] by simp
qed simp

section \<open>Properties\<close>

text \<open>
  Load balancing: after any interleaving of reads, ticks and received cells, the numbers of
  cells sent over any two paths differ by at most one and add up to the ticks that sent.
\<close>

theorem multipath_balanced:
  assumes "mp_start k circuits = Some s0" and "mp_steps cr s0 n s" and "n < 2 ^ 64 - 1"
  shows "balanced (mp_loads s) \<and> sum_list (mp_loads s) = n \<and> length (mp_loads s) = k"
proof -
  have "mp_loads s0 = replicate k 0" "0 < k" using assms(1) by (auto simp: mp_start_def split: if_splits)
  then show ?thesis by (rule mp_steps_loads [OF assms(2) _ _ assms(3)])
qed

definition router2 :: mp_router where
  "router2 = \<lparr>mp_circuits = [OnionCircuit_new 1, OnionCircuit_new 2], mp_slicer = MultiPathSlicer_new,
     mp_seqs = [2, 2], mp_loads = [0, 0], mp_buffer = [], mp_open = True,
     mp_reasm = MultiPathReassembler_new, mp_partial = [[], []]\<rparr>"

theorem multipath_balanced_witness:
  "\<exists>i wire s. mp_tick xor_crypto (replicate 32 0) router2 = MpSend i wire s \<and> balanced (mp_loads s) \<and>
     sum_list (mp_loads s) = 1"
proof -
  have "select_path [0, 0] = 0" by (simp add: select_path_def)
  then obtain i wire s where t: "mp_tick xor_crypto (replicate 32 0) router2 = MpSend i wire s"
    by (simp add: mp_tick_def router2_def Let_def OnionCell_new_def wrap_forward_def OnionCircuit_new_def
        checked_add_def)
  have "mp_start 2 [OnionCircuit_new 1, OnionCircuit_new 2] = Some router2"
    by (simp add: mp_start_def router2_def numeral_2_eq_2)
  from multipath_balanced [OF this mp_send [OF mp_init t]] t show ?thesis by auto
qed

end
