(* ===== verification/Net.thy ===== *)
theory Net
  imports Strings
begin

text \<open>
  Network addresses of the standard library: \<open>IpAddr\<close> with its octets, the mapped and
  compatible IPv4 forms, and the textual parser \<open>IpAddr::from_str\<close>.
\<close>

datatype IpAddr =
    V4 u8 u8 u8 u8
  | V6 u16 u16 u16 u16 u16 u16 u16 u16

fun v6_octets :: "IpAddr \<Rightarrow> bytes" where
  "v6_octets (V6 a b c d e f g h) =
     to_be 2 a @ to_be 2 b @ to_be 2 c @ to_be 2 d @ to_be 2 e @ to_be 2 f @ to_be 2 g @ to_be 2 h"
| "v6_octets (V4 a b c d) = []"

definition hi8 :: "u16 \<Rightarrow> u8" where "hi8 w = ucast (drop_bit 8 w)"
definition lo8 :: "u16 \<Rightarrow> u8" where "lo8 w = ucast w"

fun to_ipv4_mapped :: "IpAddr \<Rightarrow> IpAddr option" where
  "to_ipv4_mapped (V6 a b c d e f g h) =
    (if a = 0 \<and> b = 0 \<and> c = 0 \<and> d = 0 \<and> e = 0 \<and> f = 0xFFFF
     then Some (V4 (hi8 g) (lo8 g) (hi8 h) (lo8 h)) else None)"
| "to_ipv4_mapped (V4 a b c d) = None"

text \<open>\<open>Ipv6Addr::to_ipv4\<close>: the mapped and the compatible form.\<close>

fun to_ipv4 :: "IpAddr \<Rightarrow> IpAddr option" where
  "to_ipv4 (V6 a b c d e f g h) =
    (if a = 0 \<and> b = 0 \<and> c = 0 \<and> d = 0 \<and> e = 0 \<and> (f = 0 \<or> f = 0xFFFF)
     then Some (V4 (hi8 g) (lo8 g) (hi8 h) (lo8 h)) else None)"
| "to_ipv4 (V4 a b c d) = None"

section \<open>The textual parser\<close>

text \<open>A parser returns what it read and the rest of the input; on \<open>None\<close> nothing is consumed.\<close>

type_synonym 'a parser = "bytes \<Rightarrow> ('a \<times> bytes) option"

definition to_digit :: "int \<Rightarrow> u8 \<Rightarrow> int option" where
  "to_digit radix c =
    (let n = uint c;
         d = (if 48 \<le> n \<and> n \<le> 57 then n - 48
              else if 97 \<le> n \<and> n \<le> 122 then n - 87
              else if 65 \<le> n \<and> n \<le> 90 then n - 55 else 99)
     in if d < radix then Some d else None)"

definition read_given_char :: "char \<Rightarrow> unit parser" where
  "read_given_char c bs = (case bs of b # rest \<Rightarrow> if b = of_char c then Some ((), rest) else None | [] \<Rightarrow> None)"

text \<open>
  The loop of \<open>read_number\<close>: \<open>n\<close> digits read so far with value \<open>acc\<close>, at most \<open>maxd\<close> digits, values
  up to \<open>bound\<close> of the integer type.
\<close>

fun read_digits :: "int \<Rightarrow> nat \<Rightarrow> int \<Rightarrow> nat \<Rightarrow> int \<Rightarrow> bytes \<Rightarrow> (nat \<times> int \<times> bytes) option" where
  "read_digits radix maxd bound n acc [] = Some (n, acc, [])"
| "read_digits radix maxd bound n acc (b # bs) =
    (case to_digit radix b of
       None \<Rightarrow> Some (n, acc, b # bs)
     | Some d \<Rightarrow>
         if acc * radix + d > bound \<or> n + 1 > maxd then None
         else read_digits radix maxd bound (n + 1) (acc * radix + d) bs)"

definition read_number :: "int \<Rightarrow> nat \<Rightarrow> int \<Rightarrow> bool \<Rightarrow> int parser" where
  "read_number radix maxd bound allow_zero_prefix bs =
    (case read_digits radix maxd bound 0 0 bs of
       None \<Rightarrow> None
     | Some (n, acc, rest) \<Rightarrow>
         if n = 0 then None
         else if \<not> allow_zero_prefix \<and> hd bs = of_char (CHR ''0'') \<and> n > 1 then None
         else Some (acc, rest))"

definition read_separator :: "char \<Rightarrow> nat \<Rightarrow> 'a parser \<Rightarrow> 'a parser" where
  "read_separator sep i inner bs =
    (if i > 0 then case read_given_char sep bs of None \<Rightarrow> None | Some (_, rest) \<Rightarrow> inner rest
     else inner bs)"

fun read_v4_groups :: "nat \<Rightarrow> nat \<Rightarrow> u8 list \<Rightarrow> (u8 list) parser" where
  "read_v4_groups 0 i acc bs = Some (rev acc, bs)"
| "read_v4_groups (Suc k) i acc bs =
    (case read_separator (CHR ''.'') i (read_number 10 3 255 False) bs of
       None \<Rightarrow> None
     | Some (x, rest) \<Rightarrow> read_v4_groups k (i + 1) (of_int x # acc) rest)"

definition read_ipv4_addr :: "(u8 list) parser" where
  "read_ipv4_addr bs = read_v4_groups 4 0 [] bs"

text \<open>\<open>read_groups\<close>: up to \<open>limit\<close> groups of sixteen bits, and whether the last two are an IPv4 address.\<close>

fun read_groups :: "nat \<Rightarrow> nat \<Rightarrow> u16 list \<Rightarrow> bytes \<Rightarrow> u16 list \<times> bool \<times> bytes" where
  "read_groups 0 i acc bs = (rev acc, False, bs)"
| "read_groups (Suc k) i acc bs =
    (case (if k > 0 then read_separator (CHR '':'') i read_ipv4_addr bs else None) of
       Some (v4, rest) \<Rightarrow>
         (rev acc @ [from_be (take 2 v4), from_be (drop 2 v4)], True, rest)
     | None \<Rightarrow>
         (case read_separator (CHR '':'') i (read_number 16 4 65535 True) bs of
            Some (g, rest) \<Rightarrow> read_groups k (i + 1) (of_int g # acc) rest
          | None \<Rightarrow> (rev acc, False, bs)))"

definition read_ipv6_addr :: "(u16 list) parser" where
  "read_ipv6_addr bs =
    (let (front, has_v4, rest) = read_groups 8 0 [] bs in
     if length front = 8 then Some (front, rest)
     else if has_v4 then None
     else case read_given_char (CHR '':'') rest of None \<Rightarrow> None
     | Some (_, rest) \<Rightarrow>
       (case read_given_char (CHR '':'') rest of None \<Rightarrow> None
        | Some (_, rest) \<Rightarrow>
            let (tail, _, rest) = read_groups (8 - (length front + 1)) 0 [] rest
            in Some (front @ replicate (8 - length front - length tail) 0 @ tail, rest)))"

definition v4_of :: "u8 list \<Rightarrow> IpAddr" where
  "v4_of o4 = V4 (o4 ! 0) (o4 ! 1) (o4 ! 2) (o4 ! 3)"

definition v6_of :: "u16 list \<Rightarrow> IpAddr" where
  "v6_of s = V6 (s ! 0) (s ! 1) (s ! 2) (s ! 3) (s ! 4) (s ! 5) (s ! 6) (s ! 7)"

text \<open>\<open>Ipv4Addr::from_str\<close>, \<open>Ipv6Addr::from_str\<close> and \<open>IpAddr::from_str\<close>: all of the input is read.\<close>

definition parse_ipv4 :: "bytes \<Rightarrow> IpAddr option" where
  "parse_ipv4 s =
    (if length s > 15 then None
     else case read_ipv4_addr s of Some (o4, []) \<Rightarrow> Some (v4_of o4) | _ \<Rightarrow> None)"

definition parse_ipv6 :: "bytes \<Rightarrow> IpAddr option" where
  "parse_ipv6 s = (case read_ipv6_addr s of Some (g, []) \<Rightarrow> Some (v6_of g) | _ \<Rightarrow> None)"

definition parse_ip :: "bytes \<Rightarrow> IpAddr option" where
  "parse_ip s =
    (case read_ipv4_addr s of
       Some (o4, rest) \<Rightarrow> if rest = [] then Some (v4_of o4) else None
     | None \<Rightarrow> parse_ipv6 s)"

lemma parse_ip_samples:
  "parse_ip (ascii ''192.0.2.7'') = Some (V4 192 0 2 7)"
  "parse_ip (ascii ''192.0.02.7'') = None"
  "parse_ip (ascii ''::ffff:10.0.0.1'') = Some (V6 0 0 0 0 0 0xFFFF 0x0A00 1)"
  "parse_ip (ascii ''2001:db8::1'') = Some (V6 0x2001 0xDB8 0 0 0 0 0 1)"
  "parse_ip (ascii ''::'') = Some (V6 0 0 0 0 0 0 0 0)"
  "parse_ip (ascii ''1.2.3.4.5'') = None"
  by code_simp+

lemma read_v4_groups_length: "read_v4_groups k i acc bs = Some (g, rest) \<Longrightarrow> length g = k + length acc"
  by (induction k i acc bs rule: read_v4_groups.induct) (auto split: option.splits)

text \<open>\<open>trim_start_matches('[').trim_end_matches(']')\<close>.\<close>

definition trim_brackets :: "bytes \<Rightarrow> bytes" where
  "trim_brackets s =
    rev (dropWhile (\<lambda>b. b = of_char (CHR '']'')) (rev (dropWhile (\<lambda>b. b = of_char (CHR ''['')) s)))"

section \<open>The textual form\<close>

text \<open>\<open>Display\<close> of an address: decimal octets, or the groups in hexadecimal with the longest run of at
  least two zero groups, the first of the longest, written as a double colon.\<close>

fun digits :: "nat \<Rightarrow> int \<Rightarrow> int \<Rightarrow> bytes" where
  "digits 0 radix x = []"
| "digits (Suc k) radix x =
    (if x < radix then [] else digits k radix (x div radix)) @
    [of_int (let d = x mod radix in if d < 10 then 48 + d else 87 + d)]"

definition join :: "bytes \<Rightarrow> bytes list \<Rightarrow> bytes" where
  "join sep parts = concat (case parts of [] \<Rightarrow> [] | p # ps \<Rightarrow> p # concat (map (\<lambda>q. [sep, q]) ps))"

fun longest_zeros :: "nat \<Rightarrow> nat \<times> nat \<Rightarrow> nat \<times> nat \<Rightarrow> u16 list \<Rightarrow> nat \<times> nat" where
  "longest_zeros i cur best [] = best"
| "longest_zeros i cur best (s # ss) =
    (if s = 0 then
       let cur = (if snd cur = 0 then i else fst cur, snd cur + 1)
       in longest_zeros (i + 1) cur (if snd cur > snd best then cur else best) ss
     else longest_zeros (i + 1) (0, 0) best ss)"

fun ip_to_string :: "IpAddr \<Rightarrow> bytes" where
  "ip_to_string (V4 a b c d) = join (ascii ''.'') (map (\<lambda>x. digits 3 10 (uint x)) [a, b, c, d])"
| "ip_to_string (V6 a b c d e f g h) =
    (case to_ipv4_mapped (V6 a b c d e f g h) of
       Some (V4 w x y z) \<Rightarrow> ascii ''::ffff:'' @ join (ascii ''.'') (map (\<lambda>x. digits 3 10 (uint x)) [w, x, y, z])
     | _ \<Rightarrow>
       let segs = [a, b, c, d, e, f, g, h];
           show_groups = (\<lambda>gs. join (ascii '':'') (map (\<lambda>x. digits 4 16 (uint x)) gs));
           (start, len) = longest_zeros 0 (0, 0) (0, 0) segs
       in if len > 1 then show_groups (take start segs) @ ascii ''::'' @ show_groups (drop (start + len) segs)
          else show_groups segs)"

lemma ip_to_string_samples:
  "ip_to_string (V4 192 0 2 7) = ascii ''192.0.2.7''"
  "ip_to_string (V6 0x2001 0xDB8 0 0 1 0 0 1) = ascii ''2001:db8::1:0:0:1''"
  "ip_to_string (V6 0 0 0 0 0 0 0 0) = ascii ''::''"
  "ip_to_string (V6 0 0 0 0 0 0xFFFF 0x0A00 1) = ascii ''::ffff:10.0.0.1''"
  "ip_to_string (V6 1 0 2 3 4 5 6 0xABCD) = ascii ''1:0:2:3:4:5:6:abcd''"
  by code_simp+

end
