(* ===== verification/Admission.thy ===== *)
theory Admission
  imports Net "HOL-Library.AList"
begin

text \<open>
  Admission of handshakes per source, \<open>src/src/mesh/admission.rs\<close>: the token bucket, the
  grouping of addresses, and the bounded table of sources with its sweep. Instants are
  nanoseconds. A permit is given back by \<open>release\<close>, which is the drop of the value
  \<open>try_admit\<close> returned.
\<close>

section \<open>Token bucket\<close>

record TokenBucket =
  tb_tokens :: nat
  tb_burst :: nat
  tb_refill :: nat
  tb_last :: nat

text \<open>\<open>None\<close> is the failed assertion.\<close>

definition TokenBucket_new :: "nat \<Rightarrow> nat \<Rightarrow> nat \<Rightarrow> TokenBucket option" where
  "TokenBucket_new burst refill now =
    (if burst > 0 \<and> refill > 0
     then Some \<lparr>tb_tokens = burst, tb_burst = burst, tb_refill = refill, tb_last = now\<rparr> else None)"

definition tb_available :: "nat \<Rightarrow> TokenBucket \<Rightarrow> TokenBucket \<times> bool" where
  "tb_available now b =
    (let elapsed = now - tb_last b;
         refill = elapsed div tb_refill b;
         b = (if refill \<ge> tb_burst b then b\<lparr>tb_tokens := tb_burst b, tb_last := now\<rparr>
              else if refill > 0 then
                b\<lparr>tb_tokens := min (min (tb_tokens b + refill) (2 ^ 32 - 1)) (tb_burst b),
                  tb_last := tb_last b + tb_refill b * refill\<rparr>
              else b)
     in (b, tb_tokens b > 0))"

definition tb_take :: "nat \<Rightarrow> TokenBucket \<Rightarrow> TokenBucket \<times> bool" where
  "tb_take now b =
    (let (b, ok) = tb_available now b in
     if \<not> ok then (b, False) else (b\<lparr>tb_tokens := tb_tokens b - 1\<rparr>, True))"

section \<open>Sources\<close>

definition SOURCE_SLOTS :: nat where [size_defs]: "SOURCE_SLOTS = 4"
definition SOURCE_BURST :: nat where [size_defs]: "SOURCE_BURST = 64"
definition SOURCE_REFILL :: nat where [size_defs]: "SOURCE_REFILL = 83334000"
definition SOURCE_IDLE :: nat where [size_defs]: "SOURCE_IDLE = 120000000000"
definition MAX_SOURCES :: nat where [size_defs]: "MAX_SOURCES = 4096"

datatype SourceGroup = GroupV4 bytes | GroupV6 bytes

fun source_group :: "IpAddr \<Rightarrow> SourceGroup" where
  "source_group (V4 a b c d) = GroupV4 [a, b, c, d]"
| "source_group (V6 a b c d e f g h) =
    (case to_ipv4_mapped (V6 a b c d e f g h) of
       Some (V4 w x y z) \<Rightarrow> GroupV4 [w, x, y, z]
     | _ \<Rightarrow> GroupV6 (take 8 (v6_octets (V6 a b c d e f g h))))"

record Source =
  so_slots :: nat
  so_rate :: TokenBucket
  so_seen :: nat

record SourceAdmission =
  sa_sources :: "(SourceGroup \<times> Source) list"
  sa_next_sweep :: "nat option"

definition SourceAdmission_new :: SourceAdmission where
  "SourceAdmission_new = \<lparr>sa_sources = [], sa_next_sweep = None\<rparr>"

definition keep_source :: "nat \<Rightarrow> Source \<Rightarrow> bool" where
  "keep_source now so \<longleftrightarrow> so_slots so \<noteq> SOURCE_SLOTS \<or> now - so_seen so < SOURCE_IDLE"

definition sweep :: "nat \<Rightarrow> SourceAdmission \<Rightarrow> SourceAdmission" where
  "sweep now sa = sa\<lparr>sa_sources := filter (\<lambda>(_, so). keep_source now so) (sa_sources sa),
     sa_next_sweep := Some (now + 1000000000)\<rparr>"

definition new_source :: "nat \<Rightarrow> Source" where
  "new_source now = \<lparr>so_slots = SOURCE_SLOTS,
     so_rate = \<lparr>tb_tokens = SOURCE_BURST, tb_burst = SOURCE_BURST, tb_refill = SOURCE_REFILL, tb_last = now\<rparr>,
     so_seen = now\<rparr>"

lemma new_source_bucket: "TokenBucket_new SOURCE_BURST SOURCE_REFILL now = Some (so_rate (new_source now))"
  by (simp add: TokenBucket_new_def new_source_def size_defs)

definition make_room :: "SourceGroup \<Rightarrow> nat \<Rightarrow> SourceAdmission \<Rightarrow> SourceAdmission" where
  "make_room g now sa =
    (if map_of (sa_sources sa) g = None \<and>
        (length (sa_sources sa) \<ge> MAX_SOURCES \<or> (case sa_next_sweep sa of None \<Rightarrow> True | Some t \<Rightarrow> now \<ge> t))
     then sweep now sa else sa)"

definition try_admit :: "IpAddr \<Rightarrow> nat \<Rightarrow> SourceAdmission \<Rightarrow> SourceAdmission \<times> bool" where
  "try_admit ip now sa =
    (let g = source_group ip;
         sa = make_room g now sa
     in if map_of (sa_sources sa) g = None \<and> length (sa_sources sa) \<ge> MAX_SOURCES then (sa, False)
     else
       let so = (case map_of (sa_sources sa) g of Some so \<Rightarrow> so | None \<Rightarrow> new_source now);
           sa = sa\<lparr>sa_sources := AList.update g so (sa_sources sa)\<rparr>
       in if so_slots so = 0 then (sa, False)
       else
         let (rate, ok) = tb_take now (so_rate so) in
         if \<not> ok then (sa\<lparr>sa_sources := AList.update g (so\<lparr>so_rate := rate\<rparr>) (sa_sources sa)\<rparr>, False)
         else (sa\<lparr>sa_sources := AList.update g (so\<lparr>so_rate := rate, so_slots := so_slots so - 1, so_seen := now\<rparr>)
                    (sa_sources sa)\<rparr>, True))"

definition release :: "SourceGroup \<Rightarrow> SourceAdmission \<Rightarrow> SourceAdmission" where
  "release g sa =
    (case map_of (sa_sources sa) g of
       None \<Rightarrow> sa
     | Some so \<Rightarrow> sa\<lparr>sa_sources := AList.update g (so\<lparr>so_slots := so_slots so + 1\<rparr>) (sa_sources sa)\<rparr>)"

section \<open>The bucket never gives more than its rate\<close>

text \<open>
  \<open>credit t0 n b\<close>: since \<open>t0\<close> the bucket has given \<open>n\<close> tokens and keeps at most what the
  elapsed time has earned on top of one burst.
\<close>

definition bucket_ok :: "TokenBucket \<Rightarrow> bool" where
  "bucket_ok b \<longleftrightarrow> 0 < tb_refill b \<and> tb_tokens b \<le> tb_burst b"

definition credit :: "nat \<Rightarrow> nat \<Rightarrow> TokenBucket \<Rightarrow> bool" where
  "credit t0 n b \<longleftrightarrow> bucket_ok b \<and> t0 \<le> tb_last b \<and> n + tb_tokens b \<le> tb_burst b + (tb_last b - t0) div tb_refill b"

lemma div_sum_le: "(a div k) + (b div k) \<le> (a + b) div (k :: nat)"
proof (cases "k = 0")
  case False
  have "k * (a div k) + k * (b div k) \<le> a + b" by (intro add_mono) simp_all
  then have "(k * (a div k + b div k)) div k \<le> (a + b) div k"
    by (intro div_le_mono) (simp only: distrib_left)
  with False show ?thesis by simp
qed simp

lemma available_credit:
  assumes c: "credit t0 n b" and now: "tb_last b \<le> now" and a: "tb_available now b = (b', ok)"
  shows "credit t0 n b'" "tb_last b' \<le> now" "tb_burst b' = tb_burst b" "tb_refill b' = tb_refill b"
    "ok \<longleftrightarrow> tb_tokens b' > 0" "tb_last b \<le> tb_last b'"
proof -
  let ?k = "tb_refill b" and ?r = "(now - tb_last b) div tb_refill b"
  have k: "0 < ?k" "tb_tokens b \<le> tb_burst b" "t0 \<le> tb_last b"
    and n: "n + tb_tokens b \<le> tb_burst b + (tb_last b - t0) div ?k"
    using c by (auto simp: credit_def bucket_ok_def)
  have le: "tb_last b + ?k * ?r \<le> now"
    using now times_div_less_eq_dividend [of ?k "now - tb_last b"] by linarith
  have sum: "(tb_last b - t0) div ?k + ?r \<le> (now - t0) div ?k"
    using div_sum_le [of "tb_last b - t0" ?k "now - tb_last b"] k(3) now by simp
  have add: "(tb_last b + ?k * ?r - t0) div ?k = (tb_last b - t0) div ?k + ?r"
  proof -
    have "tb_last b + ?k * ?r - t0 = (tb_last b - t0) + ?k * ?r" using k(3) by simp
    then show ?thesis using k(1) by simp
  qed
  consider "?r \<ge> tb_burst b" | "?r < tb_burst b" "0 < ?r" | "?r = 0" "?r < tb_burst b" by linarith
  then have "credit t0 n b' \<and> tb_last b' \<le> now \<and> tb_burst b' = tb_burst b \<and> tb_refill b' = tb_refill b
      \<and> (ok \<longleftrightarrow> tb_tokens b' > 0) \<and> tb_last b \<le> tb_last b'"
  proof cases
    case 1
    then have "b' = b\<lparr>tb_tokens := tb_burst b, tb_last := now\<rparr>" "ok \<longleftrightarrow> tb_burst b > 0"
      using a by (simp_all add: tb_available_def Let_def)
    with 1 k n now sum show ?thesis by (simp add: credit_def bucket_ok_def)
  next
    case 2
    define m where "m = min (min (tb_tokens b + ?r) (2 ^ 32 - 1)) (tb_burst b)"
    have m: "m \<le> tb_tokens b + ?r" "m \<le> tb_burst b" unfolding m_def by linarith+
    have "b' = b\<lparr>tb_tokens := m, tb_last := tb_last b + ?k * ?r\<rparr>" "ok \<longleftrightarrow> m > 0"
      using a 2 unfolding m_def by (simp_all add: tb_available_def Let_def)
    with m k n now le add show ?thesis by (simp add: credit_def bucket_ok_def)
  next
    case 3
    then have "b' = b \<and> (ok \<longleftrightarrow> tb_tokens b > 0)" using a by (auto simp: tb_available_def Let_def)
    with c now show ?thesis by simp
  qed
  then show "credit t0 n b'" "tb_last b' \<le> now" "tb_burst b' = tb_burst b" "tb_refill b' = tb_refill b"
    "ok \<longleftrightarrow> tb_tokens b' > 0" "tb_last b \<le> tb_last b'" by blast+
qed

lemma take_credit:
  assumes c: "credit t0 n b" and now: "tb_last b \<le> now" and a: "tb_take now b = (b', ok)"
  shows "credit t0 (if ok then n + 1 else n) b'" "tb_last b' \<le> now" "tb_burst b' = tb_burst b"
    "tb_refill b' = tb_refill b" "tb_last b \<le> tb_last b'"
proof -
  obtain b1 ok1 where b1: "tb_available now b = (b1, ok1)" by fastforce
  from available_credit [OF c now b1] a b1
  show "credit t0 (if ok then n + 1 else n) b'" "tb_last b' \<le> now" "tb_burst b' = tb_burst b"
    "tb_refill b' = tb_refill b" "tb_last b \<le> tb_last b'"
    by (auto simp: tb_take_def credit_def bucket_ok_def split: if_splits)
qed

text \<open>A take that fails leaves the bucket as it was.\<close>

lemma take_refused:
  assumes "tb_take now b = (b', False)" and "bucket_ok b" and "tb_burst b > 0"
  shows "b' = b"
  using assms by (auto simp: tb_take_def tb_available_def Let_def bucket_ok_def split: if_splits)

section \<open>Invariant of the table\<close>

text \<open>
  A run of the listener: attempts and releases in some order. \<open>held\<close> lists the permits that
  are out, \<open>given g\<close> how many the group \<open>g\<close> got since the start at \<open>t0\<close>. Instants of the
  monotonic clock do not decrease.
\<close>

record listener =
  li_sa :: SourceAdmission
  li_held :: "SourceGroup list"
  li_given :: "SourceGroup list"
  li_now :: nat

inductive listening :: "nat \<Rightarrow> listener \<Rightarrow> bool" for t0 :: nat where
  start: "listening t0 \<lparr>li_sa = SourceAdmission_new, li_held = [], li_given = [], li_now = t0\<rparr>"
| admitted: "listening t0 l \<Longrightarrow> li_now l \<le> now \<Longrightarrow> try_admit ip now (li_sa l) = (sa, True) \<Longrightarrow>
    listening t0 \<lparr>li_sa = sa, li_held = source_group ip # li_held l, li_given = source_group ip # li_given l,
      li_now = now\<rparr>"
| refused: "listening t0 l \<Longrightarrow> li_now l \<le> now \<Longrightarrow> try_admit ip now (li_sa l) = (sa, False) \<Longrightarrow>
    listening t0 (l\<lparr>li_sa := sa, li_now := now\<rparr>)"
| dropped: "listening t0 l \<Longrightarrow> g \<in> set (li_held l) \<Longrightarrow>
    listening t0 (l\<lparr>li_sa := release g (li_sa l), li_held := remove1 g (li_held l)\<rparr>)"
| swept: "listening t0 l \<Longrightarrow> li_now l \<le> now \<Longrightarrow>
    listening t0 (l\<lparr>li_sa := sweep now (li_sa l), li_now := now\<rparr>)"

text \<open>What the table says of one group with \<open>h\<close> permits out and \<open>n\<close> ever given.\<close>

definition entry_ok :: "nat \<Rightarrow> nat \<Rightarrow> nat \<Rightarrow> nat \<Rightarrow> Source option \<Rightarrow> bool" where
  "entry_ok t0 now h n e \<longleftrightarrow>
    (case e of
       None \<Rightarrow> h = 0 \<and> n \<le> (now - t0) div SOURCE_REFILL
     | Some so \<Rightarrow> so_slots so + h = SOURCE_SLOTS \<and> credit t0 n (so_rate so) \<and>
         tb_burst (so_rate so) = SOURCE_BURST \<and> tb_refill (so_rate so) = SOURCE_REFILL \<and>
         tb_last (so_rate so) \<le> so_seen so \<and> so_seen so \<le> now)"

definition table_ok :: "nat \<Rightarrow> nat \<Rightarrow> SourceGroup list \<Rightarrow> SourceGroup list \<Rightarrow> (SourceGroup \<times> Source) list \<Rightarrow> bool" where
  "table_ok t0 now held given t \<longleftrightarrow> t0 \<le> now \<and> distinct (map fst t) \<and> length t \<le> MAX_SOURCES \<and>
     (\<forall>g. entry_ok t0 now (count_list held g) (count_list given g) (map_of t g))"

lemma entry_later: "entry_ok t0 now h n e \<Longrightarrow> now \<le> now' \<Longrightarrow> entry_ok t0 now' h n e"
  by (cases e) (auto simp: entry_ok_def intro: order_trans [OF _ div_le_mono])

text \<open>An entry the sweep drops has earned its whole burst back.\<close>

lemma entry_forgotten:
  assumes e: "entry_ok t0 now h n (Some so)" and dropped: "\<not> keep_source now so"
  shows "entry_ok t0 now h n None"
proof -
  have so: "so_slots so + h = SOURCE_SLOTS" "so_slots so = SOURCE_SLOTS" "now - so_seen so \<ge> SOURCE_IDLE"
    "tb_last (so_rate so) \<le> so_seen so" "so_seen so \<le> now"
    and c: "t0 \<le> tb_last (so_rate so)" "n \<le> SOURCE_BURST + (tb_last (so_rate so) - t0) div SOURCE_REFILL"
    using e dropped by (auto simp: entry_ok_def keep_source_def credit_def)
  have "SOURCE_BURST * SOURCE_REFILL \<le> now - tb_last (so_rate so)" using so by (simp add: size_defs)
  then have "(SOURCE_BURST * SOURCE_REFILL) div SOURCE_REFILL + (tb_last (so_rate so) - t0) div SOURCE_REFILL
      \<le> (now - tb_last (so_rate so)) div SOURCE_REFILL + (tb_last (so_rate so) - t0) div SOURCE_REFILL"
    by (intro add_mono div_le_mono) simp_all
  also have "\<dots> \<le> (now - t0) div SOURCE_REFILL"
    using div_sum_le [of "now - tb_last (so_rate so)" SOURCE_REFILL "tb_last (so_rate so) - t0"] c(1) so by simp
  finally have "n \<le> (now - t0) div SOURCE_REFILL" using c(2) by (simp add: SOURCE_REFILL_def)
  with so show ?thesis by (simp add: entry_ok_def)
qed

lemma map_of_retain:
  "distinct (map fst t) \<Longrightarrow>
   map_of (filter (\<lambda>(_, v). P v) t) k = (case map_of t k of Some v \<Rightarrow> if P v then Some v else None | None \<Rightarrow> None)"
  by (induction t) (auto simp: map_of_eq_None_iff image_iff split: option.splits)

lemma sweep_ok:
  assumes "table_ok t0 now held given t"
  shows "table_ok t0 now held given (filter (\<lambda>(_, so). keep_source now so) t)"
proof -
  have e: "entry_ok t0 now (count_list held g) (count_list given g) (map_of t g)" for g
    using assms by (simp add: table_ok_def)
  have "entry_ok t0 now (count_list held g) (count_list given g)
      (map_of (filter (\<lambda>(_, so). keep_source now so) t) g)" for g
    using e [of g] assms by (cases "map_of t g") (auto simp: table_ok_def map_of_retain intro: entry_forgotten)
  with assms show ?thesis
    unfolding table_ok_def by (auto simp: distinct_map_filter intro: order_trans [OF length_filter_le])
qed

lemma update_ok:
  assumes "table_ok t0 now held given t" and "length (AList.update g so t) \<le> MAX_SOURCES"
    and "entry_ok t0 now (count_list held' g) (count_list given' g) (Some so)"
    and "\<And>g'. g' \<noteq> g \<Longrightarrow> count_list held' g' = count_list held g' \<and> count_list given' g' = count_list given g'"
  shows "table_ok t0 now held' given' (AList.update g so t)"
  using assms unfolding table_ok_def by (auto simp: update_conv' distinct_update)

lemma update_length: "length (AList.update k v t) = (if map_of t k = None then length t + 1 else length t)"
  by (induction t) auto

lemma make_room_ok:
  assumes "table_ok t0 now held given (sa_sources sa)"
  shows "table_ok t0 now held given (sa_sources (make_room g now sa))"
  using sweep_ok [OF assms] assms by (simp add: make_room_def sweep_def)

lemma new_source_ok: "t0 \<le> now \<Longrightarrow> entry_ok t0 now h n None \<Longrightarrow> entry_ok t0 now h n (Some (new_source now))"
  by (simp add: entry_ok_def new_source_def credit_def bucket_ok_def SOURCE_REFILL_def)

text \<open>An attempt on a group whose entry is \<open>so\<close>.\<close>

lemma attempt_ok:
  assumes e: "entry_ok t0 now h n (Some so)" and tk: "tb_take now (so_rate so) = (rate, ok)"
  shows "ok \<Longrightarrow> so_slots so > 0 \<Longrightarrow>
      entry_ok t0 now (h + 1) (n + 1) (Some (so\<lparr>so_rate := rate, so_slots := so_slots so - 1, so_seen := now\<rparr>))"
    and "\<not> ok \<Longrightarrow> entry_ok t0 now h n (Some (so\<lparr>so_rate := rate\<rparr>))"
proof -
  have so: "so_slots so + h = SOURCE_SLOTS" "credit t0 n (so_rate so)" "tb_burst (so_rate so) = SOURCE_BURST"
    "tb_refill (so_rate so) = SOURCE_REFILL" "tb_last (so_rate so) \<le> so_seen so" "so_seen so \<le> now"
    using e by (auto simp: entry_ok_def)
  have "tb_last (so_rate so) \<le> now" using so by linarith
  note t = take_credit [OF so(2) this tk]
  show "ok \<Longrightarrow> so_slots so > 0 \<Longrightarrow>
      entry_ok t0 now (h + 1) (n + 1) (Some (so\<lparr>so_rate := rate, so_slots := so_slots so - 1, so_seen := now\<rparr>))"
    using t so by (simp add: entry_ok_def)
  assume "\<not> ok"
  then have "rate = so_rate so"
    using take_refused [of now "so_rate so" rate] tk so by (simp add: credit_def size_defs)
  with e show "entry_ok t0 now h n (Some (so\<lparr>so_rate := rate\<rparr>))" by simp
qed

lemma try_admit_ok:
  assumes t: "table_ok t0 now held given (sa_sources sa)" and r: "try_admit ip now sa = (sa', ok)"
  shows "table_ok t0 now (if ok then source_group ip # held else held)
    (if ok then source_group ip # given else given) (sa_sources sa')"
proof -
  define g where "g = source_group ip"
  define s1 where "s1 = make_room g now sa"
  define so where "so = (case map_of (sa_sources s1) g of Some so \<Rightarrow> so | None \<Rightarrow> new_source now)"
  define s2 where "s2 = AList.update g so (sa_sources s1)"
  have t1: "table_ok t0 now held given (sa_sources s1)" unfolding s1_def by (rule make_room_ok [OF t])
  show ?thesis
  proof (cases "map_of (sa_sources s1) g = None \<and> length (sa_sources s1) \<ge> MAX_SOURCES")
    case True
    then have "sa' = s1 \<and> \<not> ok" using r by (auto simp: try_admit_def Let_def g_def s1_def)
    with t1 show ?thesis by simp
  next
    case False
    obtain rate tk where tk: "tb_take now (so_rate so) = (rate, tk)" by fastforce
    have e: "entry_ok t0 now (count_list held g) (count_list given g) (Some so)"
    proof -
      have "t0 \<le> now" "entry_ok t0 now (count_list held g) (count_list given g) (map_of (sa_sources s1) g)"
        using t1 by (simp_all add: table_ok_def)
      then show ?thesis unfolding so_def by (cases "map_of (sa_sources s1) g") (simp_all add: new_source_ok)
    qed
    have len: "length (AList.update g x (sa_sources s1)) \<le> MAX_SOURCES" for x
      using False t1 by (auto simp: update_length table_ok_def)
    have t2: "table_ok t0 now held given s2" unfolding s2_def by (rule update_ok [OF t1 len e]) simp
    have len2: "length (AList.update g x s2) \<le> MAX_SOURCES" for x
      using len [of so] by (simp add: s2_def update_length update_conv')
    have r': "(sa', ok) = (if so_slots so = 0 then (s1\<lparr>sa_sources := s2\<rparr>, False)
       else if \<not> tk then (s1\<lparr>sa_sources := AList.update g (so\<lparr>so_rate := rate\<rparr>) s2\<rparr>, False)
       else (s1\<lparr>sa_sources := AList.update g (so\<lparr>so_rate := rate, so_slots := so_slots so - 1, so_seen := now\<rparr>) s2\<rparr>, True))"
      using r False tk unfolding try_admit_def Let_def g_def [symmetric] s1_def [symmetric] so_def [symmetric] s2_def
      by (simp split: if_splits)
    consider "so_slots so = 0" | "so_slots so > 0" "\<not> tk" | "so_slots so > 0" tk by blast
    then show ?thesis
    proof cases
      case 1
      with r' t2 show ?thesis by simp
    next
      case 2
      have "table_ok t0 now held given (AList.update g (so\<lparr>so_rate := rate\<rparr>) s2)"
        by (rule update_ok [OF t2 len2 attempt_ok(2) [OF e tk 2(2)]]) simp
      with r' 2 show ?thesis by simp
    next
      case 3
      have "table_ok t0 now (g # held) (g # given)
          (AList.update g (so\<lparr>so_rate := rate, so_slots := so_slots so - 1, so_seen := now\<rparr>) s2)"
        using attempt_ok(1) [OF e tk 3(2,1)] by (intro update_ok [OF t2 len2]) simp_all
      with r' 3 show ?thesis by (simp add: g_def)
    qed
  qed
qed

lemma count_list_remove1: "count_list (remove1 x xs) y = (if x = y then count_list xs y - 1 else count_list xs y)"
  by (induction xs) (auto simp: count_list_0_iff Suc_leI neq0_conv [symmetric])

lemma release_ok:
  assumes t: "table_ok t0 now held given (sa_sources sa)" and g: "g \<in> set held"
  shows "table_ok t0 now (remove1 g held) given (sa_sources (release g sa))"
proof -
  have c: "count_list held g > 0" using g by (simp add: count_list_0_iff neq0_conv [symmetric])
  have e: "entry_ok t0 now (count_list held g) (count_list given g) (map_of (sa_sources sa) g)"
    using t by (simp add: table_ok_def)
  obtain so where so: "map_of (sa_sources sa) g = Some so"
    using e c by (cases "map_of (sa_sources sa) g") (auto simp: entry_ok_def)
  have len: "length (AList.update g x (sa_sources sa)) \<le> MAX_SOURCES" for x
    using t so by (simp add: update_length table_ok_def)
  have "table_ok t0 now (remove1 g held) given (AList.update g (so\<lparr>so_slots := so_slots so + 1\<rparr>) (sa_sources sa))"
    using e so c by (intro update_ok [OF t len]) (simp_all add: count_list_remove1 entry_ok_def)
  with so show ?thesis by (simp add: release_def)
qed

lemma table_later: "table_ok t0 now held given t \<Longrightarrow> now \<le> now' \<Longrightarrow> table_ok t0 now' held given t"
  unfolding table_ok_def by (auto intro: entry_later)

lemma listening_ok: "listening t0 l \<Longrightarrow> table_ok t0 (li_now l) (li_held l) (li_given l) (sa_sources (li_sa l))"
proof (induction rule: listening.induct)
  case start
  then show ?case by (simp add: table_ok_def entry_ok_def SourceAdmission_new_def)
next
  case (admitted l now ip sa)
  from try_admit_ok [OF table_later [OF admitted.IH admitted.hyps(2)] admitted.hyps(3)] show ?case by simp
next
  case (refused l now ip sa)
  from try_admit_ok [OF table_later [OF refused.IH refused.hyps(2)] refused.hyps(3)] show ?case by simp
next
  case (dropped l g)
  from release_ok [OF dropped.IH dropped.hyps(2)] show ?case by simp
next
  case (swept l now)
  from sweep_ok [OF table_later [OF swept.IH swept.hyps(2)]] show ?case by (simp add: sweep_def)
qed

text \<open>
  C22. Whatever the order of attempts, drops and sweeps, a source group holds at most four
  permits at once, the table never has more than 4096 sources, and in the time since the
  listener started a group is admitted at most 64 times plus once per 83.334 ms: evicting an
  idle entry and creating it anew gives no extra credit.
\<close>

theorem admission_bounded:
  assumes "listening t0 l"
  shows "count_list (li_held l) g \<le> SOURCE_SLOTS \<and>
    count_list (li_given l) g \<le> SOURCE_BURST + (li_now l - t0) div SOURCE_REFILL \<and>
    length (sa_sources (li_sa l)) \<le> MAX_SOURCES"
proof (intro conjI)
  have t: "table_ok t0 (li_now l) (li_held l) (li_given l) (sa_sources (li_sa l))" by (rule listening_ok [OF assms])
  then show "length (sa_sources (li_sa l)) \<le> MAX_SOURCES" by (simp add: table_ok_def)
  have e: "entry_ok t0 (li_now l) (count_list (li_held l) g) (count_list (li_given l) g) (map_of (sa_sources (li_sa l)) g)"
    using t by (simp add: table_ok_def)
  show "count_list (li_held l) g \<le> SOURCE_SLOTS"
    using e by (auto simp: entry_ok_def split: option.splits)
  show "count_list (li_given l) g \<le> SOURCE_BURST + (li_now l - t0) div SOURCE_REFILL"
  proof (cases "map_of (sa_sources (li_sa l)) g")
    case None
    with e show ?thesis by (simp add: entry_ok_def)
  next
    case (Some so)
    then have "count_list (li_given l) g \<le> SOURCE_BURST + (tb_last (so_rate so) - t0) div SOURCE_REFILL"
      "tb_last (so_rate so) \<le> li_now l" using e by (auto simp: entry_ok_def credit_def)
    moreover from this have "(tb_last (so_rate so) - t0) div SOURCE_REFILL \<le> (li_now l - t0) div SOURCE_REFILL"
      by (intro div_le_mono) simp
    ultimately show ?thesis by linarith
  qed
qed

definition one_admitted :: listener where
  "one_admitted = \<lparr>li_sa = fst (try_admit (V4 192 0 2 7) 5 SourceAdmission_new),
     li_held = [GroupV4 [192, 0, 2, 7]], li_given = [GroupV4 [192, 0, 2, 7]], li_now = 5\<rparr>"

lemma one_admitted_run: "listening 0 one_admitted"
proof -
  have "snd (try_admit (V4 192 0 2 7) 5 SourceAdmission_new)"
    by (simp add: try_admit_def make_room_def sweep_def SourceAdmission_new_def new_source_def tb_take_def
        tb_available_def Let_def size_defs)
  then have "try_admit (V4 192 0 2 7) 5 SourceAdmission_new = (fst (try_admit (V4 192 0 2 7) 5 SourceAdmission_new), True)"
    by (metis prod.collapse)
  with listening.admitted [OF listening.start, of 0 5 "V4 192 0 2 7" "fst (try_admit (V4 192 0 2 7) 5 SourceAdmission_new)"]
  show ?thesis by (simp add: one_admitted_def)
qed

theorem admission_bounded_witness:
  "listening 0 one_admitted \<and> li_given one_admitted = [GroupV4 [192, 0, 2, 7]] \<and>
   count_list (li_held one_admitted) (GroupV4 [192, 0, 2, 7]) \<le> SOURCE_SLOTS"
  using admission_bounded [OF one_admitted_run, of "GroupV4 [192, 0, 2, 7]"] one_admitted_run
  by (simp add: one_admitted_def)

end
