(* ===== verification/Sybil.thy ===== *)
theory Sybil
  imports Net "HOL-Library.AList"
begin

text \<open>
  Registration proofs and circuit diversity, \<open>src/src/mesh/sybil.rs\<close>: the registry of seen
  nonces, the proof of work and its solver, the subnets of a host and the check that a
  circuit spreads over networks. \<open>SHA-256\<close> is a parameter. Times are seconds in \<open>u64\<close>; the
  code only compares and subtracts them with saturation, written here on \<open>unat\<close>.
\<close>

datatype SybilError =
    InvalidProofOfWork
  | ExpiredTimestamp u64
  | SubnetCollision bytes
  | Ipv6SubnetCollision bytes
  | DuplicateNode bytes
  | UnresolvableHost bytes

unbundle bit_operations_syntax

section \<open>Nonce registry\<close>

definition MAX_TIMESTAMP_DRIFT_SECS :: nat where [size_defs]: "MAX_TIMESTAMP_DRIFT_SECS = 300"
definition MAX_NONCES :: nat where [size_defs]: "MAX_NONCES = 100000"

record NonceRegistryState =
  nr_map :: "((bytes \<times> u64) \<times> u64) list"
  nr_last_purge :: u64

definition NonceRegistry_new :: NonceRegistryState where
  "NonceRegistry_new = \<lparr>nr_map = [], nr_last_purge = 0\<rparr>"

definition purge :: "u64 \<Rightarrow> NonceRegistryState \<Rightarrow> NonceRegistryState" where
  "purge now s =
    (if unat now - unat (nr_last_purge s) \<ge> 10
     then s\<lparr>nr_map := filter (\<lambda>(_, observed). unat now - unat observed \<le> MAX_TIMESTAMP_DRIFT_SECS * 2) (nr_map s),
            nr_last_purge := now\<rparr>
     else s)"

definition check_and_record :: "bytes \<Rightarrow> u64 \<Rightarrow> u64 \<Rightarrow> NonceRegistryState \<Rightarrow> NonceRegistryState \<times> bool" where
  "check_and_record node_id nonce now s =
    (if node_id = [] \<or> length node_id > 128 then (s, True)
     else if now < nr_last_purge s then (s, True)
     else
       let s = purge now s in
       if map_of (nr_map s) (node_id, nonce) \<noteq> None \<or> length (nr_map s) \<ge> MAX_NONCES then (s, True)
       else (s\<lparr>nr_map := AList.update (node_id, nonce) now (nr_map s)\<rparr>, False))"

section \<open>Proof of work\<close>

definition abs_diff :: "u64 \<Rightarrow> u64 \<Rightarrow> nat" where
  "abs_diff a b = (if unat a \<ge> unat b then unat a - unat b else unat b - unat a)"

definition leading_zeros8 :: "u8 \<Rightarrow> nat" where
  "leading_zeros8 b = length (takeWhile (\<lambda>i. \<not> bit b i) (rev [0..<8]))"

fun count_leading_zero_bits :: "bytes \<Rightarrow> nat" where
  "count_leading_zero_bits [] = 0"
| "count_leading_zero_bits (b # bs) =
    (if b = 0 then 8 + count_leading_zero_bits bs else leading_zeros8 b)"

definition pow_hash :: "(bytes \<Rightarrow> bytes) \<Rightarrow> bytes \<Rightarrow> u64 \<Rightarrow> u64 \<Rightarrow> bytes" where
  "pow_hash sha256 node_id timestamp nonce = sha256 (node_id @ to_be 8 timestamp @ to_be 8 nonce)"

definition verify_pow :: "(bytes \<Rightarrow> bytes) \<Rightarrow> bytes \<Rightarrow> u64 \<Rightarrow> u64 \<Rightarrow> nat \<Rightarrow> u64 \<Rightarrow> bool" where
  "verify_pow sha256 node_id timestamp nonce difficulty now =
    (if abs_diff now timestamp > MAX_TIMESTAMP_DRIFT_SECS then False
     else count_leading_zero_bits (pow_hash sha256 node_id timestamp nonce) \<ge> difficulty)"

fun solve_pow_loop :: "(bytes \<Rightarrow> bytes) \<Rightarrow> bytes \<Rightarrow> u64 \<Rightarrow> nat \<Rightarrow> nat \<Rightarrow> u64 \<Rightarrow> u64 option" where
  "solve_pow_loop sha256 node_id timestamp difficulty 0 nonce = None"
| "solve_pow_loop sha256 node_id timestamp difficulty (Suc k) nonce =
    (if count_leading_zero_bits (pow_hash sha256 node_id timestamp nonce) \<ge> difficulty then Some nonce
     else solve_pow_loop sha256 node_id timestamp difficulty k (nonce + 1))"

definition solve_pow_bounded_from :: "(bytes \<Rightarrow> bytes) \<Rightarrow> bytes \<Rightarrow> u64 \<Rightarrow> nat \<Rightarrow> u64 \<Rightarrow> u64 option" where
  "solve_pow_bounded_from sha256 node_id timestamp difficulty start =
    solve_pow_loop sha256 node_id timestamp difficulty 10000000 start"

definition solve_pow_bounded :: "(bytes \<Rightarrow> bytes) \<Rightarrow> bytes \<Rightarrow> u64 \<Rightarrow> nat \<Rightarrow> u64 option" where
  "solve_pow_bounded sha256 node_id timestamp difficulty =
    solve_pow_bounded_from sha256 node_id timestamp difficulty 0"

section \<open>Subnets\<close>

definition extract_ipv4_subnet_16 :: "bytes \<Rightarrow> bytes option" where
  "extract_ipv4_subnet_16 host = (case parse_ipv4 host of Some (V4 a b c d) \<Rightarrow> Some [a, b] | _ \<Rightarrow> None)"

definition extract_ipv6_subnet_32 :: "bytes \<Rightarrow> bytes option" where
  "extract_ipv6_subnet_32 host =
    (case parse_ipv6 (trim_brackets host) of Some ip \<Rightarrow> Some (take 4 (v6_octets ip)) | None \<Rightarrow> None)"

datatype Subnet = Net4 bytes | Net6 bytes

text \<open>The network a host is counted to: the branches of the loop, in order.\<close>

fun host_subnet :: "IpAddr \<Rightarrow> Subnet" where
  "host_subnet (V4 a b c d) = Net4 [a, b]"
| "host_subnet (V6 a b c d e f g h) =
    (let octets = v6_octets (V6 a b c d e f g h) in
     case to_ipv4_mapped (V6 a b c d e f g h) of
       Some (V4 w x y z) \<Rightarrow> Net4 [w, x]
     | _ \<Rightarrow>
       (case to_ipv4 (V6 a b c d e f g h) of
          Some (V4 w x y z) \<Rightarrow> Net4 [w, x]
        | _ \<Rightarrow>
          if octets ! 0 = 0x20 \<and> octets ! 1 = 0x02 then Net4 [octets ! 2, octets ! 3]
          else if octets ! 0 = 0x20 \<and> octets ! 1 = 0x01 \<and> octets ! 2 = 0 \<and> octets ! 3 = 0
          then Net4 [octets ! 12 XOR 0xFF, octets ! 13 XOR 0xFF]
          else if take 12 octets = [0x00, 0x64, 0xFF, 0x9B, 0, 0, 0, 0, 0, 0, 0, 0]
          then Net4 [octets ! 12, octets ! 13]
          else Net6 (take 4 octets)))"

fun circuit_loop :: "bytes list \<Rightarrow> bytes list \<Rightarrow> bytes list \<Rightarrow> bytes list \<Rightarrow> SybilError + unit" where
  "circuit_loop seen4 seen6 seen_hosts [] = Inr ()"
| "circuit_loop seen4 seen6 seen_hosts (host # hosts) =
    (if host \<in> set seen_hosts then Inl (DuplicateNode host)
     else case parse_ip (trim_brackets host) of
       None \<Rightarrow> Inl (UnresolvableHost host)
     | Some ip \<Rightarrow>
         (case host_subnet ip of
            Net4 n \<Rightarrow> if n \<in> set seen4 then Inl (SubnetCollision n)
                      else circuit_loop (seen4 @ [n]) seen6 (seen_hosts @ [host]) hosts
          | Net6 n \<Rightarrow> if n \<in> set seen6 then Inl (Ipv6SubnetCollision n)
                      else circuit_loop seen4 (seen6 @ [n]) (seen_hosts @ [host]) hosts))"

definition validate_circuit_diversity :: "bytes list \<Rightarrow> SybilError + unit" where
  "validate_circuit_diversity hosts = circuit_loop [] [] [] hosts"

section \<open>The registry refuses replays\<close>

text \<open>
  A registration is accepted when its proof verifies and the registry records it, the two
  tests authorities and trackers run one after the other.
\<close>

record pow_claim =
  pc_node :: bytes
  pc_timestamp :: u64
  pc_nonce :: u64

definition accept_pow :: "(bytes \<Rightarrow> bytes) \<Rightarrow> nat \<Rightarrow> NonceRegistryState \<Rightarrow> pow_claim \<times> u64 \<Rightarrow> NonceRegistryState \<times> bool" where
  "accept_pow sha256 difficulty s k =
    (case k of (c, now) \<Rightarrow>
      if \<not> verify_pow sha256 (pc_node c) (pc_timestamp c) (pc_nonce c) difficulty now then (s, False)
      else case check_and_record (pc_node c) (pc_nonce c) now s of (s', replay) \<Rightarrow> (s', \<not> replay))"

text \<open>
  A proof that was accepted stays refused: either its record is there, made while the proof was
  fresh, or the registry has moved past the last second in which the proof is fresh.
\<close>

definition spent :: "NonceRegistryState \<Rightarrow> pow_claim \<Rightarrow> bool" where
  "spent s c \<longleftrightarrow>
    unat (nr_last_purge s) > unat (pc_timestamp c) + MAX_TIMESTAMP_DRIFT_SECS \<or>
    (\<exists>t. ((pc_node c, pc_nonce c), t) \<in> set (nr_map s) \<and> unat t \<le> unat (pc_timestamp c) + MAX_TIMESTAMP_DRIFT_SECS
       \<and> unat (pc_timestamp c) \<le> unat t + MAX_TIMESTAMP_DRIFT_SECS)"

definition registry_ok :: "NonceRegistryState \<Rightarrow> bool" where
  "registry_ok s \<longleftrightarrow> distinct (map fst (nr_map s)) \<and> length (nr_map s) \<le> MAX_NONCES"

lemma purge_spent:
  assumes "spent s c" and "nr_last_purge s \<le> now"
  shows "spent (purge now s) c"
proof (cases "unat now - unat (nr_last_purge s) \<ge> 10")
  case True
  have le: "unat (nr_last_purge s) \<le> unat now" using assms(2) by (simp add: word_le_nat_alt)
  consider "unat (nr_last_purge s) > unat (pc_timestamp c) + MAX_TIMESTAMP_DRIFT_SECS"
    | t where "((pc_node c, pc_nonce c), t) \<in> set (nr_map s)"
        "unat t \<le> unat (pc_timestamp c) + MAX_TIMESTAMP_DRIFT_SECS"
        "unat (pc_timestamp c) \<le> unat t + MAX_TIMESTAMP_DRIFT_SECS"
    using assms(1) unfolding spent_def by blast
  then show ?thesis
  proof cases
    case 1
    with True le show ?thesis by (simp add: spent_def purge_def)
  next
    case (2 t)
    with True show ?thesis
      by (cases "unat now - unat t \<le> MAX_TIMESTAMP_DRIFT_SECS * 2") (force simp: spent_def purge_def)+
  qed
qed (use assms in \<open>simp add: purge_def\<close>)

lemma purge_ok: "registry_ok s \<Longrightarrow> registry_ok (purge now s)"
  by (auto simp: registry_ok_def purge_def distinct_map_filter intro: order_trans [OF length_filter_le])

lemma purge_last: "nr_last_purge s \<le> now \<Longrightarrow> nr_last_purge (purge now s) \<le> now"
  by (simp add: purge_def)

lemma check_and_record_new:
  assumes "check_and_record n x now s = (s', False)"
  shows "map_of (nr_map (purge now s)) (n, x) = None" "length (nr_map (purge now s)) < MAX_NONCES"
    "nr_last_purge s \<le> now" "s' = (purge now s)\<lparr>nr_map := AList.update (n, x) now (nr_map (purge now s))\<rparr>"
  using assms by (auto simp: check_and_record_def Let_def split: if_splits)

lemma update_new: "map_of m k = None \<Longrightarrow> AList.update k v m = m @ [(k, v)]"
  by (induction m) (auto split: if_splits)

lemma check_and_record_ok: "registry_ok s \<Longrightarrow> registry_ok (fst (check_and_record n x now s))"
  using purge_ok [of s now]
  by (auto simp: check_and_record_def Let_def registry_ok_def update_new map_of_eq_None_iff)

lemma check_and_record_spent: "spent s c \<Longrightarrow> spent (fst (check_and_record n x now s)) c"
proof (cases "n = [] \<or> length n > 128 \<or> now < nr_last_purge s")
  case False
  assume "spent s c"
  with False have "spent (purge now s) c" by (intro purge_spent) auto
  with False show ?thesis
    by (auto simp: check_and_record_def Let_def update_new spent_def)
qed (auto simp: check_and_record_def)

lemma spent_refused:
  assumes "spent s c" and "abs_diff now (pc_timestamp c) \<le> MAX_TIMESTAMP_DRIFT_SECS"
  shows "snd (check_and_record (pc_node c) (pc_nonce c) now s)"
proof (rule ccontr)
  assume "\<not> ?thesis"
  then obtain s' where "check_and_record (pc_node c) (pc_nonce c) now s = (s', False)"
    by (cases "check_and_record (pc_node c) (pc_nonce c) now s") simp
  note new = check_and_record_new [OF this]
  have sp: "spent (purge now s) c" by (rule purge_spent [OF assms(1) new(3)])
  have "unat (nr_last_purge (purge now s)) \<le> unat now"
    using purge_last [OF new(3)] by (simp add: word_le_nat_alt)
  then have "unat (nr_last_purge (purge now s)) \<le> unat (pc_timestamp c) + MAX_TIMESTAMP_DRIFT_SECS"
    using assms(2) by (auto simp: abs_diff_def split: if_splits)
  with sp new(1) show False by (force simp: spent_def map_of_eq_None_iff)
qed

lemma fresh_spent:
  assumes "check_and_record (pc_node c) (pc_nonce c) now s = (s', False)"
    and "abs_diff now (pc_timestamp c) \<le> MAX_TIMESTAMP_DRIFT_SECS"
  shows "spent s' c"
  using check_and_record_new [OF assms(1)] assms(2)
  by (auto simp: spent_def update_new abs_diff_def split: if_splits)

lemma accept_pow_def': "accept_pow sha256 d s (c, now) =
  (if abs_diff now (pc_timestamp c) \<le> MAX_TIMESTAMP_DRIFT_SECS \<and>
      d \<le> count_leading_zero_bits (pow_hash sha256 (pc_node c) (pc_timestamp c) (pc_nonce c))
   then (fst (check_and_record (pc_node c) (pc_nonce c) now s), \<not> snd (check_and_record (pc_node c) (pc_nonce c) now s))
   else (s, False))"
  by (simp add: accept_pow_def verify_pow_def case_prod_beta)

interpretation noncef: stateful_filter registry_ok "accept_pow sha256 d" fst spent
proof
  fix s and k :: "pow_claim \<times> u64" and c
  assume ok: "registry_ok s"
  obtain cl now where k: "k = (cl, now)" by (cases k)
  show "registry_ok (fst (accept_pow sha256 d s k))"
    using check_and_record_ok [OF ok] ok by (simp add: k accept_pow_def')
  show "spent (fst (accept_pow sha256 d s k)) (fst k)" if "snd (accept_pow sha256 d s k)"
    using that fresh_spent [of cl now s "fst (check_and_record (pc_node cl) (pc_nonce cl) now s)"]
    by (cases "check_and_record (pc_node cl) (pc_nonce cl) now s") (auto simp: k accept_pow_def' split: if_splits)
  show "spent (fst (accept_pow sha256 d s k)) c" if "spent s c"
    using check_and_record_spent [OF that] that by (simp add: k accept_pow_def')
  show "\<not> snd (accept_pow sha256 d s k)" if "spent s (fst k)"
    using spent_refused [of s cl now] that by (auto simp: k accept_pow_def')
qed

text \<open>
  C23. Whatever proofs are presented at whatever clock readings, also when the clock runs
  backwards, no proof (node, timestamp, nonce) is admitted twice, and the registry never keeps
  more than 100000 nonces: a record is dropped only when the proof has become stale.
\<close>

theorem nonce_no_replay:
  "distinct (map fst (admitted (accept_pow sha256 d) NonceRegistry_new ks)) \<and>
   length (nr_map (afterwards (accept_pow sha256 d) NonceRegistry_new ks)) \<le> MAX_NONCES"
proof -
  have ok: "registry_ok NonceRegistry_new" by (simp add: registry_ok_def NonceRegistry_new_def)
  from noncef.admitted_distinct [OF ok] noncef.afterwards_inv [OF ok]
  show ?thesis unfolding registry_ok_def by blast
qed

section \<open>The solver finds what the verifier accepts\<close>

lemma solve_pow_loop_Some:
  "solve_pow_loop sha256 n t d k x = Some y \<Longrightarrow>
   d \<le> count_leading_zero_bits (pow_hash sha256 n t y)"
  by (induction k arbitrary: x) (auto split: if_splits)

lemma solve_pow_loop_None:
  "solve_pow_loop sha256 n t d k x = None \<longleftrightarrow>
   (\<forall>i < k. count_leading_zero_bits (pow_hash sha256 n t (x + of_nat i)) < d)"
proof (induction k arbitrary: x)
  case (Suc k)
  show ?case
    by (auto simp: Suc.IH All_less_Suc2 not_le add.assoc)
qed simp

text \<open>
  C24. The search returns a nonce exactly when one of the ten million nonces from the start
  (wrapping around) meets the difficulty, and what it returns is accepted by the verifier at every
  clock reading within five minutes of the timestamp.
\<close>

theorem pow_solver_complete:
  "(case solve_pow_bounded_from sha256 n t d start of
      None \<Rightarrow> \<forall>i < 10000000. count_leading_zero_bits (pow_hash sha256 n t (start + of_nat i)) < d
    | Some y \<Rightarrow> (\<exists>i < 10000000. d \<le> count_leading_zero_bits (pow_hash sha256 n t (start + of_nat i))) \<and>
        verify_pow sha256 n t y d now = (abs_diff now t \<le> 300))"
proof (cases "solve_pow_bounded_from sha256 n t d start")
  case None
  then show ?thesis
    using solve_pow_loop_None [of sha256 n t d 10000000 start] by (simp add: solve_pow_bounded_from_def)
next
  case (Some y)
  then have "d \<le> count_leading_zero_bits (pow_hash sha256 n t y)"
    by (intro solve_pow_loop_Some) (simp add: solve_pow_bounded_from_def)
  moreover have "\<exists>i < 10000000. d \<le> count_leading_zero_bits (pow_hash sha256 n t (start + of_nat i))"
    using Some solve_pow_loop_None [of sha256 n t d 10000000 start]
    by (auto simp: solve_pow_bounded_from_def not_less)
  ultimately show ?thesis by (simp add: Some verify_pow_def size_defs)
qed

theorem pow_solver_complete_witness:
  "solve_pow_bounded_from (\<lambda>m. [0, 255]) (ascii ''relay-1'') 1000 8 3 = Some 3 \<and>
   verify_pow (\<lambda>m. [0, 255]) (ascii ''relay-1'') 1000 3 8 1300"
proof -
  have n: "(10000000 :: nat) = Suc 9999999" by simp
  have s: "solve_pow_bounded_from (\<lambda>m. [0, 255]) (ascii ''relay-1'') 1000 8 3 = Some 3"
    unfolding solve_pow_bounded_from_def n solve_pow_loop.simps by (simp add: pow_hash_def)
  have t: "abs_diff 1300 1000 \<le> 300" by (simp add: abs_diff_def)
  from pow_solver_complete [of "\<lambda>m. [0, 255]" "ascii ''relay-1''" 1000 3 8 1300] s t show ?thesis by simp
qed

section \<open>Circuit diversity\<close>

definition net_of :: "bytes \<Rightarrow> Subnet option" where
  "net_of host = map_option host_subnet (parse_ip (trim_brackets host))"

definition used_nets :: "bytes list \<Rightarrow> bytes list \<Rightarrow> Subnet option set" where
  "used_nets s4 s6 = Some ` (Net4 ` set s4 \<union> Net6 ` set s6)"

lemma used_nets_step:
  "used_nets (s4 @ [p]) s6 = insert (Some (Net4 p)) (used_nets s4 s6)"
  "used_nets s4 (s6 @ [p]) = insert (Some (Net6 p)) (used_nets s4 s6)"
  "Some (Net4 p) \<in> used_nets s4 s6 \<longleftrightarrow> p \<in> set s4" "Some (Net6 p) \<in> used_nets s4 s6 \<longleftrightarrow> p \<in> set s6"
  by (auto simp: used_nets_def)

lemma circuit_loop_ok:
  "is_ok (circuit_loop s4 s6 sh hosts) \<longleftrightarrow>
   distinct hosts \<and> set hosts \<inter> set sh = {} \<and> None \<notin> set (map net_of hosts) \<and> distinct (map net_of hosts) \<and>
   set (map net_of hosts) \<inter> used_nets s4 s6 = {}"
proof (induction s4 s6 sh hosts rule: circuit_loop.induct)
  case (1 s4 s6 sh)
  then show ?case by simp
next
  case (2 s4 s6 sh host hosts)
  show ?case
  proof (cases "host \<in> set sh \<or> net_of host = None")
    case True
    then show ?thesis by (auto simp: net_of_def)
  next
    case False
    then obtain ip where ip: "parse_ip (trim_brackets host) = Some ip" "net_of host = Some (host_subnet ip)"
      and h: "host \<notin> set sh" by (auto simp: net_of_def)
    show ?thesis
    proof (cases "host_subnet ip")
      case (Net4 p)
      show ?thesis
      proof (cases "p \<in> set s4")
        case False
        from 2(1) [OF h ip(1) Net4 False] ip h Net4 False show ?thesis
          by (simp add: used_nets_step Int_insert_left) blast
      qed (use ip h Net4 in \<open>simp add: used_nets_step Int_insert_left\<close>)
    next
      case (Net6 p)
      show ?thesis
      proof (cases "p \<in> set s6")
        case False
        from 2(2) [OF h ip(1) Net6 False] ip h Net6 False show ?thesis
          by (simp add: used_nets_step Int_insert_left) blast
      qed (use ip h Net6 in \<open>simp add: used_nets_step Int_insert_left\<close>)
    qed
  qed
qed

text \<open>
  A circuit passes the diversity check exactly when its hosts are pairwise different, every host
  is an IP address and no two of them are counted to the same network.
\<close>

theorem circuit_diversity_exact:
  "is_ok (validate_circuit_diversity hosts) \<longleftrightarrow>
   distinct hosts \<and> None \<notin> set (map net_of hosts) \<and> distinct (map net_of hosts)"
  unfolding validate_circuit_diversity_def circuit_loop_ok by (simp add: used_nets_def)

end
