(* ===== verification/Consensus.thy ===== *)
theory Consensus
  imports Net Identity "HOL-Library.List_Lexorder"
begin

text \<open>
  Directory consensus, \<open>src/src/mesh/consensus.rs\<close>: relay descriptors and their self-signatures,
  the consensus document with its digest, the authorities' signatures, the quorum check and the
  client-side aggregation of signatures. The map of trusted authorities is an association list
  from names to pins.
\<close>

section \<open>Relay descriptors\<close>

record RelayDescriptor =
  rd_node_id :: bytes
  rd_host :: bytes
  rd_port :: u16
  rd_onion_key_x25519 :: bytes
  rd_identity_pin :: bytes
  rd_is_exit :: bool
  rd_pow_nonce :: u64
  rd_registered_at :: u64
  rd_signature :: bytes

definition MAX_DIRECTORY_RELAYS :: nat where [size_defs]: "MAX_DIRECTORY_RELAYS = 512"

definition RelayDescriptor_new ::
  "bytes \<Rightarrow> bytes \<Rightarrow> u16 \<Rightarrow> bytes \<Rightarrow> bytes \<Rightarrow> bool \<Rightarrow> u64 \<Rightarrow> u64 \<Rightarrow> RelayDescriptor" where
  "RelayDescriptor_new node_id host port key pin ex nonce at =
    \<lparr>rd_node_id = node_id, rd_host = host, rd_port = port, rd_onion_key_x25519 = key, rd_identity_pin = pin,
     rd_is_exit = ex, rd_pow_nonce = nonce, rd_registered_at = at, rd_signature = []\<rparr>"

text \<open>The fields in the order both the descriptor's signature and the consensus digest cover them.\<close>

definition descriptor_fields :: "RelayDescriptor \<Rightarrow> bytes" where
  "descriptor_fields r =
    to_be 4 (of_nat (length (rd_node_id r)) :: u32) @ rd_node_id r @
    to_be 4 (of_nat (length (rd_host r)) :: u32) @ rd_host r @
    to_be 2 (rd_port r) @ rd_onion_key_x25519 r @ rd_identity_pin r @
    [if rd_is_exit r then 1 else 0] @ to_be 8 (rd_pow_nonce r) @ to_be 8 (rd_registered_at r)"

definition compute_signing_bytes :: "RelayDescriptor \<Rightarrow> bytes" where
  "compute_signing_bytes r = ascii ''AnonGuard-RelayDescriptor-v6'' @ descriptor_fields r"

definition sign_with_key :: "sigs \<Rightarrow> HybridSigningKey \<Rightarrow> RelayDescriptor \<Rightarrow> id_error + RelayDescriptor" where
  "sign_with_key sg k r =
    (let r = r\<lparr>rd_identity_pin := verifying_key sg k\<rparr> in
     ebind (identity_sign sg k (compute_signing_bytes r)) (\<lambda>s. Inr (r\<lparr>rd_signature := s\<rparr>)))"

text \<open>\<open>split('.')\<close>.\<close>

fun split_dot :: "bytes \<Rightarrow> bytes \<Rightarrow> bytes list" where
  "split_dot acc [] = [rev acc]"
| "split_dot acc (b # bs) = (if b = 46 then rev acc # split_dot [] bs else split_dot (b # acc) bs)"

definition is_lower :: "u8 \<Rightarrow> bool" where "is_lower b \<longleftrightarrow> 97 \<le> b \<and> b \<le> 122"
definition is_upper :: "u8 \<Rightarrow> bool" where "is_upper b \<longleftrightarrow> 65 \<le> b \<and> b \<le> 90"
definition is_digit :: "u8 \<Rightarrow> bool" where "is_digit b \<longleftrightarrow> 48 \<le> b \<and> b \<le> 57"

definition valid_label :: "bytes \<Rightarrow> bool" where
  "valid_label l \<longleftrightarrow> l \<noteq> [] \<and> length l \<le> 63 \<and> hd l \<noteq> 45 \<and> last l \<noteq> 45 \<and>
     list_all (\<lambda>b. is_lower b \<or> is_digit b \<or> b = 45) l"

definition valid_host :: "bytes \<Rightarrow> bool" where
  "valid_host h =
    (case parse_ip h of
       Some ip \<Rightarrow> ip_to_string ip = h
     | None \<Rightarrow> list_all valid_label (split_dot [] h))"

definition verify_identity :: "sigs \<Rightarrow> RelayDescriptor \<Rightarrow> bool" where
  "verify_identity sg r =
    (if \<not> valid_host (rd_host r) then False
     else if rd_node_id r = [] \<or> length (rd_node_id r) > 128
       \<or> \<not> list_all (\<lambda>b. is_lower b \<or> is_upper b \<or> is_digit b \<or> b = 45 \<or> b = 95 \<or> b = 46) (rd_node_id r)
       \<or> rd_host r = [] \<or> length (rd_host r) > 253 \<or> rd_port r = 0
       \<or> length (rd_signature r) \<noteq> PROOF_SIZE then False
     else case VerifyingKey_from_bytes (rd_identity_pin r) of
       Inl _ \<Rightarrow> False
     | Inr pin \<Rightarrow> is_ok (verify_strict sg pin (compute_signing_bytes r) (rd_signature r)))"

section \<open>Consensus documents\<close>

record AuthoritySignature =
  as_authority_id :: bytes
  as_signature_bytes :: bytes

record ConsensusDocument =
  cd_valid_after :: u64
  cd_valid_until :: u64
  cd_relays :: "RelayDescriptor list"
  cd_signatures :: "AuthoritySignature list"

definition ConsensusDocument_new :: "u64 \<Rightarrow> u64 \<Rightarrow> RelayDescriptor list \<Rightarrow> ConsensusDocument" where
  "ConsensusDocument_new va vu relays =
    \<lparr>cd_valid_after = va, cd_valid_until = vu, cd_relays = relays, cd_signatures = []\<rparr>"

definition consensus_bytes :: "ConsensusDocument \<Rightarrow> bytes" where
  "consensus_bytes cd =
    ascii ''AnonGuard-Consensus-v6'' @ to_be 8 (cd_valid_after cd) @ to_be 8 (cd_valid_until cd) @
    concat (map descriptor_fields (sort_key rd_node_id (cd_relays cd)))"

definition compute_digest :: "sigs \<Rightarrow> ConsensusDocument \<Rightarrow> bytes" where
  "compute_digest sg cd = sg_sha256 sg (consensus_bytes cd)"

definition sign_with_authority ::
  "sigs \<Rightarrow> bytes \<Rightarrow> HybridSigningKey \<Rightarrow> ConsensusDocument \<Rightarrow> id_error + ConsensusDocument" where
  "sign_with_authority sg name k cd =
    ebind (identity_sign sg k (compute_digest sg cd)) (\<lambda>s.
      Inr (cd\<lparr>cd_signatures := cd_signatures cd @ [\<lparr>as_authority_id = name, as_signature_bytes = s\<rparr>]\<rparr>))"

record votes =
  vo_count :: nat
  vo_authorities :: "bytes list"
  vo_keys :: "bytes list"
  vo_classical :: "bytes list"
  vo_pq :: "bytes list"

definition no_votes :: votes where
  "no_votes = \<lparr>vo_count = 0, vo_authorities = [], vo_keys = [], vo_classical = [], vo_pq = []\<rparr>"

text \<open>The loop over the signatures; \<open>None\<close> is the early \<open>return false\<close>.\<close>

fun quorum_loop :: "sigs \<Rightarrow> (bytes \<times> bytes) list \<Rightarrow> bytes \<Rightarrow> votes \<Rightarrow> AuthoritySignature list \<Rightarrow> votes option" where
  "quorum_loop sg trusted dg v [] = Some v"
| "quorum_loop sg trusted dg v (s # ss) =
    (if as_authority_id s \<in> set (vo_authorities v) then quorum_loop sg trusted dg v ss
     else case map_of trusted (as_authority_id s) of
       None \<Rightarrow> quorum_loop sg trusted dg v ss
     | Some pin \<Rightarrow>
       (case Signature_from_slice (as_signature_bytes s) of
          Inl _ \<Rightarrow> quorum_loop sg trusted dg v ss
        | Inr pf \<Rightarrow>
          if is_ok (verify_strict sg pin dg pf) \<and> pin \<notin> set (vo_keys v) then
            (case component_pins sg pf of
               Inl _ \<Rightarrow> None
             | Inr (classical, pq) \<Rightarrow>
                 if classical \<in> set (vo_classical v) \<or> pq \<in> set (vo_pq v) then None
                 else quorum_loop sg trusted dg
                   \<lparr>vo_count = vo_count v + 1, vo_authorities = vo_authorities v @ [as_authority_id s],
                    vo_keys = pin # vo_keys v, vo_classical = classical # vo_classical v,
                    vo_pq = pq # vo_pq v\<rparr> ss)
          else quorum_loop sg trusted dg v ss))"

definition verify_quorum :: "sigs \<Rightarrow> ConsensusDocument \<Rightarrow> (bytes \<times> bytes) list \<Rightarrow> nat \<Rightarrow> u64 \<Rightarrow> bool" where
  "verify_quorum sg cd trusted threshold now =
    (if threshold = 0 \<or> cd_valid_after cd \<ge> cd_valid_until cd then False
     else if now < cd_valid_after cd \<or> now \<ge> cd_valid_until cd then False
     else case quorum_loop sg trusted (compute_digest sg cd) no_votes (cd_signatures cd) of
       None \<Rightarrow> False
     | Some v \<Rightarrow> vo_count v \<ge> threshold)"

definition merge_signatures_from :: "sigs \<Rightarrow> ConsensusDocument \<Rightarrow> ConsensusDocument \<Rightarrow> ConsensusDocument \<times> nat" where
  "merge_signatures_from sg cd other =
    (if compute_digest sg cd \<noteq> compute_digest sg other then (cd, 0)
     else
       let existing = map as_authority_id (cd_signatures cd);
           new = filter (\<lambda>s. as_authority_id s \<notin> set existing) (cd_signatures other)
       in (cd\<lparr>cd_signatures := cd_signatures cd @ new\<rparr>, length new))"

section \<open>A descriptor's encoding determines it\<close>

text \<open>What the types of the source guarantee: 32-byte keys, and texts whose length fits.\<close>

definition descriptor_wf :: "RelayDescriptor \<Rightarrow> bool" where
  "descriptor_wf r \<longleftrightarrow> length (rd_onion_key_x25519 r) = 32 \<and> length (rd_identity_pin r) = 32 \<and>
     length (rd_node_id r) < 2 ^ 32 \<and> length (rd_host r) < 2 ^ 32"

definition unsigned_part :: "RelayDescriptor \<Rightarrow> RelayDescriptor" where
  "unsigned_part r = r\<lparr>rd_signature := []\<rparr>"

lemma length_prefixed_append_eq:
  assumes "to_be 4 (of_nat (length xs) :: u32) @ xs @ ys = to_be 4 (of_nat (length xs') :: u32) @ xs' @ ys'"
    and "length xs < 2 ^ 32" "length xs' < 2 ^ 32"
  shows "xs = xs' \<and> ys = ys'"
proof -
  from assms(1) have "(of_nat (length xs) :: u32) = of_nat (length xs')" and rest: "xs @ ys = xs' @ ys'"
    using be32.enc_append_eq_iff by blast+
  from arg_cong [OF this(1), of unat] assms(2,3) have "length xs = length xs'"
    by (simp add: unsigned_of_nat take_bit_nat_eq_self)
  with rest show ?thesis by simp
qed

lemma descriptor_fields_append_eq:
  assumes eq: "descriptor_fields r @ xs = descriptor_fields r' @ ys" and wf: "descriptor_wf r" "descriptor_wf r'"
  shows "unsigned_part r = unsigned_part r' \<and> xs = ys"
proof -
  define rest where "rest r = to_be 2 (rd_port r) @ rd_onion_key_x25519 r @ rd_identity_pin r @
    [if rd_is_exit r then 1 else 0] @ to_be 8 (rd_pow_nonce r) @ to_be 8 (rd_registered_at r)" for r :: RelayDescriptor
  have f: "descriptor_fields r = to_be 4 (of_nat (length (rd_node_id r)) :: u32) @ rd_node_id r @
      to_be 4 (of_nat (length (rd_host r)) :: u32) @ rd_host r @ rest r" for r
    by (simp add: descriptor_fields_def rest_def)
  have len: "length (rd_node_id r) < 2 ^ 32" "length (rd_host r) < 2 ^ 32"
      "length (rd_node_id r') < 2 ^ 32" "length (rd_host r') < 2 ^ 32"
    using wf unfolding descriptor_wf_def by blast+
  note step1 = length_prefixed_append_eq [OF eq [unfolded f append_assoc] len(1,3)]
  have n: "rd_node_id r = rd_node_id r'" using step1 by (rule conjunct1)
  note step2 = length_prefixed_append_eq [OF conjunct2 [OF step1] len(2,4)]
  have h: "rd_host r = rd_host r'" using step2 by (rule conjunct1)
  have e2: "rest r @ xs = rest r' @ ys" using step2 by (rule conjunct2)
  have "rd_port r = rd_port r'" "rd_onion_key_x25519 r = rd_onion_key_x25519 r'" "rd_identity_pin r = rd_identity_pin r'"
    "rd_is_exit r = rd_is_exit r'" "rd_pow_nonce r = rd_pow_nonce r'" "rd_registered_at r = rd_registered_at r'" "xs = ys"
    using e2 wf by (auto simp: rest_def descriptor_wf_def append_eq_append_conv be16.enc_eq_iff be64.enc_eq_iff
        split: if_splits)
  with n h show ?thesis by (simp add: unsigned_part_def)
qed

lemma descriptor_fields_nonempty: "descriptor_fields r \<noteq> []"
  by (simp add: descriptor_fields_def)

lemma descriptors_injective:
  assumes "concat (map descriptor_fields rs) = concat (map descriptor_fields rs')"
    and "list_all descriptor_wf rs" "list_all descriptor_wf rs'"
  shows "map unsigned_part rs = map unsigned_part rs'"
  using assms
proof (induction rs arbitrary: rs')
  case Nil
  then show ?case by (cases rs') (simp_all add: descriptor_fields_nonempty)
next
  case (Cons r rs)
  then obtain r' qs where rs': "rs' = r' # qs" by (cases rs') (simp_all add: descriptor_fields_nonempty)
  have "unsigned_part r = unsigned_part r' \<and> concat (map descriptor_fields rs) = concat (map descriptor_fields qs)"
    using Cons.prems by (intro descriptor_fields_append_eq) (simp_all add: rs')
  with Cons.IH [of qs] Cons.prems show ?case by (simp add: rs')
qed

text \<open>
  The text an authority hashes and signs determines the document: two documents with the same text
  have the same validity period and the same relays in node order, every field included but the
  relays' own signatures; no field can be shifted into another, and no relay dropped or added.
\<close>

theorem consensus_text_injective:
  assumes "consensus_bytes cd = consensus_bytes cd'"
    and "list_all descriptor_wf (cd_relays cd)" and "list_all descriptor_wf (cd_relays cd')"
  shows "cd_valid_after cd = cd_valid_after cd' \<and> cd_valid_until cd = cd_valid_until cd' \<and>
    map unsigned_part (sort_key rd_node_id (cd_relays cd)) = map unsigned_part (sort_key rd_node_id (cd_relays cd'))"
proof -
  have wf: "list_all descriptor_wf (sort_key rd_node_id (cd_relays cd))"
    "list_all descriptor_wf (sort_key rd_node_id (cd_relays cd'))"
    using assms(2,3) by (simp_all add: list_all_iff)
  show ?thesis
    using assms(1) descriptors_injective [OF _ wf]
    by (auto simp: consensus_bytes_def append_eq_append_conv be64.enc_eq_iff)
qed

section \<open>What a quorum is worth\<close>

text \<open>A signature that counts: a trusted name, and a proof the pin of that name accepts.\<close>

definition counts :: "sigs \<Rightarrow> (bytes \<times> bytes) list \<Rightarrow> bytes \<Rightarrow> AuthoritySignature \<Rightarrow> bool" where
  "counts sg trusted dg s \<longleftrightarrow> (\<exists>pin. map_of trusted (as_authority_id s) = Some pin \<and>
     verify_strict sg pin dg (as_signature_bytes s) = Inr ())"

definition tally :: "sigs \<Rightarrow> (bytes \<times> bytes) list \<Rightarrow> bytes \<Rightarrow> votes \<Rightarrow> AuthoritySignature list \<Rightarrow> bool" where
  "tally sg trusted dg v ss \<longleftrightarrow>
    vo_count v = length ss \<and> vo_authorities v = map as_authority_id ss \<and> distinct (map as_authority_id ss) \<and>
    list_all (counts sg trusted dg) ss \<and>
    vo_keys v = rev (map (\<lambda>s. the (map_of trusted (as_authority_id s))) ss) \<and> distinct (vo_keys v) \<and>
    map Inr (zip (vo_classical v) (vo_pq v)) = rev (map (\<lambda>s. component_pins sg (as_signature_bytes s)) ss) \<and>
    length (vo_classical v) = length (vo_pq v) \<and> distinct (vo_classical v) \<and> distinct (vo_pq v)"

lemma is_ok_unit: "is_ok r \<longleftrightarrow> r = Inr ()" for r :: "'e + unit"
  by (cases r) auto

lemma tally_cast:
  assumes "tally sg trusted dg v ss" and "as_authority_id s \<notin> set (vo_authorities v)"
    and "map_of trusted (as_authority_id s) = Some pin" and "pin \<notin> set (vo_keys v)"
    and "verify_strict sg pin dg (as_signature_bytes s) = Inr ()"
    and "component_pins sg (as_signature_bytes s) = Inr (c, q)" and "c \<notin> set (vo_classical v)" "q \<notin> set (vo_pq v)"
  shows "tally sg trusted dg \<lparr>vo_count = vo_count v + 1, vo_authorities = vo_authorities v @ [as_authority_id s],
    vo_keys = pin # vo_keys v, vo_classical = c # vo_classical v, vo_pq = q # vo_pq v\<rparr> (ss @ [s])"
  using assms by (auto simp: tally_def counts_def)

lemma quorum_loop_sound:
  assumes "tally sg trusted dg v cast" and "quorum_loop sg trusted dg v ss = Some v'"
  shows "\<exists>more. tally sg trusted dg v' (cast @ more) \<and> set more \<subseteq> set ss"
  using assms
proof (induction sg trusted dg v ss arbitrary: cast rule: quorum_loop.induct)
  case (1 sg trusted dg v)
  then show ?case by (intro exI [of _ "[]"]) simp
next
  case (2 sg trusted dg v s ss)
  let ?skip = "quorum_loop sg trusted dg v ss = Some v'"
  have skip: "\<exists>more. tally sg trusted dg v' (cast @ more) \<and> set more \<subseteq> set (s # ss)"
    if "\<exists>more. tally sg trusted dg v' (cast @ more) \<and> set more \<subseteq> set ss" using that by auto
  show ?case
  proof (cases "as_authority_id s \<in> set (vo_authorities v)")
    case True
    with 2(1) [OF True 2(6)] 2(7) show ?thesis by (intro skip) simp
  next
    case new: False
    show ?thesis
    proof (cases "map_of trusted (as_authority_id s)")
      case None
      with 2(2) [OF new None 2(6)] 2(7) new show ?thesis by (intro skip) simp
    next
      case (Some pin)
      show ?thesis
      proof (cases "Signature_from_slice (as_signature_bytes s)")
        case (Inl e)
        with 2(3) [OF new Some Inl 2(6)] 2(7) new Some show ?thesis by (intro skip) simp
      next
        case (Inr pf)
        then have pf: "pf = as_signature_bytes s" by (auto simp: Signature_from_slice_def split: if_splits)
        show ?thesis
        proof (cases "is_ok (verify_strict sg pin dg pf) \<and> pin \<notin> set (vo_keys v)")
          case False
          with 2(5) [OF new Some Inr False 2(6)] 2(7) new Some Inr show ?thesis by (intro skip) (simp split: if_splits)
        next
          case True
          with 2(7) new Some Inr obtain c q where cq: "component_pins sg pf = Inr (c, q)"
            "\<not> (c \<in> set (vo_classical v) \<or> q \<in> set (vo_pq v))"
            by (auto split: sum.splits if_splits)
          have "tally sg trusted dg \<lparr>vo_count = vo_count v + 1, vo_authorities = vo_authorities v @ [as_authority_id s],
              vo_keys = pin # vo_keys v, vo_classical = c # vo_classical v, vo_pq = q # vo_pq v\<rparr> (cast @ [s])"
            using 2(6) new Some True cq by (intro tally_cast) (simp_all add: pf is_ok_unit)
          from 2(4) [OF new Some Inr True cq(1) refl cq(2) this] 2(7) new Some Inr True cq
          obtain more where "tally sg trusted dg v' ((cast @ [s]) @ more)" "set more \<subseteq> set ss" by auto
          then show ?thesis by (intro exI [of _ "s # more"]) auto
        qed
      qed
    qed
  qed
qed

lemma tally_no_votes: "tally sg trusted dg no_votes []"
  by (simp add: tally_def no_votes_def)

lemma tally_pins:
  assumes "tally sg trusted dg v ss"
  shows "\<exists>pins. map (\<lambda>s. component_pins sg (as_signature_bytes s)) ss = map Inr pins \<and>
    distinct (map fst pins) \<and> distinct (map snd pins)"
proof (intro exI conjI)
  let ?pins = "rev (zip (vo_classical v) (vo_pq v))"
  show "map (\<lambda>s. component_pins sg (as_signature_bytes s)) ss = map Inr ?pins"
    using assms by (simp add: tally_def rev_map [symmetric])
  show "distinct (map fst ?pins)" "distinct (map snd ?pins)"
    using assms by (simp_all add: tally_def rev_map [symmetric])
qed

text \<open>
  C26. A document that passes the quorum check is inside its validity period and carries, among its
  signatures, at least the threshold of signatures by different trusted authorities with different
  pins, each of which verifies on the document's digest, and no two of which share an Ed25519 or
  an ML-DSA key: one key compromised in two identities does not count twice.
\<close>

theorem consensus_quorum_sound:
  assumes "verify_quorum sg cd trusted q now"
  shows "0 < q \<and> cd_valid_after cd \<le> now \<and> now < cd_valid_until cd \<and>
    (\<exists>ss pins. q \<le> length ss \<and> set ss \<subseteq> set (cd_signatures cd) \<and> distinct (map as_authority_id ss) \<and>
       list_all (counts sg trusted (compute_digest sg cd)) ss \<and>
       distinct (map (\<lambda>s. the (map_of trusted (as_authority_id s))) ss) \<and>
       map (\<lambda>s. component_pins sg (as_signature_bytes s)) ss = map Inr pins \<and>
       distinct (map fst pins) \<and> distinct (map snd pins))"
proof -
  from assms obtain v where v: "quorum_loop sg trusted (compute_digest sg cd) no_votes (cd_signatures cd) = Some v"
    and q: "q \<le> vo_count v" and w: "0 < q" "cd_valid_after cd \<le> now" "now < cd_valid_until cd"
    by (auto simp: verify_quorum_def not_less not_le split: if_splits option.splits)
  from quorum_loop_sound [OF tally_no_votes v] obtain ss
    where ss: "tally sg trusted (compute_digest sg cd) v ss" "set ss \<subseteq> set (cd_signatures cd)" by auto
  then have "distinct (map (\<lambda>s. the (map_of trusted (as_authority_id s))) ss)" "q \<le> length ss"
    "distinct (map as_authority_id ss)" "list_all (counts sg trusted (compute_digest sg cd)) ss"
    using q by (auto simp: tally_def)
  with tally_pins [OF ss(1)] ss(2) w show ?thesis by blast
qed

section \<open>Aggregation reaches the quorum\<close>

lemma component_pins_signed:
  assumes ok: "sigs_ok sg" and s: "identity_sign sg k msg = Inr s"
  shows "component_pins sg s = Inr (ed_public sg (hs_classical k), sg_sha256 sg (pq_public sg (hs_post_quantum k)))"
proof -
  have len: "length (hp_encoded (public_key sg k)) = PUBLIC_KEY_SIZE"
    using ok by (simp add: sigs_okD size_defs)
  from s obtain pf where "s = hp_encoded (public_key sg k) @ pf" by (auto simp: identity_sign_def ebind_eq_Inr)
  then have "take PUBLIC_KEY_SIZE s = hp_encoded (public_key sg k)" using len by simp
  then show ?thesis
    using decode_public_key_public_key [OF ok, of k] identity_sign_length [OF ok s] ok
    by (simp add: component_pins_def Signature_public_key_def sigs_okD)
qed

lemma compute_digest_signatures: "compute_digest sg (cd\<lparr>cd_signatures := x\<rparr>) = compute_digest sg cd"
  by (simp add: compute_digest_def consensus_bytes_def)

text \<open>The votes of honest authorities, one after the other.\<close>

lemma quorum_loop_honest:
  assumes ok: "sigs_ok sg"
    and "list_all2 (\<lambda>(n, k) s. as_authority_id s = n \<and> identity_sign sg k dg = Inr (as_signature_bytes s)) hs ss"
    and "\<And>n k. (n, k) \<in> set hs \<Longrightarrow> map_of trusted n = Some (verifying_key sg k)"
    and "distinct (rev (vo_authorities v) @ map fst hs)"
    and "distinct (rev (vo_keys v) @ map (verifying_key sg \<circ> snd) hs)"
    and "distinct (rev (vo_classical v) @ map (\<lambda>(n, k). ed_public sg (hs_classical k)) hs)"
    and "distinct (rev (vo_pq v) @ map (\<lambda>(n, k). sg_sha256 sg (pq_public sg (hs_post_quantum k))) hs)"
  shows "\<exists>v'. quorum_loop sg trusted dg v ss = Some v' \<and> vo_count v' = vo_count v + length hs"
  using assms(2-)
proof (induction hs ss arbitrary: v rule: list_all2_induct)
  case Nil
  then show ?case by simp
next
  case (Cons h hs s ss)
  obtain n k where h: "h = (n, k)" by (cases h)
  have s: "as_authority_id s = n" "identity_sign sg k dg = Inr (as_signature_bytes s)" using Cons.hyps(1) by (auto simp: h)
  have slice: "Signature_from_slice (as_signature_bytes s) = Inr (as_signature_bytes s)"
    using identity_sign_length [OF ok s(2)] by (simp add: Signature_from_slice_def)
  note pins = component_pins_signed [OF ok s(2)] and ver = identity_sign_verify_aux [OF ok s(2)]
  have t: "map_of trusted n = Some (verifying_key sg k)" using Cons.prems(1) by (simp add: h)
  let ?v = "\<lparr>vo_count = vo_count v + 1, vo_authorities = vo_authorities v @ [n],
      vo_keys = verifying_key sg k # vo_keys v, vo_classical = ed_public sg (hs_classical k) # vo_classical v,
      vo_pq = sg_sha256 sg (pq_public sg (hs_post_quantum k)) # vo_pq v\<rparr>"
  have "quorum_loop sg trusted dg v (s # ss) = quorum_loop sg trusted dg ?v ss"
    using Cons.prems(2-) s(1) t slice pins ver by (simp add: h)
  moreover have "\<exists>v'. quorum_loop sg trusted dg ?v ss = Some v' \<and> vo_count v' = vo_count ?v + length hs"
    using Cons.prems by (intro Cons.IH) (auto simp: h)
  ultimately show ?case by auto
qed

definition merge_all :: "sigs \<Rightarrow> ConsensusDocument \<Rightarrow> ConsensusDocument list \<Rightarrow> ConsensusDocument" where
  "merge_all sg cd docs = foldl (\<lambda>acc cd. fst (merge_signatures_from sg acc cd)) cd docs"

lemma merge_all_signed:
  assumes "distinct (map as_authority_id (old @ ss))"
  shows "merge_all sg (cd\<lparr>cd_signatures := old\<rparr>) (map (\<lambda>s. cd\<lparr>cd_signatures := [s]\<rparr>) ss) =
    cd\<lparr>cd_signatures := old @ ss\<rparr>"
  using assms
proof (induction ss arbitrary: old)
  case (Cons s ss)
  have "merge_signatures_from sg (cd\<lparr>cd_signatures := old\<rparr>) (cd\<lparr>cd_signatures := [s]\<rparr>) =
      (cd\<lparr>cd_signatures := old @ [s]\<rparr>, 1)"
    using Cons.prems by (simp add: merge_signatures_from_def compute_digest_signatures Let_def)
  then show ?case using Cons.IH [of "old @ [s]"] Cons.prems by (simp add: merge_all_def)
qed (simp add: merge_all_def)

lemma aggregation_quorum:
  assumes ok: "sigs_ok sg" and fresh: "cd_signatures cd = []"
    and period: "cd_valid_after cd \<le> now" "now < cd_valid_until cd"
    and docs: "map (\<lambda>(n, k). sign_with_authority sg n k cd) hs = map Inr (doc # docs)"
    and names: "distinct (map fst hs)"
    and keys: "distinct (map (verifying_key sg \<circ> snd) hs)"
      "distinct (map (\<lambda>(n, k). ed_public sg (hs_classical k)) hs)"
      "distinct (map (\<lambda>(n, k). sg_sha256 sg (pq_public sg (hs_post_quantum k))) hs)"
  shows "verify_quorum sg (merge_all sg doc docs) (map (\<lambda>(n, k). (n, verifying_key sg k)) hs) (length hs) now"
proof -
  let ?dg = "compute_digest sg cd"
  have "\<exists>s. as_authority_id s = n \<and> identity_sign sg k ?dg = Inr (as_signature_bytes s) \<and>
      sign_with_authority sg n k cd = Inr (cd\<lparr>cd_signatures := [s]\<rparr>)"
    if "is_ok (sign_with_authority sg n k cd)" for n k
    using that by (cases "identity_sign sg k ?dg")
      (auto simp: sign_with_authority_def fresh intro!: exI [of _ "\<lparr>as_authority_id = n, as_signature_bytes = _\<rparr>"])
  then obtain f where f: "is_ok (sign_with_authority sg n k cd) \<Longrightarrow> as_authority_id (f n k) = n \<and>
      identity_sign sg k ?dg = Inr (as_signature_bytes (f n k)) \<and>
      sign_with_authority sg n k cd = Inr (cd\<lparr>cd_signatures := [f n k]\<rparr>)" for n k
    by metis
  define ss where "ss = map (\<lambda>(n, k). f n k) hs"
  have ok_all: "is_ok (sign_with_authority sg n k cd)" if "(n, k) \<in> set hs" for n k
  proof -
    have "sign_with_authority sg n k cd \<in> set (map (\<lambda>(n, k). sign_with_authority sg n k cd) hs)"
      using that by force
    then show ?thesis unfolding docs by auto
  qed
  have "map (\<lambda>(n, k). sign_with_authority sg n k cd) hs = map Inr (map (\<lambda>s. cd\<lparr>cd_signatures := [s]\<rparr>) ss)"
    unfolding ss_def map_map using f ok_all by (intro map_cong) auto
  from this [unfolded docs] have d: "doc # docs = map (\<lambda>s. cd\<lparr>cd_signatures := [s]\<rparr>) ss"
    by (metis (no_types, lifting) inj_Inr inj_map_eq_map)
  have ids: "map as_authority_id ss = map fst hs"
    unfolding ss_def using f ok_all by auto
  obtain s0 ss0 where ss0: "ss = s0 # ss0" using d by (cases ss) auto
  have merged: "merge_all sg doc docs = cd\<lparr>cd_signatures := ss\<rparr>"
  proof -
    have "distinct (map as_authority_id ([s0] @ ss0))" using ids names unfolding ss0 by simp
    from merge_all_signed [OF this, of sg cd] d show ?thesis by (simp add: ss0)
  qed
  have l2: "list_all2 (\<lambda>(n, k) s. as_authority_id s = n \<and> identity_sign sg k ?dg = Inr (as_signature_bytes s)) hs ss"
    unfolding ss_def using f ok_all by (auto simp: list.rel_map intro!: list.rel_refl_strong)
  have t: "map_of (map (\<lambda>(n, k). (n, verifying_key sg k)) hs) n = Some (verifying_key sg k)" if "(n, k) \<in> set hs" for n k
    using that names by (intro map_of_is_SomeI) (force simp: comp_def case_prod_beta)+
  from quorum_loop_honest [OF ok l2, of "map (\<lambda>(n, k). (n, verifying_key sg k)) hs" no_votes, OF t] names keys
  obtain v where "quorum_loop sg (map (\<lambda>(n, k). (n, verifying_key sg k)) hs) ?dg no_votes ss = Some v"
    "vo_count v = length hs" by (auto simp: no_votes_def)
  moreover have "hs \<noteq> []" using docs by auto
  moreover have "cd_valid_after cd < cd_valid_until cd" using period by simp
  ultimately show ?thesis
    using period by (simp add: verify_quorum_def merged compute_digest_signatures not_le not_less leD)
qed

text \<open>
  C27. Aggregation reaches the quorum: when authorities with different names and no shared keys each sign
  the same content on their own, merging their one-signature documents, starting from any one of them,
  gives a document that passes the check with all of them as threshold, at every time of the
  validity period.
\<close>

theorem aggregation_reaches_quorum:
  assumes ok: "sigs_ok sg" and fresh: "cd_signatures cd = []"
    and period: "cd_valid_after cd \<le> now" "now < cd_valid_until cd"
    and docs: "map (\<lambda>(n, k). sign_with_authority sg n k cd) hs = map Inr (doc # docs)"
    and names: "distinct (map fst hs)"
    and keys: "distinct (map (verifying_key sg \<circ> snd) hs)"
      "distinct (map (\<lambda>(n, k). ed_public sg (hs_classical k)) hs)"
      "distinct (map (\<lambda>(n, k). sg_sha256 sg (pq_public sg (hs_post_quantum k))) hs)"
  shows "verify_quorum sg (merge_all sg doc docs) (map (\<lambda>(n, k). (n, verifying_key sg k)) hs) (length hs) now"
  by (rule aggregation_quorum [OF assms])

section \<open>Witnesses\<close>

text \<open>
  An instance of the primitives whose hash is the sum of the bytes, two authorities, and a document
  with one relay.
\<close>

definition sum_sigs :: sigs where
  "sum_sigs = fit_sigs\<lparr>sg_sha256 := \<lambda>m. fit 32 (to_be 4 (of_nat (sum_list (map unat m)) :: u32))\<rparr>"

lemma sigs_ok_sum: "sigs_ok sum_sigs"
  using sigs_ok_fit by (simp add: sigs_ok_def sum_sigs_def)

definition auth_a :: HybridSigningKey where "auth_a = \<lparr>hs_classical = [1], hs_post_quantum = [1]\<rparr>"
definition auth_b :: HybridSigningKey where "auth_b = \<lparr>hs_classical = [2], hs_post_quantum = [2]\<rparr>"

definition relay0 :: RelayDescriptor where
  "relay0 = RelayDescriptor_new (ascii ''r1'') (ascii ''192.0.2.7'') 9001 (replicate 32 5) (replicate 32 6) True 7 8"

definition doc0 :: ConsensusDocument where "doc0 = ConsensusDocument_new 100 200 [relay0]"

lemma doc0_sel: "cd_signatures doc0 = []" "cd_valid_after doc0 = 100" "cd_valid_until doc0 = 200"
  by (simp_all add: doc0_def ConsensusDocument_new_def)

definition doc_of :: "bytes \<Rightarrow> HybridSigningKey \<Rightarrow> ConsensusDocument" where
  "doc_of n k = (case sign_with_authority sum_sigs n k doc0 of Inr cd \<Rightarrow> cd | Inl _ \<Rightarrow> doc0)"

lemma doc_of: "sign_with_authority sum_sigs n k doc0 = Inr (doc_of n k)"
proof -
  have "length (compute_digest sum_sigs doc0) \<le> MAX_MESSAGE"
    using sigs_ok_sum by (simp add: compute_digest_def sigs_okD size_defs)
  from identity_sign_Inr [OF this, of sum_sigs k] show ?thesis
    by (auto simp: doc_of_def sign_with_authority_def is_ok_iff)
qed

lemma sum_fit: "length xs \<le> n \<Longrightarrow> sum_list (map unat (fit n xs)) = sum_list (map unat xs)"
  by (simp add: fit_def sum_list_replicate)

lemma fit_eq_iff: "length xs \<le> n \<Longrightarrow> length xs = length ys \<Longrightarrow> fit n xs = fit n ys \<longleftrightarrow> xs = ys"
  by (simp add: fit_def)

lemma sum_sha_eq_iff: "sg_sha256 sum_sigs m = sg_sha256 sum_sigs m' \<longleftrightarrow>
   (of_nat (sum_list (map unat m)) :: u32) = of_nat (sum_list (map unat m'))"
  by (simp add: sum_sigs_def fit_eq_iff be32.enc_eq_iff)

lemma sum_sigs_public: "ed_public sum_sigs = fit 32" "pq_public sum_sigs = fit 1952"
  by (simp_all add: sum_sigs_def fit_sigs_def)

lemma sum_keys:
  "ed_public sum_sigs (hs_classical auth_a) \<noteq> ed_public sum_sigs (hs_classical auth_b)"
  "sg_sha256 sum_sigs (pq_public sum_sigs (hs_post_quantum auth_a)) \<noteq>
   sg_sha256 sum_sigs (pq_public sum_sigs (hs_post_quantum auth_b))"
  "verifying_key sum_sigs auth_a \<noteq> verifying_key sum_sigs auth_b"
  by (simp_all add: verifying_key_def fingerprint_def sum_sha_eq_iff sum_sigs_public fit_eq_iff sum_fit
      auth_a_def auth_b_def)

lemma doc_pair_quorum:
  "verify_quorum sum_sigs (merge_all sum_sigs (doc_of [65] auth_a) [doc_of [66] auth_b])
     [([65], verifying_key sum_sigs auth_a), ([66], verifying_key sum_sigs auth_b)] (Suc (Suc 0)) 150"
  using aggregation_quorum [OF sigs_ok_sum, of doc0 150 "[([65], auth_a), ([66], auth_b)]" "doc_of [65] auth_a"
      "[doc_of [66] auth_b]"] sum_keys
  by (simp add: doc_of doc0_sel)

theorem aggregation_reaches_quorum_witness:
  "verify_quorum sum_sigs (merge_all sum_sigs (doc_of [65] auth_a) [doc_of [66] auth_b])
     [([65], verifying_key sum_sigs auth_a), ([66], verifying_key sum_sigs auth_b)] (Suc (Suc 0)) 199"
  using aggregation_reaches_quorum [OF sigs_ok_sum, of doc0 199 "[([65], auth_a), ([66], auth_b)]" "doc_of [65] auth_a"
      "[doc_of [66] auth_b]"] sum_keys
  by (simp add: doc_of doc0_sel)

theorem consensus_quorum_sound_witness:
  "\<exists>ss. Suc (Suc 0) \<le> length ss \<and> distinct (map as_authority_id ss) \<and>
     set ss \<subseteq> set (cd_signatures (merge_all sum_sigs (doc_of [65] auth_a) [doc_of [66] auth_b]))"
  using consensus_quorum_sound [OF doc_pair_quorum] by blast

theorem consensus_text_injective_witness:
  "consensus_bytes doc0 = consensus_bytes (ConsensusDocument_new 100 200 [relay0\<lparr>rd_signature := [1]\<rparr>]) \<and>
   cd_valid_after doc0 = 100"
proof -
  have eq: "consensus_bytes doc0 = consensus_bytes (ConsensusDocument_new 100 200 [relay0\<lparr>rd_signature := [1]\<rparr>])"
    by (simp add: doc0_def ConsensusDocument_new_def consensus_bytes_def descriptor_fields_def)
  have "list_all descriptor_wf (cd_relays doc0)"
    "list_all descriptor_wf (cd_relays (ConsensusDocument_new 100 200 [relay0\<lparr>rd_signature := [1]\<rparr>]))"
    by (simp_all add: doc0_def ConsensusDocument_new_def relay0_def RelayDescriptor_new_def descriptor_wf_def)
  from consensus_text_injective [OF eq this] eq show ?thesis by (simp add: ConsensusDocument_new_def)
qed

end
