(* ===== verification/Storage.thy ===== *)
theory Storage
  imports Strings "HOL-Library.AList"
begin

text \<open>
  Bounded reads and atomic replacement of files, \<open>src/src/core/storage.rs\<close>. The file system is
  an association list from paths to files. Every system call may fail: a fault function says
  which calls of a run do. A file has the size its metadata reports and the bytes a read
  delivers, which differ when the file grows meanwhile.
\<close>

type_synonym path = string

record inode =
  f_regular :: bool
  f_len :: nat
  f_bytes :: bytes

type_synonym fs = "(path \<times> inode) list"

definition plain_file :: "bytes \<Rightarrow> inode" where
  "plain_file bs = \<lparr>f_regular = True, f_len = length bs, f_bytes = bs\<rparr>"

datatype storage_error = NotFoundErr | InvalidData | InvalidInput | OsError

text \<open>The system calls of the two operations.\<close>

datatype call = OpenRead | Metadata | ReadAll | Mkdir | OpenTemp | WriteTemp | SyncTemp | Rename | SyncDir

section \<open>Reading\<close>

definition open_regular_file :: "(call \<Rightarrow> bool) \<Rightarrow> path \<Rightarrow> nat \<Rightarrow> fs \<Rightarrow> storage_error + inode" where
  "open_regular_file fault p maximum d =
    (case map_of d p of
       None \<Rightarrow> Inl NotFoundErr
     | Some f \<Rightarrow>
         if fault OpenRead then Inl OsError
         else if fault Metadata then Inl OsError
         else if \<not> f_regular f \<or> f_len f > maximum then Inl InvalidData
         else Inr f)"

definition read_bounded_file :: "(call \<Rightarrow> bool) \<Rightarrow> path \<Rightarrow> nat \<Rightarrow> fs \<Rightarrow> storage_error + bytes" where
  "read_bounded_file fault p maximum d =
    (if maximum + 1 \<ge> 2 ^ 64 then Inl InvalidInput
     else ebind (open_regular_file fault p maximum d) (\<lambda>f.
       if fault ReadAll then Inl OsError
       else
         let bs = take (maximum + 1) (f_bytes f) in
         if length bs > maximum then Inl InvalidData else Inr bs))"

section \<open>Atomic replacement\<close>

text \<open>
  The closure of \<open>atomic_write\<close>. A failing write leaves some prefix of the bytes in the temporary
  file; \<open>part\<close> is how many.
\<close>

definition write_temp_and_rename :: "(call \<Rightarrow> bool) \<Rightarrow> nat \<Rightarrow> path \<Rightarrow> path \<Rightarrow> bytes \<Rightarrow> fs \<Rightarrow> (storage_error + unit) \<times> fs" where
  "write_temp_and_rename fault part temp p bs d =
    (if fault OpenTemp \<or> map_of d temp \<noteq> None then (Inl OsError, d)
     else if fault WriteTemp then (Inl OsError, AList.update temp (plain_file (take part bs)) d)
     else if fault SyncTemp then (Inl OsError, AList.update temp (plain_file bs) d)
     else if fault Rename then (Inl OsError, AList.update temp (plain_file bs) d)
     else
       let d = AList.update p (plain_file bs) (AList.delete temp d) in
       if fault SyncDir then (Inl OsError, d) else (Inr (), d))"

definition atomic_write :: "(call \<Rightarrow> bool) \<Rightarrow> nat \<Rightarrow> path \<Rightarrow> path \<Rightarrow> bytes \<Rightarrow> fs \<Rightarrow> (storage_error + unit) \<times> fs" where
  "atomic_write fault part temp p bs d =
    (if fault Mkdir then (Inl OsError, d)
     else
       let (result, d) = write_temp_and_rename fault part temp p bs d in
       (result, if is_ok result then d else AList.delete temp d))"

section \<open>Properties\<close>

lemma read_bounded_fileD:
  assumes "read_bounded_file fault p maximum d = Inr bs"
  shows "length bs \<le> maximum" "\<exists>f. map_of d p = Some f \<and> f_regular f \<and> f_bytes f = bs"
  using assms
  by (auto simp: read_bounded_file_def open_regular_file_def ebind_eq_Inr Let_def min_def take_all
      split: option.splits if_splits)

lemma atomic_write_other:
  assumes "atomic_write fault part temp p bs d = (r, d')" and "q \<noteq> p" and "q \<noteq> temp"
  shows "map_of d' q = map_of d q"
  using assms
  by (auto simp: atomic_write_def write_temp_and_rename_def Let_def delete_conv' update_conv'
      split: if_splits prod.splits)

lemma atomic_write_target:
  assumes "atomic_write fault part temp p bs d = (r, d')" and "p \<noteq> temp"
  shows "map_of d' p = Some (plain_file bs) \<or> \<not> is_ok r \<and> map_of d' p = map_of d p"
  using assms
  by (auto simp: atomic_write_def write_temp_and_rename_def Let_def delete_conv' update_conv'
      split: if_splits prod.splits)



end
