(* ===== verification/Revocation.thy ===== *)
theory Revocation
  imports Consensus Storage
begin

text \<open>
  Identity retirement, \<open>src/src/core/revocation.rs\<close>: signed cumulative policies, their quorum, and the
  journal that refuses rollback at every start. JSON is third-party code: a parameter of type
  \<open>json\<close> decodes policies and encodes and decodes the journal, and \<open>json_ok\<close> says that decoding
  inverts encoding. The file system and its faults are those of the storage theory.
\<close>

section \<open>Policies\<close>

definition MAX_REVOKED_IDENTITIES :: nat where [size_defs]: "MAX_REVOKED_IDENTITIES = 512"
definition MAX_POLICY_BYTES :: nat where [size_defs]: "MAX_POLICY_BYTES = 512 * 1024"

record RevocationPolicy =
  rp_version :: u32
  rp_generation :: u64
  rp_authority_set :: bytes
  rp_revoked :: "bytes list"
  rp_signatures :: "AuthoritySignature list"

datatype retire_error =
    OversizedPolicy | InvalidRetiredIdentity | WeakOrDuplicate | InvalidSignatureShape | InvalidSigner
  | NeedsExactAuthoritySet | InvalidRetirementSignature | InvalidRetirementIdentity | AliasedSigners | LacksQuorum
  | StateDirectory | StateLocked | InvalidRollbackState | UnreadableState | EnrollmentInProgress
  | PolicyRequired | UnreadablePolicy | InvalidPolicyJson | RollbackRejected | CannotPersist

definition authority_set_digest :: "sigs \<Rightarrow> (bytes \<times> bytes) list \<Rightarrow> bytes" where
  "authority_set_digest sg keys =
    sg_sha256 sg (ascii ''AnonGuard-RevocationAuthoritySet-v1'' @ to_be 4 (of_nat (length keys) :: u32) @
      concat (map (\<lambda>(name, key). to_be 4 (of_nat (length name) :: u32) @ name @ key) (sort_key fst keys)))"

definition RevocationPolicy_new :: "sigs \<Rightarrow> u64 \<Rightarrow> (bytes \<times> bytes) list \<Rightarrow> bytes list \<Rightarrow> RevocationPolicy" where
  "RevocationPolicy_new sg generation keys revoked =
    \<lparr>rp_version = 2, rp_generation = generation, rp_authority_set = authority_set_digest sg keys,
     rp_revoked = revoked, rp_signatures = []\<rparr>"

fun check_revoked :: "bytes list \<Rightarrow> bytes list \<Rightarrow> retire_error + unit" where
  "check_revoked seen [] = Inr ()"
| "check_revoked seen (i # is) =
    (case VerifyingKey_from_bytes i of
       Inl _ \<Rightarrow> Inl InvalidRetiredIdentity
     | Inr key \<Rightarrow> if is_weak key \<or> i \<in> set seen then Inl WeakOrDuplicate else check_revoked (i # seen) is)"

definition signature_shape :: "AuthoritySignature \<Rightarrow> bool" where
  "signature_shape s \<longleftrightarrow> \<not> (as_authority_id s = [] \<or> length (as_authority_id s) > 128
     \<or> length (as_signature_bytes s) \<noteq> PROOF_SIZE)"

definition validate_shape :: "RevocationPolicy \<Rightarrow> retire_error + unit" where
  "validate_shape p =
    (if rp_version p \<noteq> 2 \<or> rp_generation p = 0 \<or> length (rp_revoked p) > MAX_REVOKED_IDENTITIES
       \<or> length (rp_signatures p) > 16 then Inl OversizedPolicy
     else ebind (check_revoked [] (rp_revoked p)) (\<lambda>_.
       if list_all signature_shape (rp_signatures p) then Inr () else Inl InvalidSignatureShape))"

definition policy_digest :: "sigs \<Rightarrow> RevocationPolicy \<Rightarrow> bytes" where
  "policy_digest sg p =
    sg_sha256 sg (ascii ''AnonGuard-IdentityRetirement-v1'' @ to_be 4 (rp_version p) @ to_be 8 (rp_generation p) @
      rp_authority_set p @ to_be 4 (of_nat (length (rp_revoked p)) :: u32) @ concat (sort (rp_revoked p)))"

definition policy_sign :: "sigs \<Rightarrow> bytes \<Rightarrow> HybridSigningKey \<Rightarrow> RevocationPolicy \<Rightarrow> retire_error + RevocationPolicy" where
  "policy_sign sg name k p =
    ebind (validate_shape p) (\<lambda>_.
      if name = [] \<or> length name > 128 \<or> list_ex (\<lambda>s. as_authority_id s = name) (rp_signatures p)
        \<or> length (rp_signatures p) = 16 then Inl InvalidSigner
      else case identity_sign sg k (policy_digest sg p) of
        Inl _ \<Rightarrow> Inl InvalidSigner
      | Inr s \<Rightarrow> Inr (p\<lparr>rp_signatures := rp_signatures p @ [\<lparr>as_authority_id = name, as_signature_bytes = s\<rparr>]\<rparr>))"

text \<open>The loop of \<open>verify\<close> with the pins of the signers and the components seen so far.\<close>

fun retire_loop :: "sigs \<Rightarrow> (bytes \<times> bytes) list \<Rightarrow> bytes \<Rightarrow> bytes list \<Rightarrow> bytes list \<Rightarrow> bytes list \<Rightarrow>
    AuthoritySignature list \<Rightarrow> retire_error + bytes list" where
  "retire_loop sg keys dg signers classicals pqs [] = Inr signers"
| "retire_loop sg keys dg signers classicals pqs (s # ss) =
    (case map_of keys (as_authority_id s) of
       None \<Rightarrow> retire_loop sg keys dg signers classicals pqs ss
     | Some key \<Rightarrow>
       (case Signature_from_slice (as_signature_bytes s) of
          Inl _ \<Rightarrow> Inl InvalidRetirementSignature
        | Inr pf \<Rightarrow>
          if is_ok (verify_strict sg key dg pf) then
            (case component_pins sg pf of
               Inl _ \<Rightarrow> Inl InvalidRetirementIdentity
             | Inr (classical, pq) \<Rightarrow>
                 if classical \<in> set classicals \<or> pq \<in> set pqs then Inl AliasedSigners
                 else retire_loop sg keys dg (List.insert key signers) (classical # classicals) (pq # pqs) ss)
          else retire_loop sg keys dg signers classicals pqs ss))"

definition policy_verify :: "sigs \<Rightarrow> (bytes \<times> bytes) list \<Rightarrow> nat \<Rightarrow> RevocationPolicy \<Rightarrow> retire_error + unit" where
  "policy_verify sg keys quorum p =
    ebind (validate_shape p) (\<lambda>_.
      if keys = [] \<or> length keys > 16 \<or> length (remdups (map snd keys)) \<noteq> length keys
        \<or> list_ex is_weak (map snd keys) \<or> quorum \<le> (2 * length keys) div 3 \<or> quorum > length keys
        \<or> rp_authority_set p \<noteq> authority_set_digest sg keys then Inl NeedsExactAuthoritySet
      else ebind (retire_loop sg keys (policy_digest sg p) [] [] [] (rp_signatures p)) (\<lambda>signers.
        if length signers < quorum then Inl LacksQuorum else Inr ()))"

section \<open>The journal\<close>

record AcceptedPolicy =
  ap_generation :: u64
  ap_digest :: bytes
  ap_revoked :: "bytes list"

record json =
  js_policy :: "bytes \<Rightarrow> RevocationPolicy option"
  js_accepted :: "bytes \<Rightarrow> AcceptedPolicy option"
  js_encode :: "AcceptedPolicy \<Rightarrow> bytes"

definition json_ok :: "json \<Rightarrow> bool" where
  "json_ok js \<longleftrightarrow> (\<forall>a. js_accepted js (js_encode js a) = Some a)"

text \<open>The faults of one start: preparing and opening the lock, the two reads, the write,
  and the removal of the lock, whose failure the code ignores.\<close>

record faults =
  fa_lock_dir :: bool
  fa_lock :: bool
  fa_lock_stat :: bool
  fa_journal :: "call \<Rightarrow> bool"
  fa_policy :: "call \<Rightarrow> bool"
  fa_write :: "call \<Rightarrow> bool"
  fa_part :: nat
  fa_temp :: path
  fa_unlock :: bool

definition read_previous :: "json \<Rightarrow> faults \<Rightarrow> path \<Rightarrow> fs \<Rightarrow> retire_error + AcceptedPolicy option" where
  "read_previous js fa journal d =
    (case read_bounded_file (fa_journal fa) journal MAX_POLICY_BYTES d of
       Inr bs \<Rightarrow> (case js_accepted js bs of Some a \<Rightarrow> Inr (Some a) | None \<Rightarrow> Inl InvalidRollbackState)
     | Inl NotFoundErr \<Rightarrow> Inr None
     | Inl _ \<Rightarrow> Inl UnreadableState)"

definition rejects :: "AcceptedPolicy \<Rightarrow> RevocationPolicy \<Rightarrow> bytes \<Rightarrow> bool" where
  "rejects a p dg \<longleftrightarrow> rp_generation p < ap_generation a \<or> (rp_generation p = ap_generation a \<and> dg \<noteq> ap_digest a)
     \<or> list_ex (\<lambda>i. i \<notin> set (rp_revoked p)) (ap_revoked a)"

definition invalid_journal :: "AcceptedPolicy \<Rightarrow> bool" where
  "invalid_journal a \<longleftrightarrow> ap_generation a = 0 \<or> length (ap_revoked a) > MAX_REVOKED_IDENTITIES
     \<or> length (remdups (ap_revoked a)) \<noteq> length (ap_revoked a)"

text \<open>From the read of the policy to the commit, with the lock held.\<close>

definition commit_policy :: "json \<Rightarrow> sigs \<Rightarrow> faults \<Rightarrow> path \<Rightarrow> path \<Rightarrow> (bytes \<times> bytes) list \<Rightarrow> nat \<Rightarrow>
    AcceptedPolicy option \<Rightarrow> fs \<Rightarrow> (retire_error + bytes list) \<times> fs" where
  "commit_policy js sg fa policy_path journal keys quorum previous d =
    (case read_bounded_file (fa_policy fa) policy_path MAX_POLICY_BYTES d of
       Inl _ \<Rightarrow> (Inl UnreadablePolicy, d)
     | Inr bs \<Rightarrow>
       (case js_policy js bs of
          None \<Rightarrow> (Inl InvalidPolicyJson, d)
        | Some p \<Rightarrow>
          (case policy_verify sg keys quorum p of
             Inl e \<Rightarrow> (Inl e, d)
           | Inr _ \<Rightarrow>
             let dg = policy_digest sg p in
             if (case previous of Some a \<Rightarrow> invalid_journal a | None \<Rightarrow> False) then (Inl InvalidRollbackState, d)
             else if (case previous of Some a \<Rightarrow> rejects a p dg | None \<Rightarrow> False) then (Inl RollbackRejected, d)
             else
               let a = \<lparr>ap_generation = rp_generation p, ap_digest = dg, ap_revoked = rp_revoked p\<rparr>;
                   (r, d) = atomic_write (fa_write fa) (fa_part fa) (fa_temp fa) journal (js_encode js a) d
               in if is_ok r then (Inr (remdups (rp_revoked p)), d) else (Inl CannotPersist, d))))"

definition load_and_commit :: "json \<Rightarrow> sigs \<Rightarrow> faults \<Rightarrow> path option \<Rightarrow> path \<Rightarrow> path \<Rightarrow> (bytes \<times> bytes) list \<Rightarrow> nat \<Rightarrow>
    fs \<Rightarrow> (retire_error + bytes list) \<times> fs" where
  "load_and_commit js sg fa policy_path journal lock keys quorum d =
    (case policy_path of
       Some pp \<Rightarrow>
         if fa_lock_dir fa then (Inl StateDirectory, d)
         else if fa_lock fa \<or> map_of d lock \<noteq> None then (Inl StateLocked, d)
         else
           let d = AList.update lock (plain_file []) d;
               (r, d) = (case read_previous js fa journal d of
                  Inl e \<Rightarrow> (Inl e, d)
                | Inr previous \<Rightarrow> commit_policy js sg fa pp journal keys quorum previous d)
           in (r, if fa_unlock fa then d else AList.delete lock d)
     | None \<Rightarrow>
         (case read_previous js fa journal d of
            Inl e \<Rightarrow> (Inl e, d)
          | Inr previous \<Rightarrow>
              if fa_lock_stat fa \<or> map_of d lock \<noteq> None then (Inl EnrollmentInProgress, d)
              else if previous \<noteq> None then (Inl PolicyRequired, d)
              else (Inr [], d)))"

section \<open>Quorum\<close>

lemma retire_loop_sound:
  assumes "retire_loop sg keys dg signers cs qs ss = Inr out" and "distinct signers"
  shows "distinct out \<and> (\<forall>key \<in> set out - set signers. \<exists>s \<in> set ss. map_of keys (as_authority_id s) = Some key \<and>
    verify_strict sg key dg (as_signature_bytes s) = Inr ())"
  using assms
proof (induction sg keys dg signers cs qs ss rule: retire_loop.induct)
  case (1 sg keys dg signers cs qs)
  then show ?case by simp
next
  case (2 sg keys dg signers cs qs s ss)
  show ?case
  proof (cases "map_of keys (as_authority_id s)")
    case None
    with 2(1) [OF None] 2(4,5) show ?thesis by auto
  next
    case (Some key)
    with 2(4) obtain pf where pf: "Signature_from_slice (as_signature_bytes s) = Inr pf" by (auto split: sum.splits)
    then have pf': "pf = as_signature_bytes s" by (auto simp: Signature_from_slice_def split: if_splits)
    show ?thesis
    proof (cases "is_ok (verify_strict sg key dg pf)")
      case False
      with 2(3) [OF Some pf False] 2(4,5) Some pf show ?thesis by auto
    next
      case True
      with 2(4) Some pf obtain c q where cq: "component_pins sg pf = Inr (c, q)" "\<not> (c \<in> set cs \<or> q \<in> set qs)"
        by (auto split: sum.splits if_splits)
      have "distinct out \<and> (\<forall>k \<in> set out - set (List.insert key signers). \<exists>s \<in> set ss. map_of keys (as_authority_id s) = Some k \<and>
          verify_strict sg k dg (as_signature_bytes s) = Inr ())"
        using 2(2) [OF Some pf True cq(1) refl cq(2)] 2(4,5) Some pf True cq by simp
      then show ?thesis using True Some pf' by (auto simp: is_ok_unit)
    qed
  qed
qed

lemma policy_verifyD:
  assumes "policy_verify sg keys quorum p = Inr ()"
  shows "validate_shape p = Inr ()" "2 * length keys < 3 * quorum" "quorum \<le> length keys"
    "rp_authority_set p = authority_set_digest sg keys"
    "\<exists>signers. quorum \<le> length signers \<and> distinct signers \<and> (\<forall>key \<in> set signers. \<exists>s \<in> set (rp_signatures p).
       map_of keys (as_authority_id s) = Some key \<and> verify_strict sg key (policy_digest sg p) (as_signature_bytes s) = Inr ())"
proof -
  from assms obtain out where v: "validate_shape p = Inr ()" "\<not> quorum \<le> 2 * length keys div 3" "quorum \<le> length keys"
    "rp_authority_set p = authority_set_digest sg keys"
    "retire_loop sg keys (policy_digest sg p) [] [] [] (rp_signatures p) = Inr out" "quorum \<le> length out"
    by (auto simp: policy_verify_def ebind_eq_Inr split: if_splits)
  then show "validate_shape p = Inr ()" "2 * length keys < 3 * quorum" "quorum \<le> length keys"
    "rp_authority_set p = authority_set_digest sg keys" by auto
  show "\<exists>signers. quorum \<le> length signers \<and> distinct signers \<and> (\<forall>key \<in> set signers. \<exists>s \<in> set (rp_signatures p).
       map_of keys (as_authority_id s) = Some key \<and> verify_strict sg key (policy_digest sg p) (as_signature_bytes s) = Inr ())"
    using retire_loop_sound [OF v(5)] v(6) by (intro exI [of _ out]) simp
qed

section \<open>The journal only moves forward\<close>

definition accepted_in :: "json \<Rightarrow> path \<Rightarrow> fs \<Rightarrow> AcceptedPolicy option" where
  "accepted_in js journal d = (case map_of d journal of Some f \<Rightarrow> js_accepted js (f_bytes f) | None \<Rightarrow> None)"

definition succeeds :: "AcceptedPolicy \<Rightarrow> AcceptedPolicy \<Rightarrow> bool" where
  "succeeds a b \<longleftrightarrow> ap_generation a \<le> ap_generation b \<and> set (ap_revoked a) \<subseteq> set (ap_revoked b) \<and>
     (ap_generation a = ap_generation b \<longrightarrow> ap_digest a = ap_digest b)"

lemma succeeds_refl: "succeeds a a"
  by (simp add: succeeds_def)

lemma succeeds_trans: "succeeds a b \<Longrightarrow> succeeds b c \<Longrightarrow> succeeds a c"
  by (auto simp: succeeds_def)

lemma read_previous_accepted:
  assumes "accepted_in js journal d = Some a" and "read_previous js fa journal d = Inr previous"
  shows "previous = Some a"
proof -
  obtain f where f: "map_of d journal = Some f" "js_accepted js (f_bytes f) = Some a"
    using assms(1) by (auto simp: accepted_in_def split: option.splits)
  show ?thesis
  proof (cases "read_bounded_file (fa_journal fa) journal MAX_POLICY_BYTES d")
    case (Inr bs)
    with read_bounded_fileD(2) [OF Inr] f have "bs = f_bytes f" by auto
    with assms(2) f Inr show ?thesis by (simp add: read_previous_def)
  next
    case (Inl e)
    moreover have "e \<noteq> NotFoundErr"
      using Inl f(1) by (auto simp: read_bounded_file_def open_regular_file_def Let_def split: if_splits)
    ultimately show ?thesis using assms(2) by (cases e) (simp_all add: read_previous_def)
  qed
qed

lemma commit_policy_cases:
  assumes "commit_policy js sg fa pp journal keys quorum previous d = (r, d')"
  obtains (refused) e where "r = Inl e" "d' = d"
  | (written) p w where "policy_verify sg keys quorum p = Inr ()"
      "case previous of Some a \<Rightarrow> \<not> rejects a p (policy_digest sg p) | None \<Rightarrow> True"
      "atomic_write (fa_write fa) (fa_part fa) (fa_temp fa) journal
         (js_encode js \<lparr>ap_generation = rp_generation p, ap_digest = policy_digest sg p, ap_revoked = rp_revoked p\<rparr>) d = (w, d')"
      "r = (if is_ok w then Inr (remdups (rp_revoked p)) else Inl CannotPersist)"
proof (cases "read_bounded_file (fa_policy fa) pp MAX_POLICY_BYTES d")
  case (Inl e)
  with assms have "r = Inl UnreadablePolicy \<and> d' = d" by (auto simp: commit_policy_def)
  with refused show thesis by blast
next
  case (Inr bs)
  note rd = Inr
  show thesis
  proof (cases "js_policy js bs")
    case None
    with assms rd have "r = Inl InvalidPolicyJson \<and> d' = d" by (auto simp: commit_policy_def)
    with refused show thesis by blast
  next
    case (Some p)
    show thesis
    proof (cases "policy_verify sg keys quorum p")
      case (Inl e)
      with assms rd Some have "r = Inl e \<and> d' = d" by (auto simp: commit_policy_def)
      with refused show thesis by blast
    next
      case (Inr u)
      let ?bad = "case previous of Some a \<Rightarrow> invalid_journal a \<or> rejects a p (policy_digest sg p) | None \<Rightarrow> False"
      let ?a = "\<lparr>ap_generation = rp_generation p, ap_digest = policy_digest sg p, ap_revoked = rp_revoked p\<rparr>"
      show thesis
      proof (cases ?bad)
        case True
        with assms rd Some Inr have "(r = Inl InvalidRollbackState \<or> r = Inl RollbackRejected) \<and> d' = d"
          by (cases previous) (auto simp: commit_policy_def Let_def split: if_splits)
        with refused show thesis by blast
      next
        case False
        obtain w d1 where w: "atomic_write (fa_write fa) (fa_part fa) (fa_temp fa) journal (js_encode js ?a) d = (w, d1)"
          by fastforce
        have "(r, d') = (if is_ok w then Inr (remdups (rp_revoked p)) else Inl CannotPersist, d1)"
          using assms rd Some Inr False w by (cases previous) (auto simp: commit_policy_def Let_def split: if_splits)
        with written [of p w] Inr False w show thesis by (cases previous) simp_all
      qed
    qed
  qed
qed

lemma commit_policy_succeeds:
  assumes js: "json_ok js" and temp: "fa_temp fa \<noteq> journal"
    and c: "commit_policy js sg fa pp journal keys quorum (Some a) d = (r, d')"
    and a: "accepted_in js journal d = Some a"
  shows "\<exists>b. accepted_in js journal d' = Some b \<and> succeeds a b \<and> (\<forall>ids. r = Inr ids \<longrightarrow> set ids = set (ap_revoked b))"
  using c
proof (cases rule: commit_policy_cases)
  case (refused e)
  with a succeeds_refl show ?thesis by auto
next
  case (written p w)
  let ?b = "\<lparr>ap_generation = rp_generation p, ap_digest = policy_digest sg p, ap_revoked = rp_revoked p\<rparr>"
  have s: "succeeds a ?b"
    using written(2) by (auto simp: rejects_def succeeds_def list_ex_iff not_less)
  from atomic_write_target [OF written(3)] temp consider
    "map_of d' journal = Some (plain_file (js_encode js ?b))" | "\<not> is_ok w" "map_of d' journal = map_of d journal" by auto
  then show ?thesis
  proof cases
    case 1
    with js s written(4) show ?thesis
      by (auto simp: accepted_in_def plain_file_def json_ok_def intro!: exI [of _ ?b] split: if_splits)
  next
    case 2
    with a written(4) succeeds_refl show ?thesis by (auto simp: accepted_in_def)
  qed
qed

text \<open>
  A deployment over time: starts with any policy file, key set, quorum and faults, and in between any
  change to files other than the journal.
\<close>

inductive deployment :: "json \<Rightarrow> path \<Rightarrow> path \<Rightarrow> fs \<Rightarrow> fs \<Rightarrow> bool" for js :: json and journal lock :: path where
  here: "deployment js journal lock d d"
| start: "deployment js journal lock d0 d \<Longrightarrow> fa_temp fa \<noteq> journal \<Longrightarrow>
    load_and_commit js sg fa pp journal lock keys quorum d = (r, d') \<Longrightarrow> deployment js journal lock d0 d'"
| edit: "deployment js journal lock d0 d \<Longrightarrow> map_of d' journal = map_of d journal \<Longrightarrow> deployment js journal lock d0 d'"

lemma load_and_commit_succeeds:
  assumes js: "json_ok js" and temp: "fa_temp fa \<noteq> journal" and lock: "lock \<noteq> journal"
    and l: "load_and_commit js sg fa pp journal lock keys quorum d = (r, d')"
    and a: "accepted_in js journal d = Some a"
  shows "\<exists>b. accepted_in js journal d' = Some b \<and> succeeds a b \<and> (\<forall>ids. r = Inr ids \<longrightarrow> set ids = set (ap_revoked b))"
proof (cases pp)
  case None
  have "d' = d \<and> (\<forall>ids. r \<noteq> Inr ids)"
  proof (cases "read_previous js fa journal d")
    case (Inr previous)
    with read_previous_accepted [OF a Inr] l None show ?thesis
      by (auto simp: load_and_commit_def split: if_splits)
  qed (use l None in \<open>auto simp: load_and_commit_def\<close>)
  with a succeeds_refl show ?thesis by blast
next
  case (Some path)
  show ?thesis
  proof (cases "fa_lock_dir fa \<or> fa_lock fa \<or> map_of d lock \<noteq> None")
    case True
    with l Some have "d' = d \<and> (\<forall>ids. r \<noteq> Inr ids)" by (auto simp: load_and_commit_def split: if_splits)
    with a succeeds_refl show ?thesis by blast
  next
    case False
    let ?d = "AList.update lock (plain_file []) d"
    have a': "accepted_in js journal ?d = Some a" using a lock by (simp add: accepted_in_def update_conv')
    obtain d1 where d1: "d' = (if fa_unlock fa then d1 else AList.delete lock d1)"
      and c: "(case read_previous js fa journal ?d of Inl e \<Rightarrow> (Inl e, ?d)
         | Inr previous \<Rightarrow> commit_policy js sg fa path journal keys quorum previous ?d) = (r, d1)"
      using l Some False by (auto simp: load_and_commit_def Let_def split: prod.splits)
    have "\<exists>b. accepted_in js journal d1 = Some b \<and> succeeds a b \<and> (\<forall>ids. r = Inr ids \<longrightarrow> set ids = set (ap_revoked b))"
    proof (cases "read_previous js fa journal ?d")
      case (Inl e)
      with c a' succeeds_refl show ?thesis by auto
    next
      case (Inr previous)
      with read_previous_accepted [OF a' Inr] c
      show ?thesis by (intro commit_policy_succeeds [OF js temp _ a']) simp
    qed
    moreover have "accepted_in js journal d' = accepted_in js journal d1"
      using lock by (simp add: d1 accepted_in_def delete_conv')
    ultimately show ?thesis by simp
  qed
qed

lemma deployment_succeeds:
  assumes "deployment js journal lock d0 d" and "json_ok js" and "lock \<noteq> journal" and "accepted_in js journal d0 = Some a"
  shows "\<exists>b. accepted_in js journal d = Some b \<and> succeeds a b"
  using assms
proof (induction rule: deployment.induct)
  case (here d)
  then show ?case using succeeds_refl by auto
next
  case (start d0 d fa sg pp keys quorum r d')
  then obtain b where b: "accepted_in js journal d = Some b" "succeeds a b" by auto
  from load_and_commit_succeeds [OF start.prems(1) start.hyps(2) start.prems(2) start.hyps(3) b(1)] b(2)
  show ?case using succeeds_trans by blast
next
  case (edit d0 d d')
  then show ?case by (auto simp: accepted_in_def)
qed

text \<open>
  C28. Once a deployment has accepted a retirement policy, then over any number of restarts, with any
  policy files, key sets, system call failures and changes to other files, the journal's
  generation never decreases, no generation is ever replaced by different content, and every
  retired identity stays retired: a later start that succeeds returns all of them, and it never
  succeeds without a policy.
\<close>

theorem retirement_monotone:
  assumes "json_ok js" and "lock \<noteq> journal" and "deployment js journal lock d0 d" and "accepted_in js journal d0 = Some a"
    and "fa_temp fa \<noteq> journal" and "load_and_commit js sg fa pp journal lock keys quorum d = (r, d')"
  shows "\<exists>b. accepted_in js journal d' = Some b \<and> succeeds a b \<and>
    (\<forall>ids. r = Inr ids \<longrightarrow> pp \<noteq> None \<and> set (ap_revoked a) \<subseteq> set ids)"
proof -
  obtain b where b: "accepted_in js journal d = Some b" "succeeds a b"
    using deployment_succeeds [OF assms(3,1,2,4)] by blast
  obtain c where c: "accepted_in js journal d' = Some c" "succeeds b c" "\<forall>ids. r = Inr ids \<longrightarrow> set ids = set (ap_revoked c)"
    using load_and_commit_succeeds [OF assms(1,5,2,6) b(1)] by blast
  have s: "succeeds a c" using b(2) c(2) by (rule succeeds_trans)
  moreover have "pp \<noteq> None" if "r = Inr ids" for ids
  proof
    assume "pp = None"
    with assms(6) that read_previous_accepted [OF b(1), of fa] show False
      by (auto simp: load_and_commit_def split: sum.splits if_splits)
  qed
  ultimately show ?thesis using c by (auto simp: succeeds_def)
qed

section \<open>Witness\<close>

text \<open>A self-delimiting encoding of the journal, for a concrete instance of the JSON parameter.\<close>

fun enc_text :: "bytes \<Rightarrow> bytes" where
  "enc_text [] = [0]"
| "enc_text (b # bs) = 1 # b # enc_text bs"

fun dec_text :: "bytes \<Rightarrow> (bytes \<times> bytes) option" where
  "dec_text (t # b # rest) =
    (if t = 0 then Some ([], b # rest)
     else case dec_text rest of Some (xs, rest) \<Rightarrow> Some (b # xs, rest) | None \<Rightarrow> None)"
| "dec_text [t] = (if t = 0 then Some ([], []) else None)"
| "dec_text [] = None"

lemma dec_enc_text: "dec_text (enc_text bs @ rest) = Some (bs, rest)"
proof (induction bs)
  case Nil
  then show ?case by (cases rest) simp_all
qed simp

fun enc_texts :: "bytes list \<Rightarrow> bytes" where
  "enc_texts [] = [0]"
| "enc_texts (x # xs) = 1 # enc_text x @ enc_texts xs"

fun dec_texts :: "nat \<Rightarrow> bytes \<Rightarrow> bytes list option" where
  "dec_texts 0 bs = None"
| "dec_texts (Suc n) bs =
    (case bs of
       [] \<Rightarrow> None
     | t # rest \<Rightarrow>
         if t = 0 then Some []
         else case dec_text rest of
           None \<Rightarrow> None
         | Some (x, rest) \<Rightarrow> map_option ((#) x) (dec_texts n rest))"

lemma dec_enc_texts: "length (enc_texts xs) \<le> n \<Longrightarrow> dec_texts n (enc_texts xs) = Some xs"
proof (induction xs arbitrary: n)
  case Nil
  then show ?case by (cases n) simp_all
next
  case (Cons x xs)
  then show ?case by (cases n) (simp_all add: dec_enc_text)
qed

definition json0 :: json where
  "json0 = \<lparr>js_policy = (\<lambda>_. None),
     js_accepted = (\<lambda>bs. case dec_text (drop 8 bs) of
        None \<Rightarrow> None
      | Some (dg, rest) \<Rightarrow> map_option (\<lambda>rs. \<lparr>ap_generation = from_be (take 8 bs), ap_digest = dg, ap_revoked = rs\<rparr>)
          (dec_texts (length rest) rest)),
     js_encode = (\<lambda>a. to_be 8 (ap_generation a) @ enc_text (ap_digest a) @ enc_texts (ap_revoked a))\<rparr>"

lemma json_ok_json0: "json_ok json0"
  by (simp add: json_ok_def json0_def dec_enc_text dec_enc_texts be64.dec_enc)

definition accepted0 :: AcceptedPolicy where
  "accepted0 = \<lparr>ap_generation = 1, ap_digest = replicate 32 7, ap_revoked = [replicate 32 9]\<rparr>"

definition disk0 :: fs where
  "disk0 = [(''journal'', plain_file (js_encode json0 accepted0)), (''policy'', plain_file [1])]"

definition faults0 :: faults where
  "faults0 = \<lparr>fa_lock_dir = False, fa_lock = False, fa_lock_stat = False, fa_journal = (\<lambda>_. False),
     fa_policy = (\<lambda>_. False), fa_write = (\<lambda>_. False), fa_part = 0, fa_temp = ''tmp'', fa_unlock = False\<rparr>"

definition start0 :: "(retire_error + bytes list) \<times> fs" where
  "start0 = load_and_commit json0 sum_sigs faults0 (Some ''policy'') ''journal'' ''lock''
     [([65], verifying_key sum_sigs auth_a)] 1 disk0"

theorem retirement_monotone_witness:
  "\<exists>b. accepted_in json0 ''journal'' (snd start0) = Some b \<and> succeeds accepted0 b"
proof -
  have a: "accepted_in json0 ''journal'' disk0 = Some accepted0"
    using json_ok_json0 by (simp add: accepted_in_def disk0_def plain_file_def json_ok_def)
  have l: "load_and_commit json0 sum_sigs faults0 (Some ''policy'') ''journal'' ''lock''
     [([65], verifying_key sum_sigs auth_a)] 1 disk0 = (fst start0, snd start0)" by (simp add: start0_def)
  have t: "fa_temp faults0 \<noteq> ''journal''" and lk: "''lock'' \<noteq> ''journal''" by (simp_all add: faults0_def)
  from retirement_monotone [OF json_ok_json0 lk deployment.here a t l] show ?thesis by blast
qed

end
