(* ===== verification/ExitPolicy.thy ===== *)
theory ExitPolicy
  imports Net
begin

text \<open>
  Exit relay policy, \<open>src/src/kernel/exit_policy.rs\<close>: which hosts, ports and addresses an exit
  connects to, and the connect path that validates every resolved address before it opens a
  socket. The resolver and the sockets are parameters: a lookup and a connect attempt answer
  with a value of the datatypes below. Error messages are left out, error kinds are kept.
\<close>

unbundle bit_operations_syntax

section \<open>Text operations of the host check\<close>

text \<open>
  \<open>str::trim\<close>: the number of bytes of a white space character at the front of a text, zero if there
  is none. The list is Unicode \<open>White_Space\<close> in UTF-8; \<open>ws_back\<close> reads the text reversed.
\<close>

definition ws_code :: "bytes \<Rightarrow> bool" where
  "ws_code w \<longleftrightarrow> w \<in> set ([[9], [10], [11], [12], [13], [32], [0xC2, 0x85], [0xC2, 0xA0], [0xE1, 0x9A, 0x80],
     [0xE2, 0x80, 0xA8], [0xE2, 0x80, 0xA9], [0xE2, 0x80, 0xAF], [0xE2, 0x81, 0x9F], [0xE3, 0x80, 0x80],
     [0xE2, 0x80, 0x80], [0xE2, 0x80, 0x81], [0xE2, 0x80, 0x82], [0xE2, 0x80, 0x83], [0xE2, 0x80, 0x84],
     [0xE2, 0x80, 0x85], [0xE2, 0x80, 0x86], [0xE2, 0x80, 0x87], [0xE2, 0x80, 0x88], [0xE2, 0x80, 0x89],
     [0xE2, 0x80, 0x8A]])"

definition ws_front :: "bytes \<Rightarrow> nat" where
  "ws_front s = (if ws_code (take 1 s) then 1 else if ws_code (take 2 s) then 2 else if ws_code (take 3 s) then 3 else 0)"

definition ws_back :: "bytes \<Rightarrow> nat" where
  "ws_back r = (if ws_code (rev (take 1 r)) then 1 else if ws_code (rev (take 2 r)) then 2
     else if ws_code (rev (take 3 r)) then 3 else 0)"

function skip :: "(bytes \<Rightarrow> nat) \<Rightarrow> bytes \<Rightarrow> bytes" where
  "skip f s = (if s = [] \<or> f s = 0 then s else skip f (drop (f s) s))"
  by auto
termination by (relation "measure (\<lambda>(f, s). length s)") auto

declare skip.simps [simp del]

definition trim :: "bytes \<Rightarrow> bytes" where
  "trim s = rev (skip ws_back (rev (skip ws_front s)))"

text \<open>
  \<open>str::to_lowercase\<close> as far as a comparison with ASCII text can see it: ASCII letters, and the two
  other characters whose lower case has an ASCII letter, U+0130 and U+212A. Every other
  character becomes one outside ASCII and is left as it is.
\<close>

fun to_lowercase :: "bytes \<Rightarrow> bytes" where
  "to_lowercase [] = []"
| "to_lowercase (b # s) =
    (if b = 0xC4 \<and> take 1 s = [0xB0] then [0x69, 0xCC, 0x87] @ to_lowercase (drop 1 s)
     else if b = 0xE2 \<and> take 2 s = [0x84, 0xAA] then 0x6B # to_lowercase (drop 2 s)
     else (if 65 \<le> b \<and> b \<le> 90 then b + 32 else b) # to_lowercase s)"

definition ends_with :: "bytes \<Rightarrow> string \<Rightarrow> bool" where
  "ends_with s suf \<longleftrightarrow> length suf \<le> length s \<and> drop (length s - length suf) s = ascii suf"

section \<open>The policy\<close>

record ExitPolicy =
  allow_private_networks :: bool
  blocked_ports :: "u16 list"
  connect_timeout :: nat

definition DEFAULT_CONNECT_TIMEOUT :: nat where "DEFAULT_CONNECT_TIMEOUT = 10"

definition ExitPolicy_default :: ExitPolicy where
  "ExitPolicy_default = \<lparr>allow_private_networks = False,
     blocked_ports = [25, 135, 137, 138, 139, 445, 22, 2375, 2376, 3306, 5432, 6379, 9200, 11211, 27017],
     connect_timeout = DEFAULT_CONNECT_TIMEOUT\<rparr>"

definition ExitPolicy_new :: "bool \<Rightarrow> ExitPolicy" where
  "ExitPolicy_new private = ExitPolicy_default\<lparr>allow_private_networks := private\<rparr>"

definition ExitPolicy_with_timeout :: "bool \<Rightarrow> nat \<Rightarrow> ExitPolicy" where
  "ExitPolicy_with_timeout private t = ExitPolicy_default\<lparr>allow_private_networks := private, connect_timeout := t\<rparr>"

text \<open>The IPv4 arm of \<open>is_ip_permitted\<close>, test by test.\<close>

definition v4_permitted :: "u8 \<Rightarrow> u8 \<Rightarrow> u8 \<Rightarrow> u8 \<Rightarrow> bool" where
  "v4_permitted a b c d =
    (if a = 127 then False
     else if (a = 0 \<and> b = 0 \<and> c = 0 \<and> d = 0) \<or> a = 0 then False
     else if a = 169 \<and> b = 254 then False
     else if a = 10 then False
     else if a = 172 \<and> 16 \<le> b \<and> b \<le> 31 then False
     else if a = 192 \<and> b = 168 then False
     else if 224 \<le> a \<and> a \<le> 239 then False
     else if a = 255 \<and> b = 255 \<and> c = 255 \<and> d = 255 then False
     else if a = 100 \<and> 64 \<le> b \<and> b \<le> 127 then False
     else if a = 192 \<and> b = 0 \<and> c = 2 then False
     else if a = 198 \<and> b = 51 \<and> c = 100 then False
     else if a = 203 \<and> b = 0 \<and> c = 113 then False
     else if a AND 0xF0 = 240 then False
     else if a = 192 \<and> b = 0 \<and> c = 0 then False
     else if a = 198 \<and> b AND 0xFE = 18 then False
     else True)"

text \<open>The IPv6 arm: the embedded IPv4 forms go back through the IPv4 arm.\<close>

definition v6_permitted :: "u16 \<Rightarrow> u16 \<Rightarrow> u16 \<Rightarrow> u16 \<Rightarrow> u16 \<Rightarrow> u16 \<Rightarrow> u16 \<Rightarrow> u16 \<Rightarrow> bool" where
  "v6_permitted s0 s1 s2 s3 s4 s5 s6 s7 =
    (if V6 s0 s1 s2 s3 s4 s5 s6 s7 = V6 0 0 0 0 0 0 0 1 then False
     else if V6 s0 s1 s2 s3 s4 s5 s6 s7 = V6 0 0 0 0 0 0 0 0 then False
     else if s0 AND 0xFF00 = 0xFF00 then False
     else if s0 AND 0xFFC0 = 0xFE80 then False
     else if s0 AND 0xFE00 = 0xFC00 then False
     else case to_ipv4 (V6 s0 s1 s2 s3 s4 s5 s6 s7) of
       Some (V4 a b c d) \<Rightarrow> v4_permitted a b c d
     | _ \<Rightarrow>
       if s0 = 0x0064 \<and> s1 = 0xFF9B \<and> s2 = 0 \<and> s3 = 0 \<and> s4 = 0 \<and> s5 = 0
       then v4_permitted (hi8 s6) (lo8 s6) (hi8 s7) (lo8 s7)
       else if s0 = 0x0064 \<and> s1 = 0xFF9B \<and> s2 = 1 then False
       else if s0 = 0x2002 then v4_permitted (hi8 s1) (lo8 s1) (hi8 s2) (lo8 s2)
       else if s0 = 0x2001 \<and> s1 = 0 then False
       else if s0 = 0x2001 \<and> s1 = 0x0DB8 then False
       else if s0 = 0x2001 \<and> s1 AND 0xFFF0 = 0x0020 then False
       else if s0 = 0x0100 \<and> s1 = 0 \<and> s2 = 0 \<and> s3 = 0 then False
       else True)"

definition is_ip_permitted :: "ExitPolicy \<Rightarrow> IpAddr \<Rightarrow> bool" where
  "is_ip_permitted pol ip =
    (if allow_private_networks pol then True
     else case ip of
       V4 a b c d \<Rightarrow> v4_permitted a b c d
     | V6 s0 s1 s2 s3 s4 s5 s6 s7 \<Rightarrow> v6_permitted s0 s1 s2 s3 s4 s5 s6 s7)"

definition is_permitted :: "ExitPolicy \<Rightarrow> bytes \<Rightarrow> u16 \<Rightarrow> bool" where
  "is_permitted pol host port =
    (if port \<in> set (blocked_ports pol) then False
     else
       let lower = to_lowercase (trim host) in
       if ends_with lower ''.onion'' then False
       else if allow_private_networks pol then True
       else if lower = ascii ''localhost'' \<or> ends_with lower ''.localhost'' \<or> ends_with lower ''.local''
         \<or> ends_with lower ''.internal'' \<or> ends_with lower ''.onion''
         \<or> lower = ascii ''metadata.google.internal'' \<or> lower = ascii ''instance-data'' then False
       else case parse_ip host of
         Some ip \<Rightarrow> is_ip_permitted pol ip
       | None \<Rightarrow> True)"

definition is_exit_target_permitted :: "bytes \<Rightarrow> u16 \<Rightarrow> bool" where
  "is_exit_target_permitted host port = is_permitted ExitPolicy_default host port"

section \<open>The connect path\<close>

datatype io_kind = PermissionDenied | TimedOut | NotFound | OtherKind nat

type_synonym SocketAddr = "IpAddr \<times> u16"

fun validate_resolved_ips :: "ExitPolicy \<Rightarrow> IpAddr list \<Rightarrow> io_kind + unit" where
  "validate_resolved_ips pol [] = Inr ()"
| "validate_resolved_ips pol (ip # ips) =
    (if \<not> is_ip_permitted pol ip then Inl PermissionDenied else validate_resolved_ips pol ips)"

datatype 'c connect_outcome = Connected 'c | ConnectError io_kind | DeadlinePassed

text \<open>The loop over the addresses, with the sockets opened so far, the last one last.\<close>

fun connect_loop :: "(SocketAddr \<Rightarrow> 'c connect_outcome) \<Rightarrow> io_kind \<Rightarrow> SocketAddr list \<Rightarrow> SocketAddr list \<Rightarrow>
    (io_kind + 'c) \<times> SocketAddr list" where
  "connect_loop connect err tried [] = (Inl err, tried)"
| "connect_loop connect err tried (a # as) =
    (case connect a of
       Connected c \<Rightarrow> (Inr c, tried @ [a])
     | ConnectError e \<Rightarrow> connect_loop connect e (tried @ [a]) as
     | DeadlinePassed \<Rightarrow> (Inl TimedOut, tried @ [a]))"

definition connect_resolved :: "(SocketAddr \<Rightarrow> 'c connect_outcome) \<Rightarrow> ExitPolicy \<Rightarrow> SocketAddr list \<Rightarrow>
    (io_kind + 'c) \<times> SocketAddr list" where
  "connect_resolved connect pol addrs =
    (case validate_resolved_ips pol (map fst addrs) of
       Inl e \<Rightarrow> (Inl e, [])
     | Inr _ \<Rightarrow> connect_loop connect NotFound [] addrs)"

datatype lookup_outcome = Resolved "SocketAddr list" | LookupError io_kind | LookupTimeout

definition resolve_and_connect :: "(bytes \<Rightarrow> u16 \<Rightarrow> lookup_outcome) \<Rightarrow> (SocketAddr \<Rightarrow> 'c connect_outcome) \<Rightarrow>
    ExitPolicy \<Rightarrow> bytes \<Rightarrow> u16 \<Rightarrow> (io_kind + 'c) \<times> SocketAddr list" where
  "resolve_and_connect lookup connect pol host port =
    (if \<not> is_permitted pol host port then (Inl PermissionDenied, [])
     else case lookup host port of
       LookupTimeout \<Rightarrow> (Inl TimedOut, [])
     | LookupError e \<Rightarrow> (Inl e, [])
     | Resolved addrs \<Rightarrow> connect_resolved connect pol addrs)"

section \<open>The IPv4 arm is a table of prefixes\<close>

text \<open>
  The special-purpose IPv4 networks of the comments as address and prefix length, and
  membership by the netmask.
\<close>

definition octet_mask :: "nat \<Rightarrow> nat \<Rightarrow> u8" where
  "octet_mask len i = (if 8 * (i + 1) \<le> len then 255 else if len \<le> 8 * i then 0
     else of_nat (256 - 2 ^ (8 * (i + 1) - len)))"

definition in_prefix :: "u8 list \<Rightarrow> u8 list \<times> nat \<Rightarrow> bool" where
  "in_prefix addr net \<longleftrightarrow> (\<forall>i \<in> set [0..<4]. addr ! i AND octet_mask (snd net) i = fst net ! i)"

definition special_v4 :: "(u8 list \<times> nat) list" where
  "special_v4 =
    [([0, 0, 0, 0], 8), ([10, 0, 0, 0], 8), ([100, 64, 0, 0], 10), ([127, 0, 0, 0], 8), ([169, 254, 0, 0], 16),
     ([172, 16, 0, 0], 12), ([192, 0, 0, 0], 24), ([192, 0, 2, 0], 24), ([192, 168, 0, 0], 16),
     ([198, 18, 0, 0], 15), ([198, 51, 100, 0], 24), ([203, 0, 113, 0], 24), ([224, 0, 0, 0], 4),
     ([240, 0, 0, 0], 4), ([255, 255, 255, 255], 32)]"

lemma u8_cases: "(\<forall>n \<in> set [0..255]. P (of_int n :: u8)) \<Longrightarrow> P b"
proof -
  assume all: "\<forall>n \<in> set [0..255]. P (of_int n :: u8)"
  have "uint b < 256" using uint_lt2p [of b] by simp
  then have "uint b \<in> set [0..255]" by (simp only: set_upto atLeastAtMost_iff) simp
  with all have "P (of_int (uint b))" by blast
  then show "P b" by simp
qed

lemma u8_ranges_all:
  "((b :: u8) AND 240 = 16 \<longleftrightarrow> 16 \<le> b \<and> b \<le> 31) \<and> (b AND 192 = 64 \<longleftrightarrow> 64 \<le> b \<and> b \<le> 127) \<and>
   (b AND 240 = 224 \<longleftrightarrow> 224 \<le> b \<and> b \<le> 239) \<and> b AND 255 = b"
  by (rule u8_cases, code_simp)

lemmas u8_ranges =
  u8_ranges_all [THEN conjunct1] u8_ranges_all [THEN conjunct2, THEN conjunct1]
  u8_ranges_all [THEN conjunct2, THEN conjunct2, THEN conjunct1]
  u8_ranges_all [THEN conjunct2, THEN conjunct2, THEN conjunct2]

lemma octet_masks:
  "octet_mask 8 0 = 255" "octet_mask 8 1 = 0" "octet_mask 8 2 = 0" "octet_mask 8 3 = 0"
  "octet_mask 10 0 = 255" "octet_mask 10 1 = 192" "octet_mask 10 2 = 0" "octet_mask 10 3 = 0"
  "octet_mask 12 0 = 255" "octet_mask 12 1 = 240" "octet_mask 12 2 = 0" "octet_mask 12 3 = 0"
  "octet_mask 15 0 = 255" "octet_mask 15 1 = 254" "octet_mask 15 2 = 0" "octet_mask 15 3 = 0"
  "octet_mask 16 0 = 255" "octet_mask 16 1 = 255" "octet_mask 16 2 = 0" "octet_mask 16 3 = 0"
  "octet_mask 24 0 = 255" "octet_mask 24 1 = 255" "octet_mask 24 2 = 255" "octet_mask 24 3 = 0"
  "octet_mask 32 0 = 255" "octet_mask 32 1 = 255" "octet_mask 32 2 = 255" "octet_mask 32 3 = 255"
  "octet_mask 4 0 = 240" "octet_mask 4 1 = 0" "octet_mask 4 2 = 0" "octet_mask 4 3 = 0"
  by (simp_all add: octet_mask_def)

lemma in_prefix_unfold:
  "in_prefix [a, b, c, d] ([n0, n1, n2, n3], len) \<longleftrightarrow>
   a AND octet_mask len 0 = n0 \<and> b AND octet_mask len 1 = n1 \<and> c AND octet_mask len 2 = n2 \<and>
   d AND octet_mask len 3 = n3"
proof -
  have u: "[0..<4] = [0, 1, 2, 3 :: nat]" by (simp add: upt_rec)
  show ?thesis by (simp add: in_prefix_def u numeral_2_eq_2 numeral_3_eq_3)
qed

lemma v4_permitted_iff:
  "v4_permitted a b c d \<longleftrightarrow> \<not> list_ex (in_prefix [a, b, c, d]) special_v4"
proof -
  have "list_ex (in_prefix [a, b, c, d]) special_v4 \<longleftrightarrow>
      a = 0 \<or> a = 10 \<or> a = 100 \<and> 64 \<le> b \<and> b \<le> 127 \<or> a = 127 \<or> a = 169 \<and> b = 254 \<or> a = 172 \<and> 16 \<le> b \<and> b \<le> 31
      \<or> a = 192 \<and> b = 0 \<and> c = 0 \<or> a = 192 \<and> b = 0 \<and> c = 2 \<or> a = 192 \<and> b = 168 \<or> a = 198 \<and> b AND 254 = 18
      \<or> a = 198 \<and> b = 51 \<and> c = 100 \<or> a = 203 \<and> b = 0 \<and> c = 113 \<or> 224 \<le> a \<and> a \<le> 239
      \<or> a AND 240 = 240 \<or> a = 255 \<and> b = 255 \<and> c = 255 \<and> d = 255"
    unfolding special_v4_def
    by (simp add: in_prefix_unfold octet_masks u8_ranges del: One_nat_def)
  moreover have "(if P then False else Q) \<longleftrightarrow> \<not> P \<and> Q" for P Q by simp
  ultimately show ?thesis unfolding v4_permitted_def by (simp only: de_Morgan_disj)
      (rule iffI; elim conjE; intro conjI; (assumption | blast | rule TrueI))
qed



section \<open>No socket is opened to a refused address\<close>

lemma validate_resolved_ips_ok: "is_ok (validate_resolved_ips pol ips) \<longleftrightarrow> list_all (is_ip_permitted pol) ips"
  by (induction ips) auto

lemma connect_loop_tried:
  "set (snd (connect_loop connect e tried addrs)) \<subseteq> set tried \<union> set addrs"
  by (induction addrs arbitrary: e tried) (fastforce split: connect_outcome.splits)+

lemma connect_loop_connected:
  "fst (connect_loop connect e tried addrs) = Inr c \<Longrightarrow> \<exists>a \<in> set addrs. connect a = Connected c"
  by (induction addrs arbitrary: e tried) (auto split: connect_outcome.splits)

lemma resolve_and_connect_tried:
  assumes "resolve_and_connect lookup connect pol host port = (r, tried)" and "a \<in> set tried"
  shows "is_ip_permitted pol (fst a)"
proof -
  obtain addrs where "lookup host port = Resolved addrs" "connect_resolved connect pol addrs = (r, tried)"
    using assms by (auto simp: resolve_and_connect_def split: if_splits lookup_outcome.splits)
  moreover from this assms(2) have ok: "is_ok (validate_resolved_ips pol (map fst addrs))"
    by (auto simp: connect_resolved_def split: sum.splits)
  ultimately have "a \<in> set addrs"
    using assms(2) connect_loop_tried [of connect NotFound "[]" addrs]
    by (auto simp: connect_resolved_def split: sum.splits)
  with ok show ?thesis by (auto simp: validate_resolved_ips_ok list_all_iff)
qed

text \<open>
  An exit opens sockets only towards addresses the resolver returned for this request, and only
  when the name, the port and every one of the returned addresses are permitted: one refused address
  in the answer (DNS rebinding) and no socket is opened at all. A stream it hands out is the one
  such an attempt connected.
\<close>

theorem exit_connect_pinned:
  assumes "resolve_and_connect lookup connect pol host port = (r, tried)"
  shows "(tried \<noteq> [] \<longrightarrow> is_permitted pol host port \<and> (\<exists>addrs. lookup host port = Resolved addrs \<and>
      set tried \<subseteq> set addrs \<and> list_all (\<lambda>a. is_ip_permitted pol (fst a)) addrs)) \<and>
    (\<forall>c. r = Inr c \<longrightarrow> (\<exists>addrs. lookup host port = Resolved addrs \<and>
      (\<exists>a \<in> set addrs. is_ip_permitted pol (fst a) \<and> connect a = Connected c)))"
proof (cases "is_permitted pol host port")
  case False
  with assms show ?thesis by (auto simp: resolve_and_connect_def)
next
  case True
  show ?thesis
  proof (cases "lookup host port")
    case (Resolved addrs)
    show ?thesis
    proof (cases "is_ok (validate_resolved_ips pol (map fst addrs))")
      case ok: True
      then have r: "connect_loop connect NotFound [] addrs = (r, tried)"
        using assms True Resolved by (auto simp: resolve_and_connect_def connect_resolved_def is_ok_iff)
      have all: "list_all (\<lambda>a. is_ip_permitted pol (fst a)) addrs"
        using ok by (simp add: validate_resolved_ips_ok list.pred_map comp_def)
      have "\<exists>a \<in> set addrs. is_ip_permitted pol (fst a) \<and> connect a = Connected c" if "r = Inr c" for c
        using connect_loop_connected [of connect NotFound "[]" addrs c] r that all by (fastforce simp: list_all_iff)
      then show ?thesis
        using connect_loop_tried [of connect NotFound "[]" addrs] r True Resolved all by simp
    next
      case bad: False
      then obtain e where "validate_resolved_ips pol (map fst addrs) = Inl e"
        by (cases "validate_resolved_ips pol (map fst addrs)") auto
      then show ?thesis using assms True Resolved by (auto simp: resolve_and_connect_def connect_resolved_def)
    qed
  qed (use assms True in \<open>auto simp: resolve_and_connect_def\<close>)
qed

definition sample_lookup :: "bytes \<Rightarrow> u16 \<Rightarrow> lookup_outcome" where
  "sample_lookup host port = Resolved [(V4 1 1 1 1, port), (V4 8 8 8 8, port)]"

definition sample_connect :: "SocketAddr \<Rightarrow> nat connect_outcome" where
  "sample_connect a = (if fst a = V4 1 1 1 1 then ConnectError (OtherKind 111) else Connected 7)"

theorem exit_connect_pinned_witness:
  "resolve_and_connect sample_lookup sample_connect ExitPolicy_default (ascii ''example.org'') 443 =
     (Inr 7, [(V4 1 1 1 1, 443), (V4 8 8 8 8, 443)]) \<and>
   is_permitted ExitPolicy_default (ascii ''example.org'') 443"
proof -
  have "resolve_and_connect sample_lookup sample_connect ExitPolicy_default (ascii ''example.org'') 443 =
     (Inr 7, [(V4 1 1 1 1, 443), (V4 8 8 8 8, 443)])" by code_simp
  with exit_connect_pinned [OF this] show ?thesis by blast
qed

text \<open>
  Networks of the IPv6 special-purpose registry that the code permits although a comment says it
  validates against the full registry: benchmarking (2001:2::/48), documentation (3fff::/20) and
  segment routing identifiers (5f00::/16).
\<close>

lemma registry_gap:
  "is_ip_permitted ExitPolicy_default (V6 0x2001 2 0 0 0 0 0 1)"
  "is_ip_permitted ExitPolicy_default (V6 0x3FFF 0 0 0 0 0 0 1)"
  "is_ip_permitted ExitPolicy_default (V6 0x5F00 0 0 0 0 0 0 1)"
  by code_simp+

end
