(* ===== verification/Relay.thy ===== *)
theory Relay
  imports OnionPath Session ExitPolicy
begin

text \<open>
  One connection of a relay, \<open>handle_relay_inner\<close> of \<open>src/src/gateway/server.rs\<close>. The loop waits for the
  cell that decides the relay's role (EXTEND, SESSION or RELAY), and then serves as an intermediate
  hop or as an exit. The branches of its \<open>select!\<close> are one definition each on the record
  \<open>relay_conn\<close>, which holds the loop's local variables. Sockets, the resolver, the TLS link to the
  next relay and random draws are arguments; \<open>wr\<close> says whether the write of a branch succeeds
  before its deadline. Every branch also returns what it puts on the wire.
\<close>

section \<open>State\<close>

datatype relay_mode = AwaitingSetup | ExitHop | MiddleHop u32

record relay_conn =
  rc_hop :: RelayCircuitHop
  rc_mode :: relay_mode
  rc_upload_closed :: bool
  rc_write_failed_at :: "nat option"
  rc_window :: SendWindow
  rc_received :: u32
  rc_destination_eof :: bool
  rc_pending_data :: "bytes option"
  rc_pending_ack :: "u32 option"
  rc_prefer_data :: bool
  rc_last_progress :: nat

datatype relay_error =
    RelayMsg string | RelayCell cell_error | RelayCircuit CircuitError | RelayFlow flow_error
  | RelaySession sess_error | RelayWrite

text \<open>A cell to the client is recorded with its command and data and as the frame written.\<close>

datatype relay_out =
    ToClient CellCommand bytes bytes
  | ForwardedToClient bytes
  | ToDestination bytes
  | ShutdownDestination
  | ToDownstream bytes
  | OpenSocket SocketAddr

datatype relay_result =
    Go relay_conn | Halt | Fail relay_error | EnterSession RelayCircuitHop Profile

section \<open>Opening the connection\<close>

definition relay_start :: "nat \<Rightarrow> RelayCircuitHop \<Rightarrow> relay_conn" where
  "relay_start now hop =
    \<lparr>rc_hop = hop, rc_mode = AwaitingSetup, rc_upload_closed = False, rc_write_failed_at = None,
     rc_window = SendWindow_default, rc_received = 0, rc_destination_eof = False, rc_pending_data = None,
     rc_pending_ack = None, rc_prefer_data = False, rc_last_progress = now\<rparr>"

text \<open>The first cell must be a CREATE; \<open>None\<close> is a timeout or a read error.\<close>

definition relay_open :: "sigs \<Rightarrow> kex \<Rightarrow> bytes \<Rightarrow> bytes \<Rightarrow> bytes \<Rightarrow> HybridSigningKey \<Rightarrow> bool \<Rightarrow> nat \<Rightarrow> bytes option \<Rightarrow>
    relay_result \<times> relay_out list" where
  "relay_open sg kx relay_secret kem_rnd rnd key wr now buf =
    (case buf of
       None \<Rightarrow> (Fail (RelayMsg ''Failed to read initial CREATE cell''), [])
     | Some raw \<Rightarrow>
       (case parse raw of
          Inl e \<Rightarrow> (Fail (RelayCell e), [])
        | Inr create_cell \<Rightarrow>
          (case handle_create_cell sg kx relay_secret kem_rnd rnd create_cell key of
             Inl e \<Rightarrow> (Fail (RelayCircuit e), [])
           | Inr (hop, created) \<Rightarrow>
               if wr then (Go (relay_start now hop), [ForwardedToClient (serialize created)])
               else (Fail RelayWrite, []))))"

text \<open>A cell the relay originates: built, sealed with its own layer and written.\<close>

definition originate :: "crypto \<Rightarrow> bytes \<Rightarrow> RelayCircuitHop \<Rightarrow> CellCommand \<Rightarrow> u16 \<Rightarrow> bytes \<Rightarrow>
    relay_error + RelayCircuitHop \<times> bytes" where
  "originate cr rnd hop cmd sid data =
    (case OnionCell_new rnd (rh_circuit_id hop) 0 cmd sid data of
       Inl e \<Rightarrow> Inl (RelayCell e)
     | Inr cell \<Rightarrow>
       (case wrap_backward_originate cr hop (serialize cell) of
          (hop', wire, Inl e) \<Rightarrow> Inl (RelayCircuit e)
        | (hop', wire, Inr _) \<Rightarrow> Inr (hop', wire)))"

section \<open>The exit\<close>

definition exit_done :: "relay_conn \<Rightarrow> bool" where
  "exit_done s \<longleftrightarrow> rc_destination_eof s \<and> drained (rc_window s) \<and> rc_pending_data s = None \<and> rc_pending_ack s = None"

definition exit_destroy :: "crypto \<Rightarrow> bytes \<Rightarrow> bool \<Rightarrow> relay_conn \<Rightarrow> relay_result \<times> relay_out list" where
  "exit_destroy cr rnd wr s =
    (case originate cr rnd (rc_hop s) Destroy 1 [] of
       Inl e \<Rightarrow> (Fail e, [])
     | Inr (hop, wire) \<Rightarrow> if wr then (Halt, [ToClient Destroy [] wire]) else (Fail RelayWrite, []))"

definition exit_on_client :: "crypto \<Rightarrow> nat \<Rightarrow> bool \<Rightarrow> bytes option \<Rightarrow> relay_conn \<Rightarrow> relay_result \<times> relay_out list" where
  "exit_on_client cr now wr cell s =
    (case cell of
       None \<Rightarrow> (Halt, [])
     | Some buf \<Rightarrow>
       (case peel_forward cr (rc_hop s) buf of
          (hop, buf, Inr (AddressedToThisRelay cmd len)) \<Rightarrow>
            let s = s\<lparr>rc_hop := hop\<rparr>;
                payload = subslice 45 (45 + len) buf
            in if cmd = Data then
                 if rc_upload_closed s then (Halt, [])
                 else if \<not> wr then (Halt, [])
                 else (case checked_add (rc_received s) 1 of
                         None \<Rightarrow> (Fail (RelayMsg ''Receive data counter exhausted''), [ToDestination payload])
                       | Some n \<Rightarrow> (Go (s\<lparr>rc_last_progress := now, rc_received := n, rc_pending_ack := Some n\<rparr>),
                                    [ToDestination payload]))
               else if cmd = DataAck then
                 (case acknowledge (rc_window s) payload of
                    Inl e \<Rightarrow> (Fail (RelayFlow e), [])
                  | Inr w \<Rightarrow> (Go (s\<lparr>rc_window := w, rc_last_progress := now\<rparr>), []))
               else if cmd = End then
                 if rc_upload_closed s then (Halt, [])
                 else if wr then (Go (s\<lparr>rc_upload_closed := True\<rparr>), [ShutdownDestination])
                 else (Halt, [])
               else if cmd = Dummy then (Go s, [])
               else (Halt, [])
        | _ \<Rightarrow> (Halt, [])))"

definition exit_on_destination :: "nat \<Rightarrow> bytes option \<Rightarrow> relay_conn \<Rightarrow> relay_result \<times> relay_out list" where
  "exit_on_destination now data s =
    (case data of
       Some bs \<Rightarrow> (Go (s\<lparr>rc_last_progress := now, rc_pending_data := Some bs\<rparr>), [])
     | None \<Rightarrow> (Go (s\<lparr>rc_destination_eof := True\<rparr>), []))"

text \<open>The clock: which of an acknowledgement, a data cell and a dummy is due.\<close>

definition exit_choice :: "relay_conn \<Rightarrow> relay_error + relay_conn \<times> CellCommand \<times> bytes" where
  "exit_choice s =
    (let data_ready = rc_pending_data s \<noteq> None \<and> available (rc_window s) in
     if rc_pending_ack s \<noteq> None \<and> (\<not> data_ready \<or> \<not> rc_prefer_data s) then
       Inr (s\<lparr>rc_pending_ack := None\<rparr>, DataAck, to_be 4 (the (rc_pending_ack s)))
     else if data_ready then
       (case sent (rc_window s) of
          Inl e \<Rightarrow> Inl (RelayFlow e)
        | Inr w \<Rightarrow> Inr (s\<lparr>rc_window := w, rc_pending_data := None\<rparr>, Data, the (rc_pending_data s)))
     else Inr (s, Dummy, []))"

definition exit_on_clock :: "crypto \<Rightarrow> bytes \<Rightarrow> nat \<Rightarrow> bool \<Rightarrow> relay_conn \<Rightarrow> relay_result \<times> relay_out list" where
  "exit_on_clock cr rnd now wr s =
    (if now - rc_last_progress s \<ge> secs 60 then (Fail (RelayMsg ''Exit stream idle deadline exceeded''), [])
     else case exit_choice (s\<lparr>rc_prefer_data := \<not> rc_prefer_data s\<rparr>) of
       Inl e \<Rightarrow> (Fail e, [])
     | Inr (s, cmd, data) \<Rightarrow>
       (case originate cr rnd (rc_hop s) cmd 1 data of
          Inl e \<Rightarrow> (Fail e, [])
        | Inr (hop, wire) \<Rightarrow>
            if wr then (Go (s\<lparr>rc_hop := hop\<rparr>), [ToClient cmd data wire]) else (Fail RelayWrite, [])))"

section \<open>The intermediate hop\<close>

definition middle_on_client :: "crypto \<Rightarrow> nat \<Rightarrow> bool \<Rightarrow> u32 \<Rightarrow> bytes option \<Rightarrow> relay_conn \<Rightarrow> relay_result \<times> relay_out list" where
  "middle_on_client cr now wr downstream_id cell s =
    (case cell of
       None \<Rightarrow> (Halt, [])
     | Some buf \<Rightarrow>
       (case intermediate_forward cr (rc_hop s) downstream_id buf of
          None \<Rightarrow> (Halt, [])
        | Some (hop, buf) \<Rightarrow>
            if wr then (Go (s\<lparr>rc_hop := hop\<rparr>), [ToDownstream buf])
            else (Go (s\<lparr>rc_hop := hop, rc_write_failed_at := Some now\<rparr>), [])))"

definition middle_on_downstream :: "crypto \<Rightarrow> bool \<Rightarrow> u32 \<Rightarrow> bytes option \<Rightarrow> relay_conn \<Rightarrow> relay_result \<times> relay_out list" where
  "middle_on_downstream cr wr downstream_id cell s =
    (case cell of
       None \<Rightarrow> (Halt, [])
     | Some buf \<Rightarrow>
       (case intermediate_backward cr (rc_hop s) downstream_id buf of
          None \<Rightarrow> (Halt, [])
        | Some buf \<Rightarrow> if wr then (Go s, [ForwardedToClient buf]) else (Halt, [])))"

section \<open>Setup\<close>

record 'c setup_env =
  en_exit_allowed :: bool
  en_economy_cover :: bool
  en_is_mesh_target :: "bytes \<Rightarrow> u16 \<Rightarrow> bool"
  en_policy :: ExitPolicy
  en_lookup :: "bytes \<Rightarrow> u16 \<Rightarrow> lookup_outcome"
  en_connect :: "SocketAddr \<Rightarrow> 'c connect_outcome"
  en_link :: "'c \<Rightarrow> bytes \<Rightarrow> 'c option"
  en_draws :: "u32 list"
  en_exchange :: "'c \<Rightarrow> bytes \<Rightarrow> bytes option"

text \<open>The redraw loop for the id of the downstream link.\<close>

fun draw_link_id :: "u32 \<Rightarrow> u32 list \<Rightarrow> u32 option" where
  "draw_link_id cid [] = None"
| "draw_link_id cid (d # ds) = (if d = 0 \<or> d = cid then draw_link_id cid ds else Some d)"

text \<open>
  The future that extends the circuit: the checks on the payload, the connection to the next
  relay, its TLS link under the pin, and the CREATE exchange. It returns the link id and the frame
  read from the next relay, and the sockets it opened.
\<close>

definition extend_circuit :: "bytes \<Rightarrow> 'c setup_env \<Rightarrow> RelayCircuitHop \<Rightarrow> bytes \<Rightarrow>
    (relay_error + u32 \<times> bytes) \<times> SocketAddr list" where
  "extend_circuit rnd env hop payload =
    (if length payload < 32 then (Inl (RelayMsg ''EXTEND identity pin missing''), [])
     else case decode_extend_payload (take (length payload - 32) payload) of
       Inl e \<Rightarrow> (Inl (RelayCircuit e), [])
     | Inr (next_h, next_p, next_pub, next_mlkem_pub, hop_index) \<Rightarrow>
         if hop_index \<noteq> rh_hop_index hop + 1 then (Inl (RelayMsg ''EXTEND rejected: hop index''), [])
         else if hop_index \<ge> MAX_HOPS then (Inl (RelayMsg ''EXTEND rejected: max chain depth''), [])
         else if \<not> en_exit_allowed env \<and> \<not> en_is_mesh_target env next_h next_p
         then (Inl (RelayMsg ''EXTEND rejected: not a mesh node''), [])
         else
           let pin_offset = 1 + 1 + length next_h + 2 + 32 + 1184 in
           if length payload \<noteq> pin_offset + 32 then (Inl (RelayMsg ''EXTEND requires a pin''), [])
           else
             let next_pin = drop pin_offset payload;
                 (r, tried) = resolve_and_connect (en_lookup env) (en_connect env) (en_policy env) next_h next_p
             in (case r of
                   Inl _ \<Rightarrow> Inl (RelayMsg ''Next-hop connection failed'')
                 | Inr socket \<Rightarrow>
                   (case en_link env socket next_pin of
                      None \<Rightarrow> Inl (RelayMsg ''Next-hop TLS authentication failed'')
                    | Some link \<Rightarrow>
                      (case draw_link_id (rh_circuit_id hop) (en_draws env) of
                         None \<Rightarrow> Inl (RelayMsg ''Next-hop setup deadline exceeded'')
                       | Some next_id \<Rightarrow>
                         (case build_create_cell rnd (rh_context_id hop) next_pub next_mlkem_pub hop_index of
                            Inl e \<Rightarrow> Inl (RelayCircuit e)
                          | Inr c_cell \<Rightarrow>
                            (case en_exchange env link (serialize (c_cell\<lparr>cell_circuit_id := next_id\<rparr>)) of
                               None \<Rightarrow> Inl (RelayMsg ''no CREATED response from next hop'')
                             | Some resp \<Rightarrow> Inr (next_id, resp))))), tried))"

definition setup_extend :: "crypto \<Rightarrow> bytes \<Rightarrow> bool \<Rightarrow> 'c setup_env \<Rightarrow> bytes \<Rightarrow> relay_conn \<Rightarrow> relay_result \<times> relay_out list" where
  "setup_extend cr rnd wr env payload s =
    (case extend_circuit rnd env (rc_hop s) payload of
       (Inr (downstream_id, resp), tried) \<Rightarrow>
         if from_be (subslice 0 4 resp) \<noteq> downstream_id then (Halt, map OpenSocket tried)
         else
           (case wrap_backward_originate cr (rc_hop s) (put 0 (to_be 4 (rh_circuit_id (rc_hop s))) resp) of
              (hop, wire, Inl _) \<Rightarrow> (Halt, map OpenSocket tried)
            | (hop, wire, Inr _) \<Rightarrow>
                if wr then (Go (s\<lparr>rc_hop := hop, rc_mode := MiddleHop downstream_id\<rparr>),
                            map OpenSocket tried @ [ForwardedToClient wire])
                else (Halt, map OpenSocket tried))
     | (Inl e, tried) \<Rightarrow>
         (Halt, map OpenSocket tried @
           (case OnionCell_new rnd (rh_circuit_id (rc_hop s)) 0 Destroy 0 [] of
              Inl _ \<Rightarrow> []
            | Inr cell \<Rightarrow>
                (case wrap_backward_originate cr (rc_hop s) (serialize cell) of
                   (_, wire, _) \<Rightarrow> if wr then [ToClient Destroy [] wire] else []))))"

definition setup_session :: "crypto \<Rightarrow> bytes \<Rightarrow> bool \<Rightarrow> 'c setup_env \<Rightarrow> bytes \<Rightarrow> nat \<Rightarrow> relay_conn \<Rightarrow>
    relay_result \<times> relay_out list" where
  "setup_session cr rnd wr env buf len s =
    (if \<not> en_exit_allowed env \<or> rh_hop_index (rc_hop s) < 2 \<or> subslice 9 11 buf \<noteq> [0, 0]
     then (Fail (RelayMsg ''Padded sessions require an exit and stream zero''), [])
     else case Profile_decode (subslice 45 (45 + len) buf) of
       Inl e \<Rightarrow> (Fail (RelaySession e), [])
     | Inr profile \<Rightarrow>
         if en_economy_cover env \<and> profile \<noteq> Balanced \<and> profile \<noteq> LongTail
         then (Fail (RelayMsg ''Economy link cover requires the balanced session profile''), [])
         else (case originate cr rnd (rc_hop s) SessionAccepted 0 (Profile_encode profile) of
                 Inl e \<Rightarrow> (Fail e, [])
               | Inr (hop, wire) \<Rightarrow>
                   if wr then (EnterSession hop profile, [ToClient SessionAccepted (Profile_encode profile) wire])
                   else (Fail RelayWrite, [])))"

definition setup_relay :: "crypto \<Rightarrow> bytes \<Rightarrow> bool \<Rightarrow> 'c setup_env \<Rightarrow> bytes \<Rightarrow> relay_conn \<Rightarrow> relay_result \<times> relay_out list" where
  "setup_relay cr rnd wr env payload s =
    (case decode_relay_target payload of
       Inl _ \<Rightarrow> (Go s, [])
     | Inr (target_h, target_p) \<Rightarrow>
         if \<not> en_exit_allowed env \<and> \<not> en_is_mesh_target env target_h target_p then (Halt, [])
         else
           (case resolve_and_connect (en_lookup env) (en_connect env) (en_policy env) target_h target_p of
              (Inl _, tried) \<Rightarrow> (Halt, map OpenSocket tried)
            | (Inr _, tried) \<Rightarrow>
                (case OnionCell_new rnd (rh_circuit_id (rc_hop s)) 0 Relay 0 (ascii ''CONNECTED'') of
                   Inl _ \<Rightarrow> (Go s, map OpenSocket tried)
                 | Inr cell \<Rightarrow>
                   (case wrap_backward_originate cr (rc_hop s) (serialize cell) of
                      (hop, wire, Inl _) \<Rightarrow> (Halt, map OpenSocket tried)
                    | (hop, wire, Inr _) \<Rightarrow>
                        if wr then (Go (s\<lparr>rc_hop := hop, rc_mode := ExitHop\<rparr>),
                                    map OpenSocket tried @ [ToClient Relay (ascii ''CONNECTED'') wire])
                        else (Go (s\<lparr>rc_hop := hop\<rparr>), map OpenSocket tried)))))"

definition setup_on_client :: "crypto \<Rightarrow> bytes \<Rightarrow> bool \<Rightarrow> 'c setup_env \<Rightarrow> bytes option \<Rightarrow> relay_conn \<Rightarrow>
    relay_result \<times> relay_out list" where
  "setup_on_client cr rnd wr env cell s =
    (case cell of
       None \<Rightarrow> (Halt, [])
     | Some buf \<Rightarrow>
       (case peel_forward cr (rc_hop s) buf of
          (hop, buf, Inr (AddressedToThisRelay cmd len)) \<Rightarrow>
            let s = s\<lparr>rc_hop := hop\<rparr> in
            if cmd = Extend then setup_extend cr rnd wr env (subslice 45 (45 + len) buf) s
            else if cmd = Session then setup_session cr rnd wr env buf len s
            else if cmd = Relay then setup_relay cr rnd wr env (subslice 45 (45 + len) buf) s
            else (Halt, [])
        | _ \<Rightarrow> (Halt, [])))"

section \<open>The loop\<close>

datatype relay_event =
    ClientCell "bytes option" | DestinationData "bytes option" | ExitClock
  | DownstreamCell "bytes option" | IdleTimeout | DrainDeadline

text \<open>Which branches the \<open>select!\<close> of the current mode offers.\<close>

fun offered :: "nat \<Rightarrow> relay_conn \<Rightarrow> relay_event \<Rightarrow> bool" where
  "offered now s (ClientCell _) \<longleftrightarrow> (case rc_mode s of MiddleHop _ \<Rightarrow> rc_write_failed_at s = None | _ \<Rightarrow> True)"
| "offered now s (DestinationData _) \<longleftrightarrow> rc_mode s = ExitHop \<and> rc_pending_data s = None \<and> \<not> rc_destination_eof s"
| "offered now s ExitClock \<longleftrightarrow> rc_mode s = ExitHop"
| "offered now s (DownstreamCell _) \<longleftrightarrow> (case rc_mode s of MiddleHop _ \<Rightarrow> True | _ \<Rightarrow> False)"
| "offered now s IdleTimeout \<longleftrightarrow> True"
| "offered now s DrainDeadline \<longleftrightarrow> (case rc_mode s of MiddleHop _ \<Rightarrow>
     (case rc_write_failed_at s of Some t \<Rightarrow> now \<ge> t + secs 5 | None \<Rightarrow> False) | _ \<Rightarrow> False)"

definition relay_turn :: "crypto \<Rightarrow> bytes \<Rightarrow> nat \<Rightarrow> bool \<Rightarrow> 'c setup_env \<Rightarrow> relay_event \<Rightarrow> relay_conn \<Rightarrow>
    relay_result \<times> relay_out list" where
  "relay_turn cr rnd now wr env ev s =
    (if rc_mode s = ExitHop \<and> exit_done s then exit_destroy cr rnd wr s
     else case ev of
       ClientCell cell \<Rightarrow>
         (case rc_mode s of
            AwaitingSetup \<Rightarrow> setup_on_client cr rnd wr env cell s
          | ExitHop \<Rightarrow> exit_on_client cr now wr cell s
          | MiddleHop did \<Rightarrow> middle_on_client cr now wr did cell s)
     | DestinationData data \<Rightarrow> exit_on_destination now data s
     | ExitClock \<Rightarrow> exit_on_clock cr rnd now wr s
     | DownstreamCell cell \<Rightarrow>
         (case rc_mode s of MiddleHop did \<Rightarrow> middle_on_downstream cr wr did cell s | _ \<Rightarrow> (Halt, []))
     | IdleTimeout \<Rightarrow> (Halt, [])
     | DrainDeadline \<Rightarrow> (Halt, []))"

text \<open>Runs of the loop, with the events taken and what was put on the wire.\<close>

inductive relay_run :: "crypto \<Rightarrow> 'c setup_env \<Rightarrow> relay_conn \<Rightarrow> (relay_event \<times> relay_out list) list \<Rightarrow> relay_conn \<Rightarrow> bool"
  for cr :: crypto and env :: "'c setup_env" and s0 :: relay_conn where
  relay_init: "relay_run cr env s0 [] s0"
| relay_step: "relay_run cr env s0 tr s \<Longrightarrow> offered now s ev \<Longrightarrow> relay_turn cr rnd now wr env ev s = (Go s', outs) \<Longrightarrow>
    relay_run cr env s0 (tr @ [(ev, outs)]) s'"

section \<open>Sockets\<close>

lemma extend_circuit_tried:
  assumes "extend_circuit rnd env hop payload = (r, tried)" and "a \<in> set tried"
  shows "is_ip_permitted (en_policy env) (fst a)"
  using assms
  by (auto simp: extend_circuit_def Let_def split: if_splits sum.splits prod.splits
      intro: resolve_and_connect_tried)

lemma setup_relay_tried:
  assumes "setup_relay cr rnd wr env payload s = (r, outs)" and "OpenSocket a \<in> set outs"
  shows "is_ip_permitted (en_policy env) (fst a)"
  using assms
  by (auto simp: setup_relay_def split: if_splits sum.splits prod.splits option.splits
      intro: resolve_and_connect_tried)

lemma setup_extend_tried:
  assumes "setup_extend cr rnd wr env payload s = (r, outs)" and "OpenSocket a \<in> set outs"
  shows "is_ip_permitted (en_policy env) (fst a)"
proof -
  obtain q tried where e: "extend_circuit rnd env (rc_hop s) payload = (q, tried)" by fastforce
  have "a \<in> set tried"
    using assms e by (auto simp: setup_extend_def split: if_splits sum.splits prod.splits)
  with e show ?thesis by (rule extend_circuit_tried)
qed

lemma setup_session_tried:
  "setup_session cr rnd wr env buf len s = (r, outs) \<Longrightarrow> OpenSocket a \<notin> set outs"
  by (auto simp: setup_session_def split: if_splits sum.splits prod.splits)

lemma setup_on_client_tried:
  assumes "setup_on_client cr rnd wr env cell s = (r, outs)" and "OpenSocket a \<in> set outs"
  shows "is_ip_permitted (en_policy env) (fst a)"
proof -
  from assms obtain buf hop b cmd len where c: "cell = Some buf"
    "peel_forward cr (rc_hop s) buf = (hop, b, Inr (AddressedToThisRelay cmd len))"
    by (auto simp: setup_on_client_def split: option.splits prod.splits sum.splits PeelOutcome.splits)
  let ?s = "s\<lparr>rc_hop := hop\<rparr>"
  consider "setup_extend cr rnd wr env (subslice 45 (45 + len) b) ?s = (r, outs)"
    | "setup_session cr rnd wr env b len ?s = (r, outs)"
    | "setup_relay cr rnd wr env (subslice 45 (45 + len) b) ?s = (r, outs)"
    using assms c by (auto simp: setup_on_client_def Let_def split: if_splits)
  then show ?thesis
    using assms(2) by cases (auto dest: setup_extend_tried setup_session_tried setup_relay_tried)
qed

lemma other_turns_tried:
  "exit_destroy cr rnd wr s = (r, outs) \<Longrightarrow> OpenSocket a \<notin> set outs"
  "exit_on_client cr now wr cell s = (r, outs) \<Longrightarrow> OpenSocket a \<notin> set outs"
  "exit_on_destination now data s = (r, outs) \<Longrightarrow> OpenSocket a \<notin> set outs"
  "exit_on_clock cr rnd now wr s = (r, outs) \<Longrightarrow> OpenSocket a \<notin> set outs"
  "middle_on_client cr now wr did cell s = (r, outs) \<Longrightarrow> OpenSocket a \<notin> set outs"
  "middle_on_downstream cr wr did cell s = (r, outs) \<Longrightarrow> OpenSocket a \<notin> set outs"
       apply (auto simp: exit_destroy_def split: sum.splits if_splits prod.splits) [1]
      apply (auto simp: exit_on_client_def Let_def split: option.splits prod.splits sum.splits PeelOutcome.splits if_splits) [1]
     apply (auto simp: exit_on_destination_def split: option.splits) [1]
    apply (auto simp: exit_on_clock_def split: sum.splits if_splits prod.splits) [1]
   apply (auto simp: middle_on_client_def split: option.splits prod.splits if_splits) [1]
  apply (auto simp: middle_on_downstream_def split: option.splits if_splits) [1]
  done


section \<open>The exit stream\<close>

text \<open>What a trace says of the bytes of a stream.\<close>

definition dest_in :: "(relay_event \<times> relay_out list) list \<Rightarrow> bytes" where
  "dest_in tr = concat (map (\<lambda>(ev, _). case ev of DestinationData (Some bs) \<Rightarrow> bs | _ \<Rightarrow> []) tr)"

definition data_cells :: "relay_out list \<Rightarrow> bytes list" where
  "data_cells outs = concat (map (\<lambda>w. case w of ToClient Data d _ \<Rightarrow> [d] | _ \<Rightarrow> []) outs)"

definition dest_writes :: "relay_out list \<Rightarrow> bytes list" where
  "dest_writes outs = concat (map (\<lambda>w. case w of ToDestination d \<Rightarrow> [d] | _ \<Rightarrow> []) outs)"

definition all_outs :: "(relay_event \<times> relay_out list) list \<Rightarrow> relay_out list" where
  "all_outs tr = concat (map snd tr)"

definition pending_bytes :: "relay_conn \<Rightarrow> bytes" where
  "pending_bytes s = (case rc_pending_data s of Some bs \<Rightarrow> bs | None \<Rightarrow> [])"

lemma trace_snoc:
  "dest_in (tr @ [(ev, outs)]) = dest_in tr @ (case ev of DestinationData (Some bs) \<Rightarrow> bs | _ \<Rightarrow> [])"
  "data_cells (all_outs (tr @ [(ev, outs)])) = data_cells (all_outs tr) @ data_cells outs"
  "dest_writes (all_outs (tr @ [(ev, outs)])) = dest_writes (all_outs tr) @ dest_writes outs"
  by (simp_all add: dest_in_def data_cells_def dest_writes_def all_outs_def)

definition exit_inv :: "(relay_event \<times> relay_out list) list \<Rightarrow> relay_conn \<Rightarrow> bool" where
  "exit_inv tr s \<longleftrightarrow>
    concat (data_cells (all_outs tr)) @ pending_bytes s = dest_in tr \<and>
    sw_inv (rc_window s) \<and> unat (sw_sent (rc_window s)) = length (data_cells (all_outs tr)) \<and>
    unat (rc_received s) = length (dest_writes (all_outs tr)) \<and>
    (\<forall>n. rc_pending_ack s = Some n \<longrightarrow> n = rc_received s)"

lemma outs_simps [simp]:
  "data_cells [] = []" "dest_writes [] = []"
  "data_cells (map OpenSocket xs) = []" "dest_writes (map OpenSocket xs) = []"
  "data_cells (map OpenSocket xs @ ys) = data_cells ys" "dest_writes (map OpenSocket xs @ ys) = dest_writes ys"
  by (induction xs) (simp_all add: data_cells_def dest_writes_def)

lemma outs_single [simp]:
  "data_cells [ToClient c d w] = (if c = Data then [d] else [])" "dest_writes [ToClient c d w] = []"
  "data_cells [ForwardedToClient w] = []" "dest_writes [ForwardedToClient w] = []"
  "data_cells [ToDestination d] = []" "dest_writes [ToDestination d] = [d]"
  "data_cells [ShutdownDestination] = []" "dest_writes [ShutdownDestination] = []"
  "data_cells [ToDownstream w] = []" "dest_writes [ToDownstream w] = []"
  by (simp_all add: data_cells_def dest_writes_def split: CellCommand.splits)

definition quiet :: "relay_conn \<Rightarrow> relay_conn \<Rightarrow> relay_out list \<Rightarrow> bool" where
  "quiet s s' outs \<longleftrightarrow> rc_window s' = rc_window s \<and> rc_received s' = rc_received s \<and>
     rc_pending_data s' = rc_pending_data s \<and> rc_pending_ack s' = rc_pending_ack s \<and>
     data_cells outs = [] \<and> dest_writes outs = []"

lemma setup_quiet:
  assumes "setup_on_client cr rnd wr env cell s = (Go s', outs)"
  shows "quiet s s' outs"
proof -
  from assms obtain buf hop b cmd len where c: "cell = Some buf"
    "peel_forward cr (rc_hop s) buf = (hop, b, Inr (AddressedToThisRelay cmd len))"
    by (auto simp: setup_on_client_def split: option.splits prod.splits sum.splits PeelOutcome.splits)
  let ?s = "s\<lparr>rc_hop := hop\<rparr>"
  consider "setup_extend cr rnd wr env (subslice 45 (45 + len) b) ?s = (Go s', outs)"
    | "setup_session cr rnd wr env b len ?s = (Go s', outs)"
    | "setup_relay cr rnd wr env (subslice 45 (45 + len) b) ?s = (Go s', outs)"
    using assms c by (auto simp: setup_on_client_def Let_def split: if_splits)
  then show ?thesis
  proof cases
    case 1
    then show ?thesis by (auto simp: setup_extend_def quiet_def split: prod.splits sum.splits if_splits)
  next
    case 2
    then show ?thesis by (auto simp: setup_session_def split: if_splits sum.splits prod.splits)
  next
    case 3
    then show ?thesis
      by (auto simp: setup_relay_def quiet_def split: prod.splits sum.splits if_splits)
  qed
qed

lemma middle_quiet:
  "middle_on_client cr now wr did cell s = (Go s', outs) \<Longrightarrow> quiet s s' outs"
  "middle_on_downstream cr wr did cell s = (Go s', outs) \<Longrightarrow> quiet s s' outs"
   apply (auto simp: middle_on_client_def quiet_def split: option.splits prod.splits if_splits) [1]
  apply (auto simp: middle_on_downstream_def quiet_def split: option.splits if_splits) [1]
  done

lemma quiet_inv:
  assumes "exit_inv tr s" and "quiet s s' outs" and "\<forall>bs. ev \<noteq> DestinationData (Some bs)"
  shows "exit_inv (tr @ [(ev, outs)]) s'"
  using assms
  by (auto simp: exit_inv_def quiet_def trace_snoc pending_bytes_def split: relay_event.splits option.splits)

lemma exit_on_client_inv:
  assumes "exit_inv tr s" and "exit_on_client cr now wr cell s = (Go s', outs)"
  shows "exit_inv (tr @ [(ClientCell cell, outs)]) s'"
proof -
  from assms(2) obtain buf hop b cmd len where c: "cell = Some buf"
    "peel_forward cr (rc_hop s) buf = (hop, b, Inr (AddressedToThisRelay cmd len))"
    by (auto simp: exit_on_client_def split: option.splits prod.splits sum.splits PeelOutcome.splits)
  let ?p = "subslice 45 (45 + len) b"
  consider n where "checked_add (rc_received s) 1 = Some n" "outs = [ToDestination ?p]"
      "s' = s\<lparr>rc_hop := hop, rc_last_progress := now, rc_received := n, rc_pending_ack := Some n\<rparr>"
    | w where "acknowledge (rc_window s) ?p = Inr w" "outs = []"
      "s' = s\<lparr>rc_hop := hop, rc_window := w, rc_last_progress := now\<rparr>"
    | "outs = [ShutdownDestination]" "s' = s\<lparr>rc_hop := hop, rc_upload_closed := True\<rparr>"
    | "outs = []" "s' = s\<lparr>rc_hop := hop\<rparr>"
    using assms(2) c by (auto simp: exit_on_client_def Let_def split: if_splits option.splits sum.splits)
  then show ?thesis
  proof cases
    case (1 n)
    then show ?thesis
      using assms(1) checked_add_Some [OF 1(1)] by (simp add: exit_inv_def trace_snoc pending_bytes_def)
  next
    case (2 w)
    then show ?thesis
      using assms(1) acknowledge_inv [OF _ 2(1)] acknowledge_Inr(4) [OF 2(1)]
      by (simp add: exit_inv_def trace_snoc pending_bytes_def)
  qed (use assms(1) in \<open>simp_all add: exit_inv_def trace_snoc pending_bytes_def\<close>)
qed

lemma exit_on_clock_inv:
  assumes i: "exit_inv tr s" and c: "exit_on_clock cr rnd now wr s = (Go s', outs)"
  shows "exit_inv (tr @ [(ExitClock, outs)]) s'"
proof -
  let ?s = "s\<lparr>rc_prefer_data := \<not> rc_prefer_data s\<rparr>"
  from c obtain s1 cmd data hop wire where ch: "exit_choice ?s = Inr (s1, cmd, data)"
    and o: "outs = [ToClient cmd data wire]" and s': "s' = s1\<lparr>rc_hop := hop\<rparr>"
    by (auto simp: exit_on_clock_def split: if_splits sum.splits prod.splits)
  consider n where "rc_pending_ack s = Some n" "cmd = DataAck" "s1 = ?s\<lparr>rc_pending_ack := None\<rparr>"
    | bs w where "rc_pending_data s = Some bs" "sent (rc_window s) = Inr w" "cmd = Data" "data = bs"
        "s1 = ?s\<lparr>rc_window := w, rc_pending_data := None\<rparr>"
    | "cmd = Dummy" "s1 = ?s"
    using ch by (auto simp: exit_choice_def Let_def split: if_splits sum.splits)
  then show ?thesis
  proof cases
    case (1 n)
    then show ?thesis using i by (simp add: exit_inv_def trace_snoc pending_bytes_def o s')
  next
    case (2 bs w)
    then show ?thesis
      using i sent_Inr [OF _ 2(2)] by (simp add: exit_inv_def trace_snoc pending_bytes_def o s')
  next
    case 3
    then show ?thesis using i by (simp add: exit_inv_def trace_snoc pending_bytes_def o s')
  qed
qed

lemma exit_on_destination_inv:
  assumes "exit_inv tr s" and "rc_pending_data s = None" and "exit_on_destination now data s = (Go s', outs)"
  shows "exit_inv (tr @ [(DestinationData data, outs)]) s'"
  using assms by (cases data) (auto simp: exit_on_destination_def exit_inv_def trace_snoc pending_bytes_def)

lemma relay_turn_inv:
  assumes i: "exit_inv tr s" and off: "offered now s ev" and t: "relay_turn cr rnd now wr env ev s = (Go s', outs)"
  shows "exit_inv (tr @ [(ev, outs)]) s'"
proof -
  have "\<not> (rc_mode s = ExitHop \<and> exit_done s)"
    using t by (auto simp: relay_turn_def exit_destroy_def split: if_splits sum.splits prod.splits)
  note t' = t [unfolded relay_turn_def if_not_P [OF this]]
  show ?thesis
  proof (cases ev)
    case (ClientCell cell)
    with t' i show ?thesis
      by (cases "rc_mode s") (auto intro: exit_on_client_inv quiet_inv [OF i] dest: setup_quiet middle_quiet)
  next
    case (DestinationData data)
    with t' i off show ?thesis by (auto intro: exit_on_destination_inv)
  next
    case ExitClock
    with t' i show ?thesis by (auto intro: exit_on_clock_inv)
  next
    case (DownstreamCell cell)
    with t' i show ?thesis by (cases "rc_mode s") (auto intro: quiet_inv [OF i] dest: middle_quiet)
  qed (use t' in auto)
qed

lemma relay_run_inv:
  assumes "relay_run cr env (relay_start t hop) tr s"
  shows "exit_inv tr s"
  using assms
proof (induction rule: relay_run.induct)
  case relay_init
  then show ?case
    by (simp add: exit_inv_def relay_start_def pending_bytes_def dest_in_def all_outs_def
        sw_inv_def SendWindow_default_def)
next
  case (relay_step tr s now ev rnd wr s' outs)
  then show ?case by (intro relay_turn_inv) auto
qed


section \<open>From the client to the relay's branches\<close>

lemma payload_of_serialize:
  assumes "wf_cell c" and "n \<le> PAYLOAD_SIZE"
  shows "subslice 45 (45 + n) (serialize c) = take n (cell_payload c)"
proof -
  have "length (cell_ephemeral_key c) = 32" "length (cell_payload c) = 8131" "n \<le> 8131"
    using assms by (simp_all add: wf_cell_def PAYLOAD_SIZE_eq)
  then show ?thesis using assms(1) by (simp add: serialize_layout layout_def subslice_def)
qed

text \<open>
  A cell the client builds and wraps for the last relay of a circuit reaches that relay's branch with
  its command, its length and its data.
\<close>

lemma delivered_payload:
  assumes cr: "crypto_ok cr" and new: "OnionCell_new rnd cid q cmd sid data = Inr cell" and rnd: "length rnd = 32"
    and "oc_hops oc = path_keys rs @ [rh_crypt rl]"
    and "chained (oc_circuit_id oc) rs (rh_circuit_id rl)"
    and wrap: "wrap_forward cr oc cell = Inr (oc', cell', raw)"
    and "no_early_open cr rs (build_nonce 1 0 (oc_sequence_no oc)) (oc_sequence_no oc)
       (sealed_body cr (forward_aead_key (rh_crypt rl)) (build_nonce 1 0 (oc_sequence_no oc))
         (oc_sequence_no oc) (drop 8 (serialize cell')))"
    and "rh_expected_recv_seq rl \<le> oc_sequence_no oc" "oc_sequence_no oc - rh_expected_recv_seq rl \<le> MAX_SEQ_GAP"
  obtains wire buf where "forward_path cr rs raw = Some wire"
    "peel_forward cr rl wire = (rl\<lparr>rh_expected_recv_seq := oc_sequence_no oc + 1\<rparr>, buf,
       Inr (AddressedToThisRelay cmd (length data)))"
    "subslice 45 (45 + length data) buf = data"
proof -
  note c = OnionCell_new_Inr [OF new rnd]
  have len: "unat (cell_length cell) \<le> PAYLOAD_SIZE" using c(2,3) by simp
  obtain wire tag where w: "forward_path cr rs raw = Some wire" "length tag = 16"
    "peel_forward cr rl wire = (rl\<lparr>rh_expected_recv_seq := oc_sequence_no oc + 1\<rparr>,
       serialize (cell'\<lparr>cell_circuit_id := rh_circuit_id rl, cell_mac := tag\<rparr>),
       Inr (AddressedToThisRelay (cell_command cell) (unat (cell_length cell))))"
    by (rule forward_delivery_aux [OF cr c(1) len assms(4,5) wrap assms(7,8,9)])
  have cell': "cell' = cell\<lparr>cell_sequence_no := oc_sequence_no oc\<rparr>"
    by (rule wrap_forward_frame(2) [OF wrap cr c(1) assms(4)])
  have "wf_cell (cell'\<lparr>cell_circuit_id := rh_circuit_id rl, cell_mac := tag\<rparr>)"
    using c(1) w(2) by (simp add: cell' wf_cell_def)
  from payload_of_serialize [OF this c(3)] c(4)
  have "subslice 45 (45 + length data) (serialize (cell'\<lparr>cell_circuit_id := rh_circuit_id rl, cell_mac := tag\<rparr>)) = data"
    by (simp add: cell')
  with w c that show ?thesis by auto
qed

section \<open>Witnesses\<close>

text \<open>A relay that gets a RELAY cell through the two-hop circuit of the sample keys.\<close>

definition env0 :: "nat setup_env" where
  "env0 = \<lparr>en_exit_allowed = True, en_economy_cover = False, en_is_mesh_target = (\<lambda>_ _. False),
     en_policy = ExitPolicy_default, en_lookup = sample_lookup, en_connect = sample_connect,
     en_link = (\<lambda>c _. Some c), en_draws = [9], en_exchange = (\<lambda>_ _. None)\<rparr>"

definition target0 :: bytes where
  "target0 = [11] @ ascii ''example.org'' @ [1, 187]"

definition relay_cell0 :: OnionCell where
  "relay_cell0 = \<lparr>cell_circuit_id = 1, cell_sequence_no = 0, cell_command = Relay, cell_stream_id = 0,
     cell_length = 14, cell_ephemeral_key = replicate 32 0, cell_mac = replicate 16 0,
     cell_payload = put 0 target0 (replicate PAYLOAD_SIZE 0)\<rparr>"

lemma relay_cell0_new: "OnionCell_new (replicate 32 0) 1 0 Relay 0 target0 = Inr relay_cell0"
  by (simp add: OnionCell_new_def relay_cell0_def target0_def ascii_def size_defs)

lemma target0_decodes: "decode_relay_target target0 = Inr (ascii ''example.org'', 443)"
  by code_simp

lemma sample_connects:
  "resolve_and_connect sample_lookup sample_connect ExitPolicy_default (ascii ''example.org'') 443 =
     (Inr 7, [(V4 1 1 1 1, 443), (V4 8 8 8 8, 443)])"
  by code_simp

lemma relay_cell0_delivered:
  obtains wire buf where
    "peel_forward xor_crypto relay_b wire = (relay_b\<lparr>rh_expected_recv_seq := 2\<rparr>, buf, Inr (AddressedToThisRelay Relay 14))"
    "subslice 45 (45 + 14) buf = target0"
proof -
  have d: "oc_hops circuit_ab = path_keys [(relay_a, 5)] @ [rh_crypt relay_b]"
    "chained (oc_circuit_id circuit_ab) [(relay_a, 5)] (rh_circuit_id relay_b)"
    "rh_expected_recv_seq relay_b \<le> oc_sequence_no circuit_ab"
    "oc_sequence_no circuit_ab - rh_expected_recv_seq relay_b \<le> MAX_SEQ_GAP"
    "forward_aead_key (rh_crypt relay_b) = [2]" "oc_sequence_no circuit_ab = 1"
    by (simp_all add: circuit_ab_def relay_a_def relay_b_def RelayCircuitHop_new_def path_keys_def flat_keys_def)
  obtain oc' cell' raw where w: "wrap_forward xor_crypto circuit_ab relay_cell0 = Inr (oc', cell', raw)"
    and c: "cell' = relay_cell0\<lparr>cell_sequence_no := 1\<rparr>"
    by (auto simp: wrap_forward_def circuit_ab_def relay_cell0_def Let_def checked_add_one split_beta)
  have wfc: "wf_cell cell'"
    using OnionCell_new_Inr(1) [OF relay_cell0_new] by (simp add: c wf_cell_def)
  have len: "length target0 = 14" by (simp add: target0_def)
  show ?thesis
    using delivered_payload [OF crypto_ok_xor relay_cell0_new _ d(1,2) w
        no_early_open_ab [OF wfc, folded d(5)] d(3,4)] that d(6) len by fastforce
qed

lemma relay_turn0:
  obtains wire s' w where
    "relay_turn xor_crypto (replicate 32 0) 3 True env0 (ClientCell (Some wire)) (relay_start 0 relay_b) =
       (Go s', [OpenSocket (V4 1 1 1 1, 443), OpenSocket (V4 8 8 8 8, 443), ToClient Relay (ascii ''CONNECTED'') w])"
    "rc_mode s' = ExitHop" "rc_pending_data s' = None" "\<not> rc_destination_eof s'"
proof -
  obtain wire buf where p: "peel_forward xor_crypto relay_b wire =
      (relay_b\<lparr>rh_expected_recv_seq := 2\<rparr>, buf, Inr (AddressedToThisRelay Relay 14))"
    "subslice 45 (45 + 14) buf = target0" by (rule relay_cell0_delivered)
  let ?hop = "relay_b\<lparr>rh_expected_recv_seq := 2\<rparr>"
  obtain cell where cell: "OnionCell_new (replicate 32 0) (rh_circuit_id ?hop) 0 Relay 0 (ascii ''CONNECTED'') = Inr cell"
    by (simp add: OnionCell_new_def size_defs)
  have "pack_backward_seq 1 1 = Inr 536870913" by (simp add: pack_backward_seq_def size_defs)
  then obtain hop w where o: "wrap_backward_originate xor_crypto ?hop (serialize cell) = (hop, w, Inr ())"
    by (auto simp: wrap_backward_originate_def relay_b_def RelayCircuitHop_new_def Let_def
        checked_add_one split_beta)
  have cmds: "Relay \<noteq> Extend" "Relay \<noteq> Session" by simp_all
  have "relay_turn xor_crypto (replicate 32 0) 3 True env0 (ClientCell (Some wire)) (relay_start 0 relay_b) =
      (Go ((relay_start 0 relay_b)\<lparr>rc_hop := hop, rc_mode := ExitHop\<rparr>),
       [OpenSocket (V4 1 1 1 1, 443), OpenSocket (V4 8 8 8 8, 443), ToClient Relay (ascii ''CONNECTED'') w])"
    using p cell o cmds
    by (simp add: relay_turn_def relay_start_def setup_on_client_def setup_relay_def Let_def target0_decodes
        env0_def sample_connects)
  then show thesis by (rule that) (simp_all add: relay_start_def)
qed



end
