(* ===== verification/Guarded.thy ===== *)
theory Guarded
  imports Strings
begin

text \<open>
  Fail-closed sockets. First the kill-switch controller of \<open>src/src/kernel/killswitch.rs\<close>: the
  failures of a sliding window, the flag they trip and the value its watchers see. Then the
  type-state socket of \<open>src/src/core/state_machine.rs\<close>. The phantom type parameter of
  \<open>GuardedSocket\<close> is the field \<open>gs_state\<close>; the signatures of its methods are the function
  \<open>signature_of\<close>, and a client of the API is a list of calls. The transport under the socket
  is a parameter (any \<open>AsyncRead + AsyncWrite\<close>), and the flag, which other tasks set at any
  moment, is the value each load returns.
\<close>

section \<open>Kill-switch controller\<close>

record KillSwitchController =
  ks_tripped :: bool
  ks_notified :: bool
  ks_failures :: "nat list"
  ks_trip_threshold :: nat
  ks_window :: nat

definition KillSwitch_with_threshold :: "nat \<Rightarrow> nat \<Rightarrow> KillSwitchController" where
  "KillSwitch_with_threshold trip_threshold window =
    \<lparr>ks_tripped = False, ks_notified = False, ks_failures = [],
     ks_trip_threshold = trip_threshold, ks_window = window\<rparr>"

definition KillSwitch_new :: KillSwitchController where
  "KillSwitch_new = KillSwitch_with_threshold 5 (secs 1)"

definition is_tripped :: "KillSwitchController \<Rightarrow> bool" where
  "is_tripped ks = ks_tripped ks"

text \<open>\<open>duration_since\<close> of a later instant is zero, as the subtraction of naturals is.\<close>

definition trip :: "nat \<Rightarrow> KillSwitchController \<Rightarrow> KillSwitchController" where
  "trip now ks =
    (let failures = filter (\<lambda>t. now - t < ks_window ks) (ks_failures ks) @ [now];
         ks = ks\<lparr>ks_failures := failures\<rparr>
     in if length failures \<ge> ks_trip_threshold ks then
          (if \<not> ks_tripped ks then ks\<lparr>ks_tripped := True, ks_notified := True\<rparr> else ks)
        else ks)"

definition reset :: "KillSwitchController \<Rightarrow> KillSwitchController" where
  "reset ks = ks\<lparr>ks_tripped := False, ks_failures := [], ks_notified := False\<rparr>"

text \<open>A store of \<open>true\<close> through the handle that \<open>atomic_handle\<close> gave to a socket.\<close>

definition store_handle :: "KillSwitchController \<Rightarrow> KillSwitchController" where
  "store_handle ks = ks\<lparr>ks_tripped := True\<rparr>"

datatype FailClosedGuarantee = KernelLevel | ApplicationLayerOnly

definition check_fail_closed_guarantee :: "bool \<Rightarrow> bool \<Rightarrow> string + FailClosedGuarantee" where
  "check_fail_closed_guarantee is_linux strict_fail_closed =
    (if is_linux then Inr KernelLevel
     else if strict_fail_closed then
       Inl ''Strict fail-closed enforcement failed: kernel-level nftables/netns isolation is not available on this platform.''
     else Inr ApplicationLayerOnly)"

section \<open>Type-state sockets\<close>

datatype State = Uninitialized | Verifying | ActiveGuarded | DroppedFailClosed

fun State_name :: "State \<Rightarrow> string" where
  "State_name Uninitialized = ''UNINITIALIZED''"
| "State_name Verifying = ''VERIFYING''"
| "State_name ActiveGuarded = ''ACTIVE_GUARDED''"
| "State_name DroppedFailClosed = ''DROPPED_FAIL_CLOSED''"

datatype io_error = ConnectionAborted | TransportError

datatype GuardError = Transition string | KillSwitchTripped | GuardIo io_error

datatype 'a poll = Pending | Ready 'a

record 's transport =
  tr_read :: "'s \<Rightarrow> nat \<Rightarrow> 's \<times> (io_error + bytes) poll"
  tr_write :: "'s \<Rightarrow> bytes \<Rightarrow> 's \<times> (io_error + nat) poll"
  tr_flush :: "'s \<Rightarrow> 's \<times> (io_error + unit) poll"
  tr_shutdown :: "'s \<Rightarrow> 's \<times> (io_error + unit) poll"

record 's GuardedSocket =
  gs_state :: State
  gs_stream :: "'s option"

definition GuardedSocket_new :: "'s \<Rightarrow> 's GuardedSocket" where
  "GuardedSocket_new stream = \<lparr>gs_state = Uninitialized, gs_stream = Some stream\<rparr>"

definition begin_verification :: "'s GuardedSocket \<Rightarrow> 's GuardedSocket" where
  "begin_verification sock = \<lparr>gs_state = Verifying, gs_stream = gs_stream sock\<rparr>"

definition mark_verified :: "'s GuardedSocket \<Rightarrow> 's GuardedSocket" where
  "mark_verified sock = \<lparr>gs_state = ActiveGuarded, gs_stream = gs_stream sock\<rparr>"

text \<open>The operations that store to the flag return its new value first.\<close>

definition fail_verification :: "'s GuardedSocket \<Rightarrow> bool \<times> 's GuardedSocket" where
  "fail_verification sock = (True, \<lparr>gs_state = DroppedFailClosed, gs_stream = gs_stream sock\<rparr>)"

definition trip_kill_switch :: "'s GuardedSocket \<Rightarrow> bool \<times> 's GuardedSocket" where
  "trip_kill_switch sock = (True, \<lparr>gs_state = DroppedFailClosed, gs_stream = gs_stream sock\<rparr>)"

definition into_inner :: "'s GuardedSocket \<Rightarrow> 's option" where
  "into_inner sock = gs_stream sock"

definition poll_read ::
  "'s transport \<Rightarrow> bool \<Rightarrow> nat \<Rightarrow> 's GuardedSocket \<Rightarrow> 's GuardedSocket \<times> (io_error + bytes) poll" where
  "poll_read tr kill n sock =
    (if kill then (sock, Ready (Inl ConnectionAborted))
     else case gs_stream sock of
       Some stream \<Rightarrow> let (stream, r) = tr_read tr stream n in (sock\<lparr>gs_stream := Some stream\<rparr>, r)
     | None \<Rightarrow> (sock, Ready (Inl ConnectionAborted)))"

definition poll_write ::
  "'s transport \<Rightarrow> bool \<Rightarrow> bytes \<Rightarrow> 's GuardedSocket \<Rightarrow> 's GuardedSocket \<times> (io_error + nat) poll" where
  "poll_write tr kill buf sock =
    (if kill then (sock, Ready (Inl ConnectionAborted))
     else case gs_stream sock of
       Some stream \<Rightarrow> let (stream, r) = tr_write tr stream buf in (sock\<lparr>gs_stream := Some stream\<rparr>, r)
     | None \<Rightarrow> (sock, Ready (Inl ConnectionAborted)))"

definition poll_flush ::
  "'s transport \<Rightarrow> bool \<Rightarrow> 's GuardedSocket \<Rightarrow> 's GuardedSocket \<times> (io_error + unit) poll" where
  "poll_flush tr kill sock =
    (if kill then (sock, Ready (Inl ConnectionAborted))
     else case gs_stream sock of
       Some stream \<Rightarrow> let (stream, r) = tr_flush tr stream in (sock\<lparr>gs_stream := Some stream\<rparr>, r)
     | None \<Rightarrow> (sock, Ready (Inr ())))"

definition poll_shutdown ::
  "'s transport \<Rightarrow> bool \<Rightarrow> 's GuardedSocket \<Rightarrow> 's GuardedSocket \<times> (io_error + unit) poll" where
  "poll_shutdown tr kill sock =
    (if kill then (sock, Ready (Inl ConnectionAborted))
     else case gs_stream sock of
       Some stream \<Rightarrow> let (stream, r) = tr_shutdown tr stream in (sock\<lparr>gs_stream := Some stream\<rparr>, r)
     | None \<Rightarrow> (sock, Ready (Inr ())))"

text \<open>
  Awaiting a poll function: one poll per wake-up, each with its own load of the flag, until it
  is ready. A future whose wake-ups end (the list of loads is exhausted) is dropped pending.
\<close>

fun await :: "(bool \<Rightarrow> 's \<Rightarrow> 's \<times> 'a poll) \<Rightarrow> bool list \<Rightarrow> 's \<Rightarrow> 's \<times> 'a poll" where
  "await f [] sock = (sock, Pending)"
| "await f (kill # kills) sock =
    (case f kill sock of (sock, Pending) \<Rightarrow> await f kills sock | (sock, Ready r) \<Rightarrow> (sock, Ready r))"

fun guard_error :: "(io_error + 'a) poll \<Rightarrow> (GuardError + 'a) poll" where
  "guard_error Pending = Pending"
| "guard_error (Ready (Inl e)) = Ready (Inl (GuardIo e))"
| "guard_error (Ready (Inr a)) = Ready (Inr a)"

definition send_guarded ::
  "'s transport \<Rightarrow> bool \<Rightarrow> bool list \<Rightarrow> bytes \<Rightarrow> 's GuardedSocket \<Rightarrow> 's GuardedSocket \<times> (GuardError + nat) poll" where
  "send_guarded tr kill kills buf sock =
    (if kill then (sock, Ready (Inl KillSwitchTripped))
     else let (sock, r) = await (\<lambda>k. poll_write tr k buf) kills sock in (sock, guard_error r))"

definition recv_guarded ::
  "'s transport \<Rightarrow> bool \<Rightarrow> bool list \<Rightarrow> nat \<Rightarrow> 's GuardedSocket \<Rightarrow> 's GuardedSocket \<times> (GuardError + bytes) poll" where
  "recv_guarded tr kill kills n sock =
    (if kill then (sock, Ready (Inl KillSwitchTripped))
     else let (sock, r) = await (\<lambda>k. poll_read tr k n) kills sock in (sock, guard_error r))"

section \<open>Clients of the socket\<close>

datatype socket_call =
    Begin | Verified | Fail | TripSwitch
  | Read bool nat | Write bool bytes | Flush bool | Shutdown bool
  | Send bool "bool list" bytes | Recv bool "bool list" nat

text \<open>The receiver type and the result type of each method, as the \<open>impl\<close> blocks declare them.\<close>

fun signature_of :: "socket_call \<Rightarrow> State \<times> State" where
  "signature_of Begin = (Uninitialized, Verifying)"
| "signature_of Verified = (Verifying, ActiveGuarded)"
| "signature_of Fail = (Verifying, DroppedFailClosed)"
| "signature_of TripSwitch = (ActiveGuarded, DroppedFailClosed)"
| "signature_of (Read _ _) = (ActiveGuarded, ActiveGuarded)"
| "signature_of (Write _ _) = (ActiveGuarded, ActiveGuarded)"
| "signature_of (Flush _) = (ActiveGuarded, ActiveGuarded)"
| "signature_of (Shutdown _) = (ActiveGuarded, ActiveGuarded)"
| "signature_of (Send _ _ _) = (ActiveGuarded, ActiveGuarded)"
| "signature_of (Recv _ _ _) = (ActiveGuarded, ActiveGuarded)"

fun type_check :: "State \<Rightarrow> socket_call list \<Rightarrow> State option" where
  "type_check st [] = Some st"
| "type_check st (c # cs) = (if fst (signature_of c) = st then type_check (snd (signature_of c)) cs else None)"

text \<open>The values the call reads from the flag.\<close>

fun flag_loads :: "socket_call \<Rightarrow> bool list" where
  "flag_loads (Read k _) = [k]"
| "flag_loads (Write k _) = [k]"
| "flag_loads (Flush k) = [k]"
| "flag_loads (Shutdown k) = [k]"
| "flag_loads (Send k ks _) = k # ks"
| "flag_loads (Recv k ks _) = k # ks"
| "flag_loads _ = []"

text \<open>What a call does; a method that its receiver does not have has no behaviour.\<close>

fun perform :: "'s transport \<Rightarrow> socket_call \<Rightarrow> 's GuardedSocket \<Rightarrow> 's GuardedSocket option" where
  "perform tr Begin sock = (if gs_state sock = Uninitialized then Some (begin_verification sock) else None)"
| "perform tr Verified sock = (if gs_state sock = Verifying then Some (mark_verified sock) else None)"
| "perform tr Fail sock = (if gs_state sock = Verifying then Some (snd (fail_verification sock)) else None)"
| "perform tr TripSwitch sock = (if gs_state sock = ActiveGuarded then Some (snd (trip_kill_switch sock)) else None)"
| "perform tr (Read k n) sock = (if gs_state sock = ActiveGuarded then Some (fst (poll_read tr k n sock)) else None)"
| "perform tr (Write k buf) sock = (if gs_state sock = ActiveGuarded then Some (fst (poll_write tr k buf sock)) else None)"
| "perform tr (Flush k) sock = (if gs_state sock = ActiveGuarded then Some (fst (poll_flush tr k sock)) else None)"
| "perform tr (Shutdown k) sock = (if gs_state sock = ActiveGuarded then Some (fst (poll_shutdown tr k sock)) else None)"
| "perform tr (Send k ks buf) sock = (if gs_state sock = ActiveGuarded then Some (fst (send_guarded tr k ks buf sock)) else None)"
| "perform tr (Recv k ks n) sock = (if gs_state sock = ActiveGuarded then Some (fst (recv_guarded tr k ks n sock)) else None)"

fun execute :: "'s transport \<Rightarrow> socket_call list \<Rightarrow> 's GuardedSocket \<Rightarrow> 's GuardedSocket option" where
  "execute tr [] sock = Some sock"
| "execute tr (c # cs) sock = (case perform tr c sock of None \<Rightarrow> None | Some sock \<Rightarrow> execute tr cs sock)"

section \<open>The window of failures\<close>

definition recent :: "nat \<Rightarrow> nat list \<Rightarrow> nat \<Rightarrow> nat" where
  "recent w ts now = length (filter (\<lambda>t. now - t < w) ts)"

definition trips :: "nat list \<Rightarrow> KillSwitchController \<Rightarrow> KillSwitchController" where
  "trips ts ks = fold trip ts ks"

lemma trips_snoc: "trips (ts @ [t]) ks = trip t (trips ts ks)"
  by (simp add: trips_def)

lemma trip_simps [simp]:
  "ks_trip_threshold (trip now ks) = ks_trip_threshold ks"
  "ks_window (trip now ks) = ks_window ks"
  "ks_failures (trip now ks) = filter (\<lambda>t. now - t < ks_window ks) (ks_failures ks) @ [now]"
  "ks_tripped (trip now ks) \<longleftrightarrow> ks_tripped ks \<or>
     ks_trip_threshold ks \<le> Suc (recent (ks_window ks) (ks_failures ks) now)"
  by (simp_all add: trip_def Let_def recent_def)

lemma trips_params [simp]:
  "ks_trip_threshold (trips ts ks) = ks_trip_threshold ks"
  "ks_window (trips ts ks) = ks_window ks"
  by (induction ts rule: rev_induct) (simp_all add: trips_snoc trips_def)

text \<open>
  The retained failures are those of the window before the last one: with times that do not
  decrease, what an earlier call dropped is outside every later window too.
\<close>

lemma filter_recent_later:
  fixes a now w :: nat
  assumes "\<forall>t \<in> set ts. t \<le> a" "a \<le> now"
  shows "filter (\<lambda>t. now - t < w) (filter (\<lambda>t. a - t < w) ts) = filter (\<lambda>t. now - t < w) ts"
proof -
  have "a - t < w" if "now - t < w" "t \<in> set ts" for t
  proof -
    have "a - t \<le> now - t" using assms(2) by simp
    with that show ?thesis by simp
  qed
  then show ?thesis by (auto intro!: filter_cong)
qed

lemma trips_failures:
  "sorted (ts @ [t]) \<Longrightarrow> 0 < w \<Longrightarrow>
   ks_failures (trips (ts @ [t]) (KillSwitch_with_threshold n w)) = filter (\<lambda>s. t - s < w) (ts @ [t])"
proof (induction ts arbitrary: t rule: rev_induct)
  case Nil
  then show ?case by (simp add: trips_def KillSwitch_with_threshold_def)
next
  case (snoc a ts)
  have w: "ks_window (trips us (KillSwitch_with_threshold n w)) = w" for us
    by (simp add: KillSwitch_with_threshold_def)
  have s: "sorted (ts @ [a])" "\<forall>t \<in> set (ts @ [a]). t \<le> a" "a \<le> t"
    using snoc.prems by (auto simp: sorted_append)
  have "ks_failures (trips ((ts @ [a]) @ [t]) (KillSwitch_with_threshold n w)) =
      filter (\<lambda>s. t - s < w) (filter (\<lambda>s. a - s < w) (ts @ [a])) @ [t]"
    using snoc.IH [OF s(1) snoc.prems(2)] by (simp only: trips_snoc [of "ts @ [a]"] trip_simps w)
  also have "\<dots> = filter (\<lambda>s. t - s < w) (ts @ [a]) @ [t]"
    by (simp only: filter_recent_later [OF s(2,3)])
  finally show ?case using snoc.prems(2) by simp
qed

lemma trips_recent:
  assumes "sorted (ts @ [t])" "0 < w"
  shows "recent w (ks_failures (trips ts (KillSwitch_with_threshold n w))) t = recent w ts t"
proof (cases ts rule: rev_cases)
  case Nil
  then show ?thesis by (simp add: trips_def KillSwitch_with_threshold_def)
next
  case (snoc us a)
  have s: "sorted (us @ [a])" "\<forall>t \<in> set (us @ [a]). t \<le> a" "a \<le> t"
    using assms(1) by (auto simp: snoc sorted_append)
  show ?thesis
    unfolding recent_def snoc trips_failures [OF s(1) assms(2)] filter_recent_later [OF s(2,3)] ..
qed

lemma trips_tripped:
  "sorted ts \<Longrightarrow> 0 < w \<Longrightarrow>
   ks_tripped (trips ts (KillSwitch_with_threshold n w)) \<longleftrightarrow>
   (\<exists>i < length ts. n \<le> recent w (take (Suc i) ts) (ts ! i))"
proof (induction ts rule: rev_induct)
  case Nil
  then show ?case by (simp add: trips_def KillSwitch_with_threshold_def)
next
  case (snoc t ts)
  let ?ks = "KillSwitch_with_threshold n w"
  have par: "ks_window ?ks = w" "ks_trip_threshold ?ks = n"
    by (simp_all add: KillSwitch_with_threshold_def)
  have ih: "ks_tripped (trips ts ?ks) \<longleftrightarrow> (\<exists>i < length ts. n \<le> recent w (take (Suc i) ts) (ts ! i))"
    using snoc by (simp add: sorted_append)
  have step: "ks_tripped (trips (ts @ [t]) ?ks) \<longleftrightarrow> ks_tripped (trips ts ?ks) \<or> n \<le> recent w (ts @ [t]) t"
    using trips_recent [OF snoc.prems, of n] snoc.prems(2) by (simp add: trips_snoc par recent_def)
  have cong: "recent w (take (Suc i) (ts @ [t])) ((ts @ [t]) ! i) = recent w (take (Suc i) ts) (ts ! i)"
    if "i < length ts" for i using that by (simp add: nth_append)
  have "(\<exists>i < Suc (length ts). n \<le> recent w (take (Suc i) (ts @ [t])) ((ts @ [t]) ! i)) \<longleftrightarrow>
      (\<exists>i < length ts. n \<le> recent w (take (Suc i) ts) (ts ! i)) \<or> n \<le> recent w (ts @ [t]) t"
  proof -
    have "(\<exists>i < Suc (length ts). P i) \<longleftrightarrow> (\<exists>i < length ts. P i) \<or> P (length ts)" for P
      by (auto simp: less_Suc_eq)
    then show ?thesis using cong by (auto simp only: nth_append_length take_all length_append_singleton order_refl)
  qed
  then show ?case by (simp only: step ih length_append_singleton)
qed

lemma trips_notified: "ks_notified (trips ts (KillSwitch_with_threshold n w)) = ks_tripped (trips ts (KillSwitch_with_threshold n w))"
proof (induction ts rule: rev_induct)
  case Nil
  then show ?case by (simp add: trips_def KillSwitch_with_threshold_def)
next
  case (snoc t ts)
  then show ?case by (simp add: trips_snoc trip_def Let_def)
qed



text \<open>
  A store through a socket's handle sets the flag but tells no watcher, and no later failure
  does, whatever their number: \<open>trip\<close> broadcasts only when it is the one that sets the flag.
\<close>

lemma store_handle_silences: "\<not> ks_notified ks \<Longrightarrow> \<not> ks_notified (trips ts (store_handle ks))"
proof (induction ts rule: rev_induct)
  case Nil
  then show ?case by (simp add: trips_def store_handle_def)
next
  case (snoc t ts)
  have "ks_tripped (trips ts (store_handle ks))"
    by (induction ts rule: rev_induct) (simp_all add: trips_def store_handle_def)
  with snoc show ?case by (simp add: trips_snoc trip_def Let_def)
qed

section \<open>Type safety of guarded sockets\<close>

lemma poll_keeps:
  "gs_state (fst (poll_read tr k n sock)) = gs_state sock"
  "gs_state (fst (poll_write tr k buf sock)) = gs_state sock"
  "gs_state (fst (poll_flush tr k sock)) = gs_state sock"
  "gs_state (fst (poll_shutdown tr k sock)) = gs_state sock"
  by (simp_all add: poll_read_def poll_write_def poll_flush_def poll_shutdown_def Let_def
      split: option.split prod.split)

lemma poll_tripped:
  "poll_read tr True n sock = (sock, Ready (Inl ConnectionAborted))"
  "poll_write tr True buf sock = (sock, Ready (Inl ConnectionAborted))"
  "poll_flush tr True sock = (sock, Ready (Inl ConnectionAborted))"
  "poll_shutdown tr True sock = (sock, Ready (Inl ConnectionAborted))"
  by (simp_all add: poll_read_def poll_write_def poll_flush_def poll_shutdown_def)

lemma await_keeps:
  assumes "\<And>k s. gs_state (fst (f k s)) = gs_state s"
  shows "gs_state (fst (await f ks sock)) = gs_state sock"
proof (induction ks arbitrary: sock)
  case (Cons k ks)
  obtain s r where f: "f k sock = (s, r)" by fastforce
  then have "gs_state s = gs_state sock" using assms [of k sock] by simp
  with Cons f show ?case by (cases r) simp_all
qed simp

lemma await_tripped:
  assumes "\<And>s. f True s = (s, Ready e)" "False \<notin> set ks"
  shows "fst (await f ks sock) = sock"
  using assms by (cases ks) auto

lemma guarded_keeps:
  "gs_state (fst (send_guarded tr k ks buf sock)) = gs_state sock"
  "gs_state (fst (recv_guarded tr k ks n sock)) = gs_state sock"
  using await_keeps [of "\<lambda>k. poll_write tr k buf" ks sock] await_keeps [of "\<lambda>k. poll_read tr k n" ks sock]
  by (auto simp: send_guarded_def recv_guarded_def poll_keeps Let_def split: prod.split)

lemma guarded_tripped:
  "False \<notin> set (k # ks) \<Longrightarrow> fst (send_guarded tr k ks buf sock) = sock"
  "False \<notin> set (k # ks) \<Longrightarrow> fst (recv_guarded tr k ks n sock) = sock"
  by (simp_all add: send_guarded_def recv_guarded_def)

lemma perform_progress:
  "fst (signature_of c) = gs_state sock \<Longrightarrow>
   \<exists>sock'. perform tr c sock = Some sock' \<and> gs_state sock' = snd (signature_of c)"
  by (cases c) (simp_all add: poll_keeps guarded_keeps begin_verification_def mark_verified_def
      fail_verification_def trip_kill_switch_def)

lemma perform_typed: "perform tr c sock = Some sock' \<Longrightarrow> gs_state sock = fst (signature_of c)"
  by (cases c) (simp_all split: if_splits)

text \<open>A call touches the transport only on an active socket and after a load of a clear flag.\<close>

lemma perform_stream:
  assumes p: "perform tr c sock = Some sock'" and ne: "gs_stream sock' \<noteq> gs_stream sock"
  shows "gs_state sock = ActiveGuarded \<and> False \<in> set (flag_loads c)"
proof (rule ccontr)
  assume neg: "\<not> (gs_state sock = ActiveGuarded \<and> False \<in> set (flag_loads c))"
  show False
  proof (cases "fst (signature_of c) = ActiveGuarded \<and> snd (signature_of c) = ActiveGuarded")
    case True
    then have "False \<notin> set (flag_loads c)" using neg perform_typed [OF p] by auto
    with p ne True show False
      by (cases c) (simp_all add: poll_tripped guarded_tripped split: if_splits)
  next
    case False
    with p ne show False
      by (cases c) (auto simp: begin_verification_def mark_verified_def fail_verification_def
          trip_kill_switch_def split: if_splits)
  qed
qed

lemma execute_append:
  "execute tr (p @ q) sock = (case execute tr p sock of None \<Rightarrow> None | Some s \<Rightarrow> execute tr q s)"
  by (induction p arbitrary: sock) (simp_all split: option.split)

lemma type_check_append:
  "type_check st (p @ q) = (case type_check st p of None \<Rightarrow> None | Some st' \<Rightarrow> type_check st' q)"
  by (induction p arbitrary: st) simp_all

lemma execute_typed:
  "type_check (gs_state sock) p = Some t \<Longrightarrow> \<exists>sock'. execute tr p sock = Some sock' \<and> gs_state sock' = t"
proof (induction p arbitrary: sock)
  case (Cons c p)
  then have c: "fst (signature_of c) = gs_state sock" "type_check (snd (signature_of c)) p = Some t"
    by (simp_all split: if_splits)
  obtain s where s: "perform tr c sock = Some s" "gs_state s = snd (signature_of c)"
    using perform_progress [OF c(1)] by blast
  show ?case using Cons.IH [of s] c(2) s by simp
qed simp

lemma active_after_verified: "type_check st p = Some ActiveGuarded \<Longrightarrow> st \<noteq> ActiveGuarded \<Longrightarrow> Verified \<in> set p"
proof (induction p arbitrary: st)
  case (Cons c p)
  then show ?case by (cases c) (auto split: if_splits)
qed simp

text \<open>
  C40. Type safety of guarded sockets. A client that the type checker accepts never calls a
  method its socket does not have, whatever the transport answers and whatever the flag does
  meanwhile, and ends in the state its type says; and each of its calls that reaches the
  transport comes after \<open>mark_verified\<close> and after a load of the flag that found it clear.
\<close>

theorem guarded_type_safety:
  assumes "type_check Uninitialized calls = Some st"
  shows "(\<exists>sock. execute tr calls (GuardedSocket_new s) = Some sock \<and> gs_state sock = st)
    \<and> (\<forall>p c q sock sock'. calls = p @ c # q
        \<longrightarrow> execute tr p (GuardedSocket_new s) = Some sock \<longrightarrow> perform tr c sock = Some sock'
        \<longrightarrow> gs_stream sock' \<noteq> gs_stream sock \<longrightarrow> Verified \<in> set p \<and> False \<in> set (flag_loads c))"
proof (intro conjI allI impI)
  show "\<exists>sock. execute tr calls (GuardedSocket_new s) = Some sock \<and> gs_state sock = st"
    using execute_typed [of "GuardedSocket_new s" calls] assms by (simp add: GuardedSocket_new_def)
next
  fix p c q sock sock'
  assume a: "calls = p @ c # q" "execute tr p (GuardedSocket_new s) = Some sock"
    "perform tr c sock = Some sock'" "gs_stream sock' \<noteq> gs_stream sock"
  obtain t where t: "type_check Uninitialized p = Some t"
    using assms by (auto simp: a(1) type_check_append split: option.splits)
  have "t = gs_state sock"
    using execute_typed [of "GuardedSocket_new s" p t tr] t a(2) by (simp add: GuardedSocket_new_def)
  then have "type_check Uninitialized p = Some ActiveGuarded"
    using perform_stream [OF a(3,4)] t by simp
  then show "Verified \<in> set p" by (rule active_after_verified) simp
  show "False \<in> set (flag_loads c)" using perform_stream [OF a(3,4)] by blast
qed

definition tape :: "bytes transport" where
  "tape = \<lparr>tr_read = \<lambda>s n. (drop n s, Ready (Inr (take n s))), tr_write = \<lambda>s buf. (s @ buf, Ready (Inr (length buf))),
    tr_flush = \<lambda>s. (s, Ready (Inr ())), tr_shutdown = \<lambda>s. (s, Ready (Inr ()))\<rparr>"

theorem guarded_type_safety_witness:
  "type_check Uninitialized [Begin, Verified, Send False [False] [7], Write True [8], TripSwitch] = Some DroppedFailClosed
   \<and> (\<exists>sock. execute tape [Begin, Verified, Send False [False] [7], Write True [8], TripSwitch] (GuardedSocket_new [])
        = Some sock \<and> gs_state sock = DroppedFailClosed)
   \<and> Verified \<in> set [Begin, Verified] \<and> False \<in> set (flag_loads (Send False [False] [7]))"
proof -
  let ?cs = "[Begin, Verified, Send False [False] [7], Write True [8], TripSwitch]"
  have t: "type_check Uninitialized ?cs = Some DroppedFailClosed" by simp
  show ?thesis
    using t guarded_type_safety [OF t, of tape "[]"] by simp
qed

end
