(* ===== verification/Tcp.thy ===== *)
theory Tcp
  imports Strings
begin

text \<open>
  Byte streams as the asynchronous code sees them. A connection holds the bytes that will still
  arrive in time (a read beyond them ends in an error: end of file or timeout), the bytes
  written so far and how many more the peer or the deadline lets through (\<open>None\<close> is no
  limit). An \<open>async\<close> function that may fail is a function of the state that returns the new
  state and a result; \<open>io_bind\<close> is \<open>.await?\<close>.
\<close>

type_synonym ('s, 'e, 'a) io = "'s \<Rightarrow> 's \<times> ('e + 'a)"

definition io_return :: "'a \<Rightarrow> ('s, 'e, 'a) io" where
  "io_return a s = (s, Inr a)"

definition io_fail :: "'e \<Rightarrow> ('s, 'e, 'a) io" where
  "io_fail e s = (s, Inl e)"

definition io_bind :: "('s, 'e, 'a) io \<Rightarrow> ('a \<Rightarrow> ('s, 'e, 'b) io) \<Rightarrow> ('s, 'e, 'b) io" where
  "io_bind m f s = (case m s of (s, Inl e) \<Rightarrow> (s, Inl e) | (s, Inr a) \<Rightarrow> f a s)"

definition io_lift :: "'e + 'a \<Rightarrow> ('s, 'e, 'a) io" where
  "io_lift r s = (s, r)"

lemma io_simps [simp]:
  "io_return a s = (s, Inr a)" "io_fail e s = (s, Inl e)" "io_lift r s = (s, r)"
  by (simp_all add: io_return_def io_fail_def io_lift_def)

lemma io_bind_eqs [simp]:
  "m s = (s', Inl e) \<Longrightarrow> io_bind m f s = (s', Inl e)"
  "m s = (s', Inr a) \<Longrightarrow> io_bind m f s = f a s'"
  by (simp_all add: io_bind_def)

lemma io_bind_Inr: "io_bind m f s = (s', Inr b) \<longleftrightarrow> (\<exists>s1 a. m s = (s1, Inr a) \<and> f a s1 = (s', Inr b))"
  by (auto simp: io_bind_def split: prod.splits sum.splits)

text \<open>Running an \<open>async\<close> call to its end: an error drops the connection.\<close>

definition run_io :: "('s, 'e, 'a) io \<Rightarrow> 's \<Rightarrow> 'e + ('s \<times> 'a)" where
  "run_io m s = (case m s of (s, Inl e) \<Rightarrow> Inl e | (s, Inr a) \<Rightarrow> Inr (s, a))"

lemma run_io_Inr [simp]: "m s = (s', Inr a) \<Longrightarrow> run_io m s = Inr (s', a)"
  by (simp add: run_io_def)

lemma run_io_eq_Inr: "run_io m s = Inr (s', a) \<longleftrightarrow> m s = (s', Inr a)"
  by (auto simp: run_io_def split: prod.splits sum.splits)

record tcp =
  tcp_in :: bytes
  tcp_out :: bytes
  tcp_room :: "nat option"

definition read_exact :: "'e \<Rightarrow> nat \<Rightarrow> (tcp, 'e, bytes) io" where
  "read_exact e n t =
    (if length (tcp_in t) < n then (t\<lparr>tcp_in := []\<rparr>, Inl e)
     else (t\<lparr>tcp_in := drop n (tcp_in t)\<rparr>, Inr (take n (tcp_in t))))"

definition write_all :: "'e \<Rightarrow> bytes \<Rightarrow> (tcp, 'e, unit) io" where
  "write_all e bs t =
    (case tcp_room t of
       None \<Rightarrow> (t\<lparr>tcp_out := tcp_out t @ bs\<rparr>, Inr ())
     | Some k \<Rightarrow>
         if length bs \<le> k then (t\<lparr>tcp_out := tcp_out t @ bs, tcp_room := Some (k - length bs)\<rparr>, Inr ())
         else (t\<lparr>tcp_out := tcp_out t @ take k bs, tcp_room := Some 0\<rparr>, Inl e))"

lemma read_exact_at:
  "length bs = n \<Longrightarrow> tcp_in t = bs @ rest \<Longrightarrow> read_exact e n t = (t\<lparr>tcp_in := rest\<rparr>, Inr bs)"
  by (simp add: read_exact_def)

lemma read_exact_Inr:
  "read_exact e n t = (t', Inr bs) \<longleftrightarrow>
   length bs = n \<and> tcp_in t = bs @ tcp_in t' \<and> t' = t\<lparr>tcp_in := tcp_in t'\<rparr>"
  by (auto simp: read_exact_def)

lemma write_all_unlimited [simp]:
  "tcp_room t = None \<Longrightarrow> write_all e bs t = (t\<lparr>tcp_out := tcp_out t @ bs\<rparr>, Inr ())"
  by (simp add: write_all_def)

lemma write_all_Inr:
  "write_all e bs t = (t', Inr u) \<Longrightarrow> tcp_out t' = tcp_out t @ bs \<and> tcp_in t' = tcp_in t"
  by (auto simp: write_all_def split: option.splits if_splits)

lemma write_all_prefix: "\<exists>k. tcp_out (fst (write_all e bs t)) = tcp_out t @ take k bs"
  by (auto simp: write_all_def split: option.split intro: exI [of _ "length bs"])

section \<open>Counters\<close>

lemma unat_of_nat_small: "n < 2 ^ LENGTH('a) \<Longrightarrow> unat (of_nat n :: 'a::len word) = n"
  by (rule of_nat_inverse [OF refl])

lemma counter_not_max:
  fixes c :: "'a::len word"
  assumes "unat c + n < 2 ^ LENGTH('a)" "0 < n"
  shows "c \<noteq> - 1"
proof
  assume "c = - 1"
  then have "unat c = 2 ^ LENGTH('a) - 1" by (simp add: unsigned_minus_1_eq_mask mask_eq_exp_minus_1)
  with assms show False by linarith
qed

lemma counter_succ_neq: "(c :: 'a::len word) \<noteq> - 1 \<Longrightarrow> unat (c + 1) = unat c + 1"
  using checked_add_Some [of c 1] by (simp add: checked_add_one)

end
