(* ===== verification/DirTransport.thy ===== *)
theory DirTransport
  imports Handshake OnionPath Tcp
begin

text \<open>
  Secure directory transport of \<open>src/src/mesh/transport.rs\<close>: the mandatory hybrid handshake
  between a client that pins a composite identity and an authority, AEAD frames with one
  counter per direction, documents of several frames, and the poisoning of a session by a call
  that does not complete. Key agreement, signatures and the AEAD are the parameters \<open>kex\<close>,
  \<open>sigs\<close> and \<open>crypto\<close>; the combined mode of the AEAD appends its tag to the ciphertext.
\<close>

definition MAX_FRAME_LEN :: nat where [size_defs]: "MAX_FRAME_LEN = 1024 * 1024"
definition VERSION :: bytes where "VERSION = ascii ''AGDIR004''"
definition PURPOSE :: bytes where "PURPOSE = ascii ''directory-transport-v4''"

datatype dir_error = Rejected string | DirIo string | DirIdentity id_error | Panicked string

definition hybrid_transcript :: "bytes \<Rightarrow> bytes \<Rightarrow> bytes" where
  "hybrid_transcript client response =
     ascii ''AnonGuard-directory-transport-v4/initiator/responder'' @ client @ response"

definition make_nonce :: "u64 \<Rightarrow> bytes" where
  "make_nonce counter = put 4 (to_be 8 counter) (replicate 12 0)"

record SecureTransportSession =
  dt_stream :: tcp
  dt_send_key :: bytes
  dt_recv_key :: bytes
  dt_send_counter :: u64
  dt_recv_counter :: u64
  dt_peer_verifying_key :: "bytes option"
  dt_peer_hybrid_key :: "HybridPublicKey option"
  dt_poisoned :: bool

section \<open>Frames\<close>

definition encrypt :: "crypto \<Rightarrow> bytes \<Rightarrow> u64 \<Rightarrow> bytes \<Rightarrow> bytes" where
  "encrypt cr key counter payload =
    (let (ct, tag) = cr_seal cr key (make_nonce counter) [] payload in ct @ tag)"

definition decrypt :: "crypto \<Rightarrow> bytes \<Rightarrow> u64 \<Rightarrow> bytes \<Rightarrow> bytes option" where
  "decrypt cr key counter ct =
    cr_open cr key (make_nonce counter) [] (take (length ct - 16) ct) (drop (length ct - 16) ct)"

definition on_stream :: "(tcp, 'e, 'a) io \<Rightarrow> (SecureTransportSession, 'e, 'a) io" where
  "on_stream m st = (let (t, r) = m (dt_stream st) in (st\<lparr>dt_stream := t\<rparr>, r))"

definition write_frame_inner :: "crypto \<Rightarrow> bytes \<Rightarrow> (SecureTransportSession, dir_error, unit) io" where
  "write_frame_inner cr payload st =
    (if length payload > MAX_FRAME_LEN then (st, Inl (DirIo ''Frame payload exceeds limit''))
     else case checked_add (dt_send_counter st) 1 of
       None \<Rightarrow> (st, Inl (DirIo ''send nonce counter exhausted''))
     | Some next \<Rightarrow>
         let ciphertext = encrypt cr (dt_send_key st) (dt_send_counter st) payload;
             ct_len = of_nat (length ciphertext) :: u32
         in io_bind (on_stream (write_all (DirIo ''write'') (to_be 4 ct_len))) (\<lambda>_.
              on_stream (write_all (DirIo ''write'') ciphertext)) (st\<lparr>dt_send_counter := next\<rparr>))"

definition read_frame_inner :: "crypto \<Rightarrow> (SecureTransportSession, dir_error, bytes) io" where
  "read_frame_inner cr =
    io_bind (on_stream (read_exact (DirIo ''Timeout waiting for frame header'') 4)) (\<lambda>len_bytes.
      let ct_len = unat (from_be len_bytes :: u32) in
      if \<not> (16 \<le> ct_len \<and> ct_len \<le> MAX_FRAME_LEN + 16) then io_fail (DirIo ''Frame size out of bounds'')
      else io_bind (on_stream (read_exact (DirIo ''Timeout waiting for frame payload'') ct_len)) (\<lambda>ct_buf st.
        case decrypt cr (dt_recv_key st) (dt_recv_counter st) ct_buf of
          None \<Rightarrow> (st, Inl (DirIo ''AEAD authentication failed''))
        | Some plaintext \<Rightarrow>
            case checked_add (dt_recv_counter st) 1 of
              None \<Rightarrow> (st, Inl (DirIo ''recv nonce counter exhausted''))
            | Some next \<Rightarrow> (st\<lparr>dt_recv_counter := next\<rparr>, Inr plaintext)))"

text \<open>
  The wrapper that the four public calls share: the session is poisoned while a call runs, and
  stays so when the call fails or its future is dropped.
\<close>

definition unless_poisoned ::
  "(SecureTransportSession, dir_error, 'a) io \<Rightarrow> (SecureTransportSession, dir_error, 'a) io" where
  "unless_poisoned m st =
    (if dt_poisoned st then (st, Inl (Rejected ''Directory session is poisoned; reconnect''))
     else case m (st\<lparr>dt_poisoned := True\<rparr>) of
       (st, Inl e) \<Rightarrow> (st, Inl e)
     | (st, Inr a) \<Rightarrow> (st\<lparr>dt_poisoned := False\<rparr>, Inr a))"

definition write_frame :: "crypto \<Rightarrow> bytes \<Rightarrow> (SecureTransportSession, dir_error, unit) io" where
  "write_frame cr payload = unless_poisoned (write_frame_inner cr payload)"

definition read_frame :: "crypto \<Rightarrow> (SecureTransportSession, dir_error, bytes) io" where
  "read_frame cr = unless_poisoned (read_frame_inner cr)"

section \<open>Documents\<close>

function chunks :: "nat \<Rightarrow> 'a list \<Rightarrow> 'a list list" where
  "chunks n xs = (if xs = [] \<or> n = 0 then [] else take n xs # chunks n (drop n xs))"
  by pat_completeness auto
termination by (relation "measure (\<lambda>(n, xs). length xs)") (auto simp: length_greater_0_conv [symmetric] simp del: length_greater_0_conv)

declare chunks.simps [simp del]

fun write_frames :: "crypto \<Rightarrow> bytes list \<Rightarrow> (SecureTransportSession, dir_error, unit) io" where
  "write_frames cr [] st = (st, Inr ())"
| "write_frames cr (c # cs) st = io_bind (write_frame_inner cr c) (\<lambda>_. write_frames cr cs) st"

definition write_document_inner :: "crypto \<Rightarrow> bytes \<Rightarrow> (SecureTransportSession, dir_error, unit) io" where
  "write_document_inner cr document =
    (if document = [] \<or> length document > 6 * MAX_FRAME_LEN
     then io_fail (DirIo ''Directory document size out of bounds'')
     else io_bind (write_frame_inner cr (ascii ''AGDOC006'' @ to_be 4 (of_nat (length document) :: u32))) (\<lambda>_.
       write_frames cr (chunks MAX_FRAME_LEN document)))"

definition write_document :: "crypto \<Rightarrow> bytes \<Rightarrow> (SecureTransportSession, dir_error, unit) io" where
  "write_document cr document = unless_poisoned (write_document_inner cr document)"

function read_chunks :: "crypto \<Rightarrow> nat \<Rightarrow> bytes \<Rightarrow> SecureTransportSession \<Rightarrow> SecureTransportSession \<times> (dir_error + bytes)" where
  "read_chunks cr total_len document st =
    (if total_len \<le> length document then (st, Inr document)
     else case read_frame_inner cr st of
       (st', Inl e) \<Rightarrow> (st', Inl e)
     | (st', Inr chunk) \<Rightarrow>
         if length chunk \<noteq> min MAX_FRAME_LEN (total_len - length document)
         then (st', Inl (Rejected ''Directory document chunk length mismatch''))
         else read_chunks cr total_len (document @ chunk) st')"
  by pat_completeness auto
termination by (relation "measure (\<lambda>(cr, total_len, document, st). total_len - length document)") (auto simp: MAX_FRAME_LEN_def)

declare read_chunks.simps [simp del]

definition read_document_inner :: "crypto \<Rightarrow> (SecureTransportSession, dir_error, bytes) io" where
  "read_document_inner cr =
    io_bind (read_frame_inner cr) (\<lambda>header.
      if length header \<noteq> 12 \<or> take 8 header \<noteq> ascii ''AGDOC006''
      then io_fail (Rejected ''Directory document envelope required'')
      else
        let total_len = unat (from_be (drop 8 header) :: u32) in
        if total_len = 0 \<or> total_len > 6 * MAX_FRAME_LEN
        then io_fail (Rejected ''Directory document size out of bounds'')
        else read_chunks cr total_len [])"

definition read_document :: "crypto \<Rightarrow> (SecureTransportSession, dir_error, bytes) io" where
  "read_document cr = unless_poisoned (read_document_inner cr)"

section \<open>The handshake\<close>

definition derive_transport_keys :: "sigs \<Rightarrow> kex \<Rightarrow> bytes \<Rightarrow> bool \<Rightarrow> bytes \<Rightarrow> (bytes \<times> bytes) option" where
  "derive_transport_keys sg kx shared_secret is_client context =
    (let salt = sg_sha256 sg context in
     case (hkdf kx salt shared_secret (ascii ''AnonGuard-Client-To-Server-v4-HKDF'') 32,
           hkdf kx salt shared_secret (ascii ''AnonGuard-Server-To-Client-v4-HKDF'') 32) of
       (Some k_c2s, Some k_s2c) \<Rightarrow> Some (if is_client then (k_c2s, k_s2c) else (k_s2c, k_c2s))
     | _ \<Rightarrow> None)"

definition dir_id :: "id_error + 'a \<Rightarrow> dir_error + 'a" where
  "dir_id r = (case r of Inl e \<Rightarrow> Inl (DirIdentity e) | Inr a \<Rightarrow> Inr a)"

definition from_hybrid_keys ::
  "sigs \<Rightarrow> kex \<Rightarrow> tcp \<Rightarrow> bytes \<Rightarrow> bool \<Rightarrow> bytes \<Rightarrow> HybridPublicKey option \<Rightarrow> dir_error + SecureTransportSession" where
  "from_hybrid_keys sg kx stream shared client context peer =
    (case derive_transport_keys sg kx shared client context of
       None \<Rightarrow> Inl (Panicked ''HKDF'')
     | Some (send, recv) \<Rightarrow>
         ebind (case peer of None \<Rightarrow> Inr None
                | Some key \<Rightarrow> ebind (dir_id (VerifyingKey_from_bytes (fingerprint sg key))) (\<lambda>vk. Inr (Some vk)))
           (\<lambda>peer_verifying_key.
             Inr \<lparr>dt_stream = stream, dt_send_key = send, dt_recv_key = recv, dt_send_counter = 0,
                  dt_recv_counter = 0, dt_peer_verifying_key = peer_verifying_key,
                  dt_peer_hybrid_key = peer, dt_poisoned = False\<rparr>))"

definition client_handshake_hybrid_pin ::
  "sigs \<Rightarrow> kex \<Rightarrow> crypto \<Rightarrow> bytes \<Rightarrow> bytes \<Rightarrow> bytes \<Rightarrow> tcp \<Rightarrow> dir_error + SecureTransportSession" where
  "client_handshake_hybrid_pin sg kx cr secret kem_secret pinned stream =
    (if pinned = replicate 32 0 then Inl (Rejected ''Zero hybrid identity pin'')
     else
       let hello = VERSION @ x_public kx secret @ kem_public kx kem_secret in
       ebind (run_io (write_all (DirIo ''write'') hello) stream) (\<lambda>(stream, _).
       ebind (run_io (read_exact (DirIo ''read'') (8 + 32 + 1088 + PUBLIC_KEY_SIZE)) stream) (\<lambda>(stream, response).
       if take 8 response \<noteq> VERSION then Inl (Rejected ''Directory protocol downgrade/version mismatch'')
       else ebind (dir_id (decode_public_key sg (drop 1128 response))) (\<lambda>identity.
       if fingerprint sg identity \<noteq> pinned then Inl (Rejected ''Directory composite identity pin mismatch'')
       else ebind (run_io (read_exact (DirIo ''read'') SIGNATURE_SIZE) stream) (\<lambda>(stream, pf).
       let context = hybrid_transcript hello response in
       ebind (dir_id (hybrid_verify sg identity PURPOSE context pf)) (\<lambda>_.
       let context = context @ pf;
           dh = x_dh kx secret (subslice 8 40 response) in
       if dh = replicate 32 0 then Inl (Rejected ''Non-contributory directory KEX'')
       else case kem_decap kx kem_secret (subslice 40 1128 response) of
         None \<Rightarrow> Inl (Rejected ''Directory KEM failed'')
       | Some kem \<Rightarrow>
           ebind (from_hybrid_keys sg kx stream (dh @ kem) True context (Some identity)) (\<lambda>session.
           ebind (run_io (write_frame cr (ascii ''AGDIR004/client-confirm'')) session) (\<lambda>(session, _).
           ebind (run_io (read_frame cr) session) (\<lambda>(session, confirm).
           if confirm \<noteq> ascii ''AGDIR004/server-confirm''
           then Inl (Rejected ''Directory server confirmation failed'')
           else Inr session)))))))))"

definition server_handshake_hybrid ::
  "sigs \<Rightarrow> kex \<Rightarrow> crypto \<Rightarrow> bytes \<Rightarrow> bytes \<Rightarrow> HybridSigningKey \<Rightarrow> tcp \<Rightarrow> dir_error + SecureTransportSession" where
  "server_handshake_hybrid sg kx cr secret kem_rnd key stream =
    ebind (run_io (read_exact (DirIo ''read'') 8) stream) (\<lambda>(stream, version).
    if version \<noteq> VERSION then Inl (Rejected ''Directory protocol downgrade/version mismatch'')
    else ebind (run_io (read_exact (DirIo ''read'') (32 + 1184)) stream) (\<lambda>(stream, rest).
    let hello = version @ rest;
        dh = x_dh kx secret (subslice 8 40 hello) in
    if dh = replicate 32 0 then Inl (Rejected ''Non-contributory directory KEX'')
    else
      let encoded = drop 40 hello in
      if \<not> mlkem768_public_is_canonical encoded then Inl (Rejected ''Noncanonical ML-KEM encapsulation key'')
      else case kem_encap kx encoded kem_rnd of
        None \<Rightarrow> Inl (Rejected ''Directory KEM failed'')
      | Some (ciphertext, kem) \<Rightarrow>
          let response = VERSION @ x_public kx secret @ ciphertext @ hp_encoded (public_key sg key);
              context = hybrid_transcript hello response in
          ebind (dir_id (hybrid_sign sg key PURPOSE context)) (\<lambda>pf.
          ebind (run_io (write_all (DirIo ''write'') response) stream) (\<lambda>(stream, _).
          ebind (run_io (write_all (DirIo ''write'') pf) stream) (\<lambda>(stream, _).
          ebind (from_hybrid_keys sg kx stream (dh @ kem) False (context @ pf) None) (\<lambda>session.
          ebind (run_io (read_frame cr) session) (\<lambda>(session, confirm).
          if confirm \<noteq> ascii ''AGDIR004/client-confirm''
          then Inl (Rejected ''Directory client confirmation failed'')
          else ebind (run_io (write_frame cr (ascii ''AGDIR004/server-confirm'')) session) (\<lambda>(session, _).
            Inr session))))))))"

text \<open>The entry points that take a pin or a key that may be missing.\<close>

definition client_handshake ::
  "sigs \<Rightarrow> kex \<Rightarrow> crypto \<Rightarrow> bytes \<Rightarrow> bytes \<Rightarrow> bytes option \<Rightarrow> tcp \<Rightarrow> dir_error + SecureTransportSession" where
  "client_handshake sg kx cr secret kem_secret pinned stream =
    (case pinned of
       None \<Rightarrow> Inl (Rejected ''Directory hybrid identity pin required'')
     | Some pin \<Rightarrow> client_handshake_hybrid_pin sg kx cr secret kem_secret pin stream)"

definition server_handshake ::
  "sigs \<Rightarrow> kex \<Rightarrow> crypto \<Rightarrow> bytes \<Rightarrow> bytes \<Rightarrow> HybridSigningKey option \<Rightarrow> tcp \<Rightarrow> dir_error + SecureTransportSession" where
  "server_handshake sg kx cr secret kem_rnd key stream =
    (case key of
       None \<Rightarrow> Inl (Rejected ''Directory hybrid signing identity required'')
     | Some key \<Rightarrow> server_handshake_hybrid sg kx cr secret kem_rnd key stream)"

definition client_handshake_hybrid ::
  "sigs \<Rightarrow> kex \<Rightarrow> crypto \<Rightarrow> bytes \<Rightarrow> bytes \<Rightarrow> HybridPublicKey \<Rightarrow> tcp \<Rightarrow> dir_error + SecureTransportSession" where
  "client_handshake_hybrid sg kx cr secret kem_secret pinned stream =
    client_handshake_hybrid_pin sg kx cr secret kem_secret (fingerprint sg pinned) stream"

section \<open>A frame on the wire\<close>

definition frame_wire :: "crypto \<Rightarrow> bytes \<Rightarrow> u64 \<Rightarrow> bytes \<Rightarrow> bytes" where
  "frame_wire cr key counter p =
    to_be 4 (of_nat (length (encrypt cr key counter p)) :: u32) @ encrypt cr key counter p"

fun frames_wire :: "crypto \<Rightarrow> bytes \<Rightarrow> u64 \<Rightarrow> bytes list \<Rightarrow> bytes" where
  "frames_wire cr key counter [] = []"
| "frames_wire cr key counter (p # ps) = frame_wire cr key counter p @ frames_wire cr key (counter + 1) ps"

lemma length_encrypt: "crypto_ok cr \<Longrightarrow> length (encrypt cr k c p) = length p + 16"
  by (simp add: encrypt_def crypto_ok_def split: prod.split) (metis fst_conv snd_conv)

lemma decrypt_encrypt: "crypto_ok cr \<Longrightarrow> decrypt cr k c (encrypt cr k c p) = Some p"
proof -
  assume ok: "crypto_ok cr"
  obtain ct tag where s: "cr_seal cr k (make_nonce c) [] p = (ct, tag)" by fastforce
  have "length tag = 16" "cr_open cr k (make_nonce c) [] ct tag = Some p"
    using ok s unfolding crypto_ok_def by (metis fst_conv snd_conv)+
  then show ?thesis by (simp add: decrypt_def encrypt_def s)
qed

lemma on_stream_eqs [simp]:
  "m (dt_stream st) = (t, r) \<Longrightarrow> on_stream m st = (st\<lparr>dt_stream := t\<rparr>, r)"
  by (simp add: on_stream_def)

lemma write_frame_inner_ok:
  assumes "length p \<le> MAX_FRAME_LEN" "dt_send_counter st \<noteq> - 1" "tcp_room (dt_stream st) = None"
  shows "write_frame_inner cr p st =
    (st\<lparr>dt_send_counter := dt_send_counter st + 1,
        dt_stream := (dt_stream st)\<lparr>tcp_out := tcp_out (dt_stream st) @
          frame_wire cr (dt_send_key st) (dt_send_counter st) p\<rparr>\<rparr>, Inr ())"
  using assms
  by (simp add: write_frame_inner_def checked_add_one Let_def io_bind_def on_stream_def frame_wire_def)

lemma unat_frame_length:
  "n \<le> MAX_FRAME_LEN \<Longrightarrow> unat (of_nat (n + 16) :: u32) = n + 16"
  by (rule unat_of_nat_small) (simp add: size_defs)

lemma read_frame_inner_ok:
  assumes ok: "crypto_ok cr" and len: "length p \<le> MAX_FRAME_LEN" and c: "dt_recv_counter st \<noteq> - 1"
    and inp: "tcp_in (dt_stream st) = frame_wire cr (dt_recv_key st) (dt_recv_counter st) p @ rest"
  shows "read_frame_inner cr st =
    (st\<lparr>dt_recv_counter := dt_recv_counter st + 1, dt_stream := (dt_stream st)\<lparr>tcp_in := rest\<rparr>\<rparr>, Inr p)"
proof -
  let ?ct = "encrypt cr (dt_recv_key st) (dt_recv_counter st) p"
  let ?h = "to_be 4 (of_nat (length p + 16) :: u32)"
  note l = length_encrypt [OF ok]
  have inp': "tcp_in (dt_stream st) = ?h @ ?ct @ rest" by (simp add: inp frame_wire_def l)
  have r1: "read_exact e 4 (dt_stream st) = ((dt_stream st)\<lparr>tcp_in := ?ct @ rest\<rparr>, Inr ?h)" for e :: dir_error
    by (rule read_exact_at) (simp_all add: inp')
  have r2: "read_exact e (length p + 16) ((dt_stream st)\<lparr>tcp_in := ?ct @ rest\<rparr>) =
      ((dt_stream st)\<lparr>tcp_in := rest\<rparr>, Inr ?ct)" for e :: dir_error
    by (subst read_exact_at [of ?ct]) (simp_all add: l)
  have n: "unat (from_be ?h :: u32) = length p + 16"
    unfolding be_inverse by (rule unat_frame_length [OF len])
  show ?thesis
    using len c
    by (simp del: of_nat_add of_nat_numeral add: read_frame_inner_def io_bind_def on_stream_def r1 n Let_def r2 decrypt_encrypt [OF ok] checked_add_one)
qed

section \<open>Documents in and out\<close>

lemma write_frames_ok:
  "\<forall>p \<in> set ps. length p \<le> MAX_FRAME_LEN \<Longrightarrow> unat (dt_send_counter st) + length ps < 2 ^ 64 \<Longrightarrow>
   tcp_room (dt_stream st) = None \<Longrightarrow>
   write_frames cr ps st =
    (st\<lparr>dt_send_counter := dt_send_counter st + of_nat (length ps),
        dt_stream := (dt_stream st)\<lparr>tcp_out := tcp_out (dt_stream st) @
          frames_wire cr (dt_send_key st) (dt_send_counter st) ps\<rparr>\<rparr>, Inr ())"
proof (induction ps arbitrary: st)
  case Nil
  then show ?case by simp
next
  case (Cons p ps)
  have c: "dt_send_counter st \<noteq> - 1" using counter_not_max Cons.prems(2) by force
  have u: "unat (dt_send_counter st + 1) = unat (dt_send_counter st) + 1" using c by (rule counter_succ_neq)
  let ?st = "st\<lparr>dt_send_counter := dt_send_counter st + 1, dt_stream := (dt_stream st)\<lparr>tcp_out :=
    tcp_out (dt_stream st) @ frame_wire cr (dt_send_key st) (dt_send_counter st) p\<rparr>\<rparr>"
  have "write_frame_inner cr p st = (?st, Inr ())"
    using Cons.prems by (intro write_frame_inner_ok c) simp_all
  then have "write_frames cr (p # ps) st = write_frames cr ps ?st" by simp
  also have "\<dots> = (?st\<lparr>dt_send_counter := dt_send_counter ?st + of_nat (length ps),
      dt_stream := (dt_stream ?st)\<lparr>tcp_out := tcp_out (dt_stream ?st) @
        frames_wire cr (dt_send_key ?st) (dt_send_counter ?st) ps\<rparr>\<rparr>, Inr ())"
    using Cons.prems u by (intro Cons.IH) simp_all
  finally show ?case by simp
qed

lemma chunks_Nil [simp]: "chunks n [] = []"
  by (simp add: chunks.simps)

lemma chunks_Cons: "xs \<noteq> [] \<Longrightarrow> 0 < n \<Longrightarrow> chunks n xs = take n xs # chunks n (drop n xs)"
  by (subst chunks.simps) simp

lemma read_chunks_full: "total_len \<le> length doc \<Longrightarrow> read_chunks cr total_len doc st = (st, Inr doc)"
  by (subst read_chunks.simps) simp

lemma chunks_bound: "c \<in> set (chunks n xs) \<Longrightarrow> length c \<le> n"
  by (induction n xs rule: chunks.induct) (subst (asm) (2) chunks.simps, auto split: if_splits)

lemma length_chunks: "0 < n \<Longrightarrow> length xs \<le> k * n \<Longrightarrow> length (chunks n xs) \<le> k"
proof (induction n xs arbitrary: k rule: chunks.induct)
  case (1 n xs)
  show ?case
  proof (cases "xs = []")
    case True
    then show ?thesis by simp
  next
    case False
    with 1 obtain j where k: "k = Suc j" by (cases k) auto
    have "length (drop n xs) \<le> j * n" using 1(3) by (simp add: k)
    with 1 False show ?thesis by (simp add: chunks_Cons k)
  qed
qed

lemma read_chunks_ok:
  assumes "crypto_ok cr"
  shows "unat (dt_recv_counter st) + length (chunks MAX_FRAME_LEN d) < 2 ^ 64 \<Longrightarrow>
    tcp_in (dt_stream st) = frames_wire cr (dt_recv_key st) (dt_recv_counter st) (chunks MAX_FRAME_LEN d) @ rest \<Longrightarrow>
    read_chunks cr (length doc + length d) doc st =
      (st\<lparr>dt_recv_counter := dt_recv_counter st + of_nat (length (chunks MAX_FRAME_LEN d)),
          dt_stream := (dt_stream st)\<lparr>tcp_in := rest\<rparr>\<rparr>, Inr (doc @ d))"
proof (induction "MAX_FRAME_LEN" d arbitrary: doc st rule: chunks.induct)
  case (1 d)
  show ?case
  proof (cases "d = []")
    case True
    then have e: "chunks MAX_FRAME_LEN d = []" by simp
    have "st = st\<lparr>dt_stream := (dt_stream st)\<lparr>tcp_in := rest\<rparr>\<rparr>" using 1(3) by (simp add: e)
    then show ?thesis unfolding e using True by (simp add: read_chunks_full)
  next
    case False
    let ?c = "take MAX_FRAME_LEN d" and ?d = "drop MAX_FRAME_LEN d"
    have M: "0 < MAX_FRAME_LEN" by (simp add: MAX_FRAME_LEN_def)
    have ch: "chunks MAX_FRAME_LEN d = ?c # chunks MAX_FRAME_LEN ?d"
      using False M by (rule chunks_Cons)
    have c: "dt_recv_counter st \<noteq> - 1" using counter_not_max 1(2) by (force simp: ch)
    have u: "unat (dt_recv_counter st + 1) = unat (dt_recv_counter st) + 1" using c by (rule counter_succ_neq)
    have r: "read_frame_inner cr st = (st\<lparr>dt_recv_counter := dt_recv_counter st + 1,
        dt_stream := (dt_stream st)\<lparr>tcp_in := frames_wire cr (dt_recv_key st) (dt_recv_counter st + 1)
          (chunks MAX_FRAME_LEN ?d) @ rest\<rparr>\<rparr>, Inr ?c)"
      by (rule read_frame_inner_ok [OF assms _ c]) (simp_all add: 1(3) ch)
    have len: "length (doc @ ?c) + length ?d = length doc + length d" by simp
    have ih: "read_chunks cr (length (doc @ ?c) + length ?d) (doc @ ?c) st' =
      (st'\<lparr>dt_recv_counter := dt_recv_counter st' + of_nat (length (chunks MAX_FRAME_LEN ?d)),
          dt_stream := (dt_stream st')\<lparr>tcp_in := rest\<rparr>\<rparr>, Inr ((doc @ ?c) @ ?d))"
      if "unat (dt_recv_counter st') + length (chunks MAX_FRAME_LEN ?d) < 2 ^ 64"
        "tcp_in (dt_stream st') = frames_wire cr (dt_recv_key st') (dt_recv_counter st') (chunks MAX_FRAME_LEN ?d) @ rest" for st'
      by (rule 1(1)) (use False M that in simp_all)
    let ?st = "st\<lparr>dt_recv_counter := dt_recv_counter st + 1,
        dt_stream := (dt_stream st)\<lparr>tcp_in := frames_wire cr (dt_recv_key st) (dt_recv_counter st + 1)
          (chunks MAX_FRAME_LEN ?d) @ rest\<rparr>\<rparr>"
    have "read_chunks cr (length doc + length d) doc st = read_chunks cr (length doc + length d) (doc @ ?c) ?st"
      using False by (subst read_chunks.simps) (simp add: r min.commute)
    also have "\<dots> = (?st\<lparr>dt_recv_counter := dt_recv_counter ?st + of_nat (length (chunks MAX_FRAME_LEN ?d)),
          dt_stream := (dt_stream ?st)\<lparr>tcp_in := rest\<rparr>\<rparr>, Inr ((doc @ ?c) @ ?d))"
      by (rule ih [unfolded len]) (use 1(2) in \<open>simp_all add: u ch\<close>)
    finally show ?thesis by (simp add: ch)
  qed
qed

lemma document_header:
  "0 < n \<Longrightarrow> n \<le> 6 * MAX_FRAME_LEN \<Longrightarrow> unat (of_nat n :: u32) = n"
  by (rule unat_of_nat_small) (simp add: size_defs)

text \<open>The chunks of a document in bounds: at most six, each within the frame limit.\<close>

lemma document_chunks:
  assumes "length d \<le> 6 * MAX_FRAME_LEN"
  shows "length (chunks MAX_FRAME_LEN d) \<le> 6" "\<forall>c \<in> set (chunks MAX_FRAME_LEN d). length c \<le> MAX_FRAME_LEN"
  using length_chunks [OF _ assms] chunks_bound by (auto simp: MAX_FRAME_LEN_def)

definition document_frames :: "bytes \<Rightarrow> bytes list" where
  "document_frames d = (ascii ''AGDOC006'' @ to_be 4 (of_nat (length d) :: u32)) # chunks MAX_FRAME_LEN d"

lemma write_document_inner_ok:
  assumes d: "d \<noteq> []" "length d \<le> 6 * MAX_FRAME_LEN" and c: "unat (dt_send_counter st) + 7 < 2 ^ 64"
    and room: "tcp_room (dt_stream st) = None"
  shows "write_document_inner cr d st =
    (st\<lparr>dt_send_counter := dt_send_counter st + of_nat (length (document_frames d)),
        dt_stream := (dt_stream st)\<lparr>tcp_out := tcp_out (dt_stream st) @
          frames_wire cr (dt_send_key st) (dt_send_counter st) (document_frames d)\<rparr>\<rparr>, Inr ())"
proof -
  have "write_document_inner cr d st = write_frames cr (document_frames d) st"
    using d by (simp add: write_document_inner_def document_frames_def io_bind_def)
  also have "\<dots> = (st\<lparr>dt_send_counter := dt_send_counter st + of_nat (length (document_frames d)),
        dt_stream := (dt_stream st)\<lparr>tcp_out := tcp_out (dt_stream st) @
          frames_wire cr (dt_send_key st) (dt_send_counter st) (document_frames d)\<rparr>\<rparr>, Inr ())"
    using document_chunks [OF d(2)] c room
    by (intro write_frames_ok) (simp_all add: document_frames_def MAX_FRAME_LEN_def)
  finally show ?thesis .
qed

lemma read_document_inner_ok:
  assumes ok: "crypto_ok cr" and d: "d \<noteq> []" "length d \<le> 6 * MAX_FRAME_LEN"
    and c: "unat (dt_recv_counter st) + 7 < 2 ^ 64"
    and inp: "tcp_in (dt_stream st) = frames_wire cr (dt_recv_key st) (dt_recv_counter st) (document_frames d) @ rest"
  shows "read_document_inner cr st =
    (st\<lparr>dt_recv_counter := dt_recv_counter st + of_nat (length (document_frames d)),
        dt_stream := (dt_stream st)\<lparr>tcp_in := rest\<rparr>\<rparr>, Inr d)"
proof -
  let ?h = "ascii ''AGDOC006'' @ to_be 4 (of_nat (length d) :: u32)"
  let ?st = "st\<lparr>dt_recv_counter := dt_recv_counter st + 1, dt_stream := (dt_stream st)\<lparr>tcp_in :=
    frames_wire cr (dt_recv_key st) (dt_recv_counter st + 1) (chunks MAX_FRAME_LEN d) @ rest\<rparr>\<rparr>"
  have c1: "dt_recv_counter st \<noteq> - 1" using counter_not_max [of "dt_recv_counter st" 7] c by simp
  have u: "unat (dt_recv_counter st + 1) = unat (dt_recv_counter st) + 1" using c1 by (rule counter_succ_neq)
  have r: "read_frame_inner cr st = (?st, Inr ?h)"
    by (rule read_frame_inner_ok [OF ok _ c1]) (simp_all add: inp document_frames_def MAX_FRAME_LEN_def)
  have n: "unat (from_be (to_be 4 (of_nat (length d) :: u32)) :: u32) = length d"
    using document_header d by (simp add: be_inverse)
  have "read_chunks cr (length d) [] ?st =
      (?st\<lparr>dt_recv_counter := dt_recv_counter ?st + of_nat (length (chunks MAX_FRAME_LEN d)),
           dt_stream := (dt_stream ?st)\<lparr>tcp_in := rest\<rparr>\<rparr>, Inr d)"
    using read_chunks_ok [OF ok, of ?st d rest "[]"] document_chunks(1) [OF d(2)] c u by simp
  then show ?thesis
    using d by (simp add: read_document_inner_def io_bind_def r n Let_def document_frames_def ac_simps)
qed

text \<open>
  C37. Directory documents arrive whole. When the two ends of a session agree on the key and the
  counter of a direction, writing a document of one byte to six MiB succeeds and reading it at
  the other end returns exactly that document, leaves what follows it unread, and leaves both
  ends in agreement and usable.
\<close>

theorem directory_document_roundtrip:
  assumes "crypto_ok cr" "d \<noteq> []" "length d \<le> 6 * MAX_FRAME_LEN"
    and "\<not> dt_poisoned s" "\<not> dt_poisoned r" "tcp_room (dt_stream s) = None"
    and "dt_recv_key r = dt_send_key s" "dt_recv_counter r = dt_send_counter s"
    and "unat (dt_send_counter s) + 7 < 2 ^ 64"
  shows "\<exists>s' w r'. write_document cr d s = (s', Inr ()) \<and> tcp_out (dt_stream s') = tcp_out (dt_stream s) @ w
    \<and> read_document cr (r\<lparr>dt_stream := (dt_stream r)\<lparr>tcp_in := w @ rest\<rparr>\<rparr>) = (r', Inr d)
    \<and> tcp_in (dt_stream r') = rest \<and> dt_recv_key r' = dt_send_key s' \<and> dt_recv_counter r' = dt_send_counter s'
    \<and> \<not> dt_poisoned s' \<and> \<not> dt_poisoned r'"
proof -
  let ?w = "frames_wire cr (dt_send_key s) (dt_send_counter s) (document_frames d)"
  let ?r = "r\<lparr>dt_stream := (dt_stream r)\<lparr>tcp_in := ?w @ rest\<rparr>, dt_poisoned := True\<rparr>"
  have w: "write_document_inner cr d (s\<lparr>dt_poisoned := True\<rparr>) =
    (s\<lparr>dt_send_counter := dt_send_counter s + of_nat (length (document_frames d)),
       dt_stream := (dt_stream s)\<lparr>tcp_out := tcp_out (dt_stream s) @ ?w\<rparr>, dt_poisoned := True\<rparr>, Inr ())"
    using write_document_inner_ok [of d "s\<lparr>dt_poisoned := True\<rparr>" cr] assms by simp
  have r: "read_document_inner cr ?r =
    (?r\<lparr>dt_recv_counter := dt_recv_counter r + of_nat (length (document_frames d)),
       dt_stream := (dt_stream r)\<lparr>tcp_in := rest\<rparr>\<rparr>, Inr d)"
    using read_document_inner_ok [of cr d ?r rest] assms by simp
  show ?thesis
    using w r assms by (auto simp: write_document_def read_document_def unless_poisoned_def)
qed

section \<open>Authenticity under an arbitrary network\<close>

lemma make_nonce_inj: "make_nonce a = make_nonce b \<longleftrightarrow> a = b"
proof
  assume "make_nonce a = make_nonce b"
  then have "drop 4 (make_nonce a) = drop 4 (make_nonce b)" by simp
  then show "a = b" by (simp add: make_nonce_def put_def be64.enc_eq_iff)
qed simp

text \<open>
  Between two states of a receiver, exactly the frames \<open>fs\<close> of the sender's sequence were
  taken, in order and without a gap.
\<close>

definition advanced :: "bytes list \<Rightarrow> bytes list \<Rightarrow> SecureTransportSession \<Rightarrow> SecureTransportSession \<Rightarrow> bool" where
  "advanced sent fs st st' \<longleftrightarrow>
    dt_recv_key st' = dt_recv_key st \<and> unat (dt_recv_counter st') = unat (dt_recv_counter st) + length fs \<and>
    unat (dt_recv_counter st') \<le> length sent \<and> take (length fs) (drop (unat (dt_recv_counter st)) sent) = fs"

definition only_sent :: "crypto \<Rightarrow> bytes \<Rightarrow> bytes list \<Rightarrow> bool" where
  "only_sent cr key sent \<longleftrightarrow>
    (\<forall>nonce ct tag p. cr_open cr key nonce [] ct tag = Some p \<longrightarrow>
       (\<exists>i < length sent. i < 2 ^ 64 \<and> nonce = make_nonce (of_nat i) \<and> p = sent ! i))"

lemma advanced_trans: "advanced sent fs a b \<Longrightarrow> advanced sent gs b c \<Longrightarrow> advanced sent (fs @ gs) a c"
  by (auto simp: advanced_def take_add ac_simps)

lemma advanced_take:
  assumes "advanced sent fs a b"
  shows "take (length fs + k) (drop (unat (dt_recv_counter a)) sent) = fs @ take k (drop (unat (dt_recv_counter b)) sent)"
proof -
  have "take (length fs) (drop (unat (dt_recv_counter a)) sent) = fs"
    "drop (length fs) (drop (unat (dt_recv_counter a)) sent) = drop (unat (dt_recv_counter b)) sent"
    using assms by (simp_all add: advanced_def add.commute)
  then show ?thesis by (simp only: take_add)
qed

lemma advanced_poison [simp]:
  "advanced sent fs (st\<lparr>dt_poisoned := b\<rparr>) st' = advanced sent fs st st'"
  "advanced sent fs st (st'\<lparr>dt_poisoned := b\<rparr>) = advanced sent fs st st'"
  by (simp_all add: advanced_def)

lemma decrypt_only_sent:
  assumes "only_sent cr key sent" "decrypt cr key c ct = Some p"
  shows "unat c < length sent \<and> sent ! unat c = p"
proof -
  obtain i where i: "i < length sent" "i < 2 ^ 64" "make_nonce c = make_nonce (of_nat i)" "p = sent ! i"
    using assms unfolding only_sent_def decrypt_def by blast
  then have "unat c = i" by (simp add: make_nonce_inj unat_of_nat_small)
  with i show ?thesis by simp
qed

lemma read_frame_inner_authentic:
  assumes "only_sent cr (dt_recv_key st) sent" "read_frame_inner cr st = (st', Inr p)"
  shows "advanced sent [p] st st'"
proof -
  obtain ct st1 where r: "decrypt cr (dt_recv_key st) (dt_recv_counter st) ct = Some p"
    "st' = st1\<lparr>dt_recv_counter := dt_recv_counter st + 1\<rparr>" "dt_recv_key st1 = dt_recv_key st"
    "dt_recv_counter st \<noteq> - 1"
    using assms(2)
    by (auto simp: read_frame_inner_def io_bind_Inr on_stream_def Let_def checked_add_one
        split: if_splits option.splits prod.splits)
  have "unat (dt_recv_counter st + 1) = unat (dt_recv_counter st) + 1"
    using r(4) by (rule counter_succ_neq)
  with decrypt_only_sent [OF assms(1) r(1)] r show ?thesis
    by (simp add: advanced_def take_Suc_conv_app_nth hd_drop_conv_nth take_Suc)
qed

lemma read_chunks_authentic:
  "read_chunks cr total_len doc st = (st', Inr d) \<Longrightarrow> only_sent cr (dt_recv_key st) sent \<Longrightarrow>
   unat (dt_recv_counter st) \<le> length sent \<Longrightarrow> length doc \<le> total_len \<Longrightarrow>
   \<exists>e. d = doc @ e \<and> length d = total_len \<and> advanced sent (chunks MAX_FRAME_LEN e) st st'"
proof (induction cr total_len doc st rule: read_chunks.induct)
  case (1 cr total_len doc st)
  show ?case
  proof (cases "total_len \<le> length doc")
    case True
    with 1 have "d = doc" "st' = st" by (simp_all add: read_chunks_full)
    with True 1 show ?thesis by (simp add: advanced_def)
  next
    case False
    with 1(2) obtain st1 c where c: "read_frame_inner cr st = (st1, Inr c)"
      "length c = min MAX_FRAME_LEN (total_len - length doc)" "read_chunks cr total_len (doc @ c) st1 = (st', Inr d)"
      by (subst (asm) read_chunks.simps) (auto split: prod.splits sum.splits if_splits)
    have a: "advanced sent [c] st st1" by (rule read_frame_inner_authentic [OF 1(3) c(1)])
    then have st1: "only_sent cr (dt_recv_key st1) sent" "unat (dt_recv_counter st1) \<le> length sent"
      using 1(3) by (simp_all add: advanced_def)
    have len: "length (doc @ c) \<le> total_len" and nc: "\<not> length c \<noteq> min MAX_FRAME_LEN (total_len - length doc)"
      using c(2) False by simp_all
    obtain e where e: "d = (doc @ c) @ e" "length d = total_len" "advanced sent (chunks MAX_FRAME_LEN e) st1 st'"
      using 1(1) [OF False c(1) [symmetric] refl nc c(3) st1 len] by blast
    have "chunks MAX_FRAME_LEN (c @ e) = c # chunks MAX_FRAME_LEN e"
    proof -
      have "c \<noteq> []" using c(2) False by (auto simp: MAX_FRAME_LEN_def)
      moreover have "length c = MAX_FRAME_LEN \<or> length c \<le> MAX_FRAME_LEN \<and> e = []"
        using c(2) e(1,2) by (cases e) (auto simp: min_def split: if_splits)
      ultimately show ?thesis by (auto simp: chunks_Cons MAX_FRAME_LEN_def)
    qed
    with advanced_trans [OF a e(3)] e show ?thesis by auto
  qed
qed

lemma read_document_inner_authentic:
  assumes au: "only_sent cr (dt_recv_key st) sent" and r: "read_document_inner cr st = (st', Inr d)"
  shows "advanced sent (document_frames d) st st'"
proof -
  obtain st1 h where h: "read_frame_inner cr st = (st1, Inr h)" "length h = 12" "take 8 h = ascii ''AGDOC006''"
    and c: "read_chunks cr (unat (from_be (drop 8 h) :: u32)) [] st1 = (st', Inr d)"
    using r by (auto simp: read_document_inner_def io_bind_Inr Let_def split: if_splits)
  have a: "advanced sent [h] st st1" by (rule read_frame_inner_authentic [OF au h(1)])
  then have k: "dt_recv_key st1 = dt_recv_key st" "unat (dt_recv_counter st1) \<le> length sent"
    by (simp_all add: advanced_def)
  obtain e where e: "d = e" "length d = unat (from_be (drop 8 h) :: u32)" "advanced sent (chunks MAX_FRAME_LEN e) st1 st'"
    using read_chunks_authentic [OF c _ k(2)] au k by auto
  have "to_be 4 (of_nat (length d) :: u32) = drop 8 h"
    using e(2) h(2) by (simp add: be_inverse)
  then have "h = ascii ''AGDOC006'' @ to_be 4 (of_nat (length d) :: u32)"
    using h(3) by (metis append_take_drop_id)
  with advanced_trans [OF a e(3)] e(1) show ?thesis by (simp add: document_frames_def)
qed

text \<open>A receiver makes a sequence of calls, whatever arrives; the results of those that succeed.\<close>

datatype received = GotFrame bytes | GotDocument bytes

fun frames_of :: "received \<Rightarrow> bytes list" where
  "frames_of (GotFrame p) = [p]"
| "frames_of (GotDocument d) = document_frames d"

fun receive_all :: "crypto \<Rightarrow> bool list \<Rightarrow> SecureTransportSession \<Rightarrow> received list" where
  "receive_all cr [] st = []"
| "receive_all cr (False # calls) st =
    (case read_frame cr st of (st, Inl e) \<Rightarrow> receive_all cr calls st | (st, Inr p) \<Rightarrow> GotFrame p # receive_all cr calls st)"
| "receive_all cr (True # calls) st =
    (case read_document cr st of (st, Inl e) \<Rightarrow> receive_all cr calls st | (st, Inr d) \<Rightarrow> GotDocument d # receive_all cr calls st)"

lemma unless_poisoned_Inr:
  "unless_poisoned m st = (st', Inr a) \<Longrightarrow> \<exists>st1. m (st\<lparr>dt_poisoned := True\<rparr>) = (st1, Inr a) \<and> st' = st1\<lparr>dt_poisoned := False\<rparr>"
  by (auto simp: unless_poisoned_def split: if_splits prod.splits sum.splits)

lemma poisoned_receives_nothing: "dt_poisoned st \<Longrightarrow> receive_all cr calls st = []"
  by (induction cr calls st rule: receive_all.induct)
     (simp_all add: read_frame_def read_document_def unless_poisoned_def)

definition keeps_poison :: "(SecureTransportSession, 'e, 'a) io \<Rightarrow> bool" where
  "keeps_poison m \<longleftrightarrow> (\<forall>st. dt_poisoned (fst (m st)) = dt_poisoned st)"

lemma keeps_poison_bind: "keeps_poison m \<Longrightarrow> (\<And>a. keeps_poison (f a)) \<Longrightarrow> keeps_poison (io_bind m f)"
  unfolding keeps_poison_def io_bind_def by (auto split: prod.split sum.split) (metis fst_conv)+

lemma keeps_poison_stream: "keeps_poison (on_stream m)"
  by (simp add: keeps_poison_def on_stream_def split: prod.split)

lemma keeps_poison_fail: "keeps_poison (io_fail e)"
  by (simp add: keeps_poison_def)

lemma keeps_poison_if: "keeps_poison m \<Longrightarrow> keeps_poison m' \<Longrightarrow> keeps_poison (if b then m else m')"
  by simp

lemma keeps_poison_frame: "keeps_poison (read_frame_inner cr)"
proof -
  have "keeps_poison (\<lambda>st. case decrypt cr (dt_recv_key st) (dt_recv_counter st) ct_buf of
      None \<Rightarrow> (st, Inl e) | Some plaintext \<Rightarrow>
        (case checked_add (dt_recv_counter st) 1 of None \<Rightarrow> (st, Inl e')
         | Some next \<Rightarrow> (st\<lparr>dt_recv_counter := next\<rparr>, Inr plaintext)))" for ct_buf e e'
    by (simp add: keeps_poison_def split: option.split)
  then show ?thesis
    unfolding read_frame_inner_def Let_def
    by (intro keeps_poison_bind [OF keeps_poison_stream] keeps_poison_if keeps_poison_fail)
qed

lemma keeps_poison_chunks: "dt_poisoned (fst (read_chunks cr total_len doc st)) = dt_poisoned st"
proof (induction cr total_len doc st rule: read_chunks.induct)
  case (1 cr total_len doc st)
  obtain st1 r where f: "read_frame_inner cr st = (st1, r)" by fastforce
  have p: "dt_poisoned st1 = dt_poisoned st"
    using keeps_poison_frame f unfolding keeps_poison_def by (metis fst_conv)
  show ?case
  proof (cases "total_len \<le> length doc")
    case False
    note unfolded = read_chunks.simps [of cr total_len doc st]
    show ?thesis
    proof (cases r)
      case (Inl e)
      show ?thesis unfolding unfolded using False p by (simp add: f Inl)
    next
      case (Inr c)
      show ?thesis
      proof (cases "length c = min MAX_FRAME_LEN (total_len - length doc)")
        case True
        then have "dt_poisoned (fst (read_chunks cr total_len (doc @ c) st1)) = dt_poisoned st1"
          using 1 [OF False f [symmetric] Inr] by simp
        then show ?thesis unfolding unfolded f Inr using False True p by simp
      next
        case neq: False
        then show ?thesis unfolding unfolded f Inr using False p by simp
      qed
    qed
  qed (simp add: read_chunks_full)
qed

lemma keeps_poison_document: "keeps_poison (read_document_inner cr)"
  unfolding read_document_inner_def Let_def
  by (rule keeps_poison_bind [OF keeps_poison_frame]) (simp add: keeps_poison_def keeps_poison_chunks)

lemma unless_poisoned_Inl:
  assumes k: "keeps_poison m" and u: "unless_poisoned m st = (st', Inl e)"
  shows "dt_poisoned st'"
proof (cases "dt_poisoned st")
  case True
  with u show ?thesis by (simp add: unless_poisoned_def)
next
  case False
  obtain s r where m: "m (st\<lparr>dt_poisoned := True\<rparr>) = (s, r)" by fastforce
  have "dt_poisoned (fst (m (st\<lparr>dt_poisoned := True\<rparr>)))" using k by (simp only: keeps_poison_def) simp
  then have "dt_poisoned s" by (simp add: m)
  with u False m show ?thesis by (cases r) (simp_all add: unless_poisoned_def)
qed

lemma receive_authentic:
  "only_sent cr (dt_recv_key st) sent \<Longrightarrow> unat (dt_recv_counter st) \<le> length sent \<Longrightarrow>
   \<exists>k. concat (map frames_of (receive_all cr calls st)) = take k (drop (unat (dt_recv_counter st)) sent)"
proof (induction calls arbitrary: st)
  case Nil
  then show ?case by (simp add: exI [of _ 0])
next
  case (Cons doc calls)
  let ?call = "if doc then GotDocument else GotFrame"
  let ?m = "if doc then read_document_inner cr else read_frame_inner cr"
  have step: "receive_all cr (doc # calls) st = (case unless_poisoned ?m st of
      (st, Inl e) \<Rightarrow> receive_all cr calls st | (st, Inr p) \<Rightarrow> ?call p # receive_all cr calls st)"
    by (cases doc) (simp_all add: read_frame_def read_document_def)
  have keeps: "keeps_poison ?m" by (simp add: keeps_poison_frame keeps_poison_document)
  obtain st1 r where m: "unless_poisoned ?m st = (st1, r)" by fastforce
  show ?case
  proof (cases r)
    case (Inl e)
    then have "dt_poisoned st1" using m by (simp only: unless_poisoned_Inl [OF keeps])
    then have "receive_all cr (doc # calls) st = []" unfolding step m Inl by (simp add: poisoned_receives_nothing)
    then show ?thesis by (simp add: exI [of _ 0])
  next
    case (Inr p)
    then obtain st2 where st2: "?m (st\<lparr>dt_poisoned := True\<rparr>) = (st2, Inr p)" "st1 = st2\<lparr>dt_poisoned := False\<rparr>"
      using m unless_poisoned_Inr [of ?m st st1 p] by auto
    have a: "advanced sent (frames_of (?call p)) st st1"
    proof (cases doc)
      case True
      with st2 read_document_inner_authentic [of cr "st\<lparr>dt_poisoned := True\<rparr>" sent st2 p] Cons.prems
      show ?thesis by simp
    next
      case False
      with st2 read_frame_inner_authentic [of cr "st\<lparr>dt_poisoned := True\<rparr>" sent st2 p] Cons.prems
      show ?thesis by simp
    qed
    then have "only_sent cr (dt_recv_key st1) sent" "unat (dt_recv_counter st1) \<le> length sent"
      using Cons.prems by (simp_all add: advanced_def)
    then obtain k where k: "concat (map frames_of (receive_all cr calls st1)) = take k (drop (unat (dt_recv_counter st1)) sent)"
      using Cons.IH by blast
    have "concat (map frames_of (receive_all cr (doc # calls) st)) =
        take (length (frames_of (?call p)) + k) (drop (unat (dt_recv_counter st)) sent)"
      unfolding step m Inr prod.case sum.case list.map concat.simps k
      unfolding advanced_take [OF a] ..
    then show ?thesis by blast
  qed
qed


section \<open>Agreement\<close>

lemma length_confirm [simp]:
  "length (ascii ''AGDIR004/client-confirm'') \<le> MAX_FRAME_LEN" "length (ascii ''AGDIR004/server-confirm'') \<le> MAX_FRAME_LEN"
  by (simp_all add: MAX_FRAME_LEN_def)

lemma length_VERSION [simp]: "length VERSION = 8"
  by (simp add: VERSION_def)

lemma length_PURPOSE [simp]: "length PURPOSE = 22"
  by (simp add: PURPOSE_def)

lemma write_frame_fresh:
  assumes "length p \<le> MAX_FRAME_LEN" "dt_send_counter st = 0" "tcp_room (dt_stream st) = None" "\<not> dt_poisoned st"
  shows "write_frame cr p st = (st\<lparr>dt_send_counter := 1, dt_stream := (dt_stream st)\<lparr>tcp_out :=
    tcp_out (dt_stream st) @ frame_wire cr (dt_send_key st) 0 p\<rparr>, dt_poisoned := False\<rparr>, Inr ())"
  using write_frame_inner_ok [of p "st\<lparr>dt_poisoned := True\<rparr>" cr] assms
  by (simp add: write_frame_def unless_poisoned_def)

lemma read_frame_fresh:
  assumes "crypto_ok cr" "length p \<le> MAX_FRAME_LEN" "dt_recv_counter st = 0" "\<not> dt_poisoned st"
    and "tcp_in (dt_stream st) = frame_wire cr (dt_recv_key st) 0 p @ rest"
  shows "read_frame cr st = (st\<lparr>dt_recv_counter := 1, dt_stream := (dt_stream st)\<lparr>tcp_in := rest\<rparr>,
    dt_poisoned := False\<rparr>, Inr p)"
  using read_frame_inner_ok [of cr p "st\<lparr>dt_poisoned := True\<rparr>" rest] assms
  by (simp add: read_frame_def unless_poisoned_def)

lemma derive_transport_ok:
  assumes "kex_ok kx"
  shows "\<exists>up down. \<forall>client. derive_transport_keys sg kx shared client context = Some (if client then (up, down) else (down, up))"
proof -
  obtain up down where
    "hkdf kx (sg_sha256 sg context) shared (ascii ''AnonGuard-Client-To-Server-v4-HKDF'') 32 = Some up"
    "hkdf kx (sg_sha256 sg context) shared (ascii ''AnonGuard-Server-To-Client-v4-HKDF'') 32 = Some down"
    using assms unfolding kex_ok_def by meson
  then show ?thesis by (auto simp: derive_transport_keys_def Let_def)
qed

definition session_of :: "bytes \<Rightarrow> bytes \<Rightarrow> bytes \<Rightarrow> bytes \<Rightarrow> HybridPublicKey option \<Rightarrow> bytes option \<Rightarrow> SecureTransportSession" where
  "session_of out send recv rest peer pin =
    \<lparr>dt_stream = \<lparr>tcp_in = rest, tcp_out = out, tcp_room = None\<rparr>, dt_send_key = send, dt_recv_key = recv,
     dt_send_counter = 1, dt_recv_counter = 1, dt_peer_verifying_key = pin, dt_peer_hybrid_key = peer, dt_poisoned = False\<rparr>"

text \<open>The messages of an honest exchange, and what each side computes from them.\<close>

abbreviation hello_of :: "kex \<Rightarrow> bytes \<Rightarrow> bytes \<Rightarrow> bytes" where
  "hello_of kx secret kem_secret \<equiv> VERSION @ x_public kx secret @ kem_public kx kem_secret"

abbreviation response_of :: "sigs \<Rightarrow> kex \<Rightarrow> bytes \<Rightarrow> bytes \<Rightarrow> HybridSigningKey \<Rightarrow> bytes" where
  "response_of sg kx secret ct key \<equiv> VERSION @ x_public kx secret @ ct @ hp_encoded (public_key sg key)"

abbreviation confirm_of :: "crypto \<Rightarrow> bytes \<Rightarrow> string \<Rightarrow> bytes" where
  "confirm_of cr key text \<equiv> frame_wire cr key 0 (ascii text)"

lemma server_side:
  assumes sg: "sigs_ok sg" and kx: "kex_ok kx" and cr: "crypto_ok cr"
    and contributory: "x_dh kx s_secret (x_public kx c_secret) \<noteq> replicate 32 0"
    and encap: "length ct = 1088" "kem_encap kx (kem_public kx kem_secret) kem_rnd = Some (ct, ss)"
    and pf: "hybrid_sign sg key PURPOSE (hybrid_transcript (hello_of kx c_secret kem_secret) (response_of sg kx s_secret ct key)) = Inr pf"
    and keys: "\<And>client. derive_transport_keys sg kx (x_dh kx s_secret (x_public kx c_secret) @ ss) client
      (hybrid_transcript (hello_of kx c_secret kem_secret) (response_of sg kx s_secret ct key) @ pf) =
      Some (if client then (up, down) else (down, up))"
  shows "server_handshake_hybrid sg kx cr s_secret kem_rnd key \<lparr>tcp_in = (hello_of kx c_secret kem_secret) @ confirm_of cr up ''AGDIR004/client-confirm'' @ rest, tcp_out = [], tcp_room = None\<rparr> =
   Inr (session_of ((response_of sg kx s_secret ct key) @ pf @ confirm_of cr down ''AGDIR004/server-confirm'') down up rest None None)"
proof -
  note sizes = kex_okD(2,5) [OF kx] encap(1)
  have r1: "run_io (read_exact e 8) \<lparr>tcp_in = (hello_of kx c_secret kem_secret) @ confirm_of cr up ''AGDIR004/client-confirm'' @ rest, tcp_out = [], tcp_room = None\<rparr> =
    Inr (\<lparr>tcp_in = x_public kx c_secret @ kem_public kx kem_secret @ confirm_of cr up ''AGDIR004/client-confirm'' @ rest, tcp_out = [], tcp_room = None\<rparr>, VERSION)"
    for e :: dir_error by (rule run_io_Inr, subst read_exact_at [of VERSION]) simp_all
  have r2: "run_io (read_exact e (32 + 1184)) \<lparr>tcp_in = x_public kx c_secret @ kem_public kx kem_secret @ confirm_of cr up ''AGDIR004/client-confirm'' @ rest, tcp_out = [], tcp_room = None\<rparr> =
    Inr (\<lparr>tcp_in = confirm_of cr up ''AGDIR004/client-confirm'' @ rest, tcp_out = [], tcp_room = None\<rparr>, (x_public kx c_secret @ kem_public kx kem_secret))"
    for e :: dir_error by (rule run_io_Inr, subst read_exact_at [of "x_public kx c_secret @ kem_public kx kem_secret"]) (simp_all add: sizes)
  have f: "subslice 8 40 (hello_of kx c_secret kem_secret) = x_public kx c_secret" "drop 40 (hello_of kx c_secret kem_secret) = kem_public kx kem_secret"
    by (simp_all add: subslice_def sizes)
  let ?st = "\<lparr>dt_stream = \<lparr>tcp_in = confirm_of cr up ''AGDIR004/client-confirm'' @ rest, tcp_out = (response_of sg kx s_secret ct key) @ pf, tcp_room = None\<rparr>, dt_send_key = down,
    dt_recv_key = up, dt_send_counter = 0, dt_recv_counter = 0, dt_peer_verifying_key = None, dt_peer_hybrid_key = None, dt_poisoned = False\<rparr>"
  have rd: "run_io (read_frame cr) ?st = Inr (?st\<lparr>dt_recv_counter := 1, dt_stream := (dt_stream ?st)\<lparr>tcp_in := rest\<rparr>, dt_poisoned := False\<rparr>,
      ascii ''AGDIR004/client-confirm'')"
    by (rule run_io_Inr, rule read_frame_fresh [OF cr length_confirm(1)]) simp_all
  have wr: "run_io (write_frame cr (ascii ''AGDIR004/server-confirm'')) (?st\<lparr>dt_recv_counter := 1, dt_stream := (dt_stream ?st)\<lparr>tcp_in := rest\<rparr>, dt_poisoned := False\<rparr>) =
      Inr (session_of ((response_of sg kx s_secret ct key) @ pf @ confirm_of cr down ''AGDIR004/server-confirm'') down up rest None None, ())"
    by (rule run_io_Inr, subst write_frame_fresh [OF length_confirm(2)]) (simp_all add: session_of_def)
  have w1: "run_io (write_all e (response_of sg kx s_secret ct key)) \<lparr>tcp_in = i, tcp_out = [], tcp_room = None\<rparr> =
      Inr (\<lparr>tcp_in = i, tcp_out = response_of sg kx s_secret ct key, tcp_room = None\<rparr>, ())" for e :: dir_error and i
    by (rule run_io_Inr) simp
  have w2: "run_io (write_all e pf) \<lparr>tcp_in = i, tcp_out = response_of sg kx s_secret ct key, tcp_room = None\<rparr> =
      Inr (\<lparr>tcp_in = i, tcp_out = (response_of sg kx s_secret ct key) @ pf, tcp_room = None\<rparr>, ())" for e :: dir_error and i
    by (rule run_io_Inr) simp
  have pf': "dir_id (hybrid_sign sg key PURPOSE (hybrid_transcript (hello_of kx c_secret kem_secret) (response_of sg kx s_secret ct key))) = Inr pf"
    by (simp only: pf dir_id_def sum.case)
  have fk: "from_hybrid_keys sg kx \<lparr>tcp_in = confirm_of cr up ''AGDIR004/client-confirm'' @ rest, tcp_out = (response_of sg kx s_secret ct key) @ pf, tcp_room = None\<rparr>
      (x_dh kx s_secret (x_public kx c_secret) @ ss) False (hybrid_transcript (hello_of kx c_secret kem_secret) (response_of sg kx s_secret ct key) @ pf) None = Inr ?st"
    by (simp only: from_hybrid_keys_def keys option.case prod.case if_False ebind_simps)
  show ?thesis
    unfolding server_handshake_hybrid_def r1 r2 Let_def f encap(2) option.case
      prod.case ebind_simps pf' w1 w2 fk rd wr
    using contributory kex_okD(4) [OF kx, of kem_secret] by simp
qed

lemma client_side:
  assumes sg: "sigs_ok sg" and kx: "kex_ok kx" and cr: "crypto_ok cr"
    and pin: "verifying_key sg key \<noteq> replicate 32 0"
    and contributory: "x_dh kx s_secret (x_public kx c_secret) \<noteq> replicate 32 0"
    and encap: "length ct = 1088" "kem_decap kx kem_secret ct = Some ss"
    and pf: "hybrid_sign sg key PURPOSE (hybrid_transcript (hello_of kx c_secret kem_secret) (response_of sg kx s_secret ct key)) = Inr pf"
    and keys: "\<And>client. derive_transport_keys sg kx (x_dh kx s_secret (x_public kx c_secret) @ ss) client
      (hybrid_transcript (hello_of kx c_secret kem_secret) (response_of sg kx s_secret ct key) @ pf) =
      Some (if client then (up, down) else (down, up))"
  shows "client_handshake_hybrid_pin sg kx cr c_secret kem_secret (verifying_key sg key)
     \<lparr>tcp_in = (response_of sg kx s_secret ct key) @ pf @ confirm_of cr down ''AGDIR004/server-confirm'' @ rest, tcp_out = [], tcp_room = None\<rparr> =
   Inr (session_of ((hello_of kx c_secret kem_secret) @ confirm_of cr up ''AGDIR004/client-confirm'') up down rest (Some (public_key sg key)) (Some (verifying_key sg key)))"
proof -
  note sizes = kex_okD(2,5) [OF kx] encap(1)
  note sv = hybrid_sign_verify [OF sg pf]
  have r1: "run_io (read_exact e (8 + 32 + 1088 + PUBLIC_KEY_SIZE)) \<lparr>tcp_in = (response_of sg kx s_secret ct key) @ pf @ confirm_of cr down ''AGDIR004/server-confirm'' @ rest, tcp_out = (hello_of kx c_secret kem_secret), tcp_room = None\<rparr> =
    Inr (\<lparr>tcp_in = pf @ confirm_of cr down ''AGDIR004/server-confirm'' @ rest, tcp_out = (hello_of kx c_secret kem_secret), tcp_room = None\<rparr>, (response_of sg kx s_secret ct key))" for e :: dir_error
    by (rule run_io_Inr, subst read_exact_at [of "response_of sg kx s_secret ct key"]) (simp_all add: sizes sigs_okD [OF sg] size_defs)
  have r2: "run_io (read_exact e SIGNATURE_SIZE) \<lparr>tcp_in = pf @ confirm_of cr down ''AGDIR004/server-confirm'' @ rest, tcp_out = (hello_of kx c_secret kem_secret), tcp_room = None\<rparr> =
    Inr (\<lparr>tcp_in = confirm_of cr down ''AGDIR004/server-confirm'' @ rest, tcp_out = (hello_of kx c_secret kem_secret), tcp_room = None\<rparr>, pf)" for e :: dir_error
    by (rule run_io_Inr, subst read_exact_at [of pf]) (simp_all add: sv)
  have f: "take 8 (response_of sg kx s_secret ct key) = VERSION" "drop 1128 (response_of sg kx s_secret ct key) = hp_encoded (public_key sg key)"
    "subslice 8 40 (response_of sg kx s_secret ct key) = x_public kx s_secret" "subslice 40 1128 (response_of sg kx s_secret ct key) = ct"
    by (simp_all add: subslice_def sizes)
  let ?st = "\<lparr>dt_stream = \<lparr>tcp_in = confirm_of cr down ''AGDIR004/server-confirm'' @ rest, tcp_out = (hello_of kx c_secret kem_secret), tcp_room = None\<rparr>, dt_send_key = up,
    dt_recv_key = down, dt_send_counter = 0, dt_recv_counter = 0, dt_peer_verifying_key = Some (verifying_key sg key),
    dt_peer_hybrid_key = Some (public_key sg key), dt_poisoned = False\<rparr>"
  let ?st1 = "?st\<lparr>dt_send_counter := 1, dt_stream := (dt_stream ?st)\<lparr>tcp_out := (hello_of kx c_secret kem_secret) @ confirm_of cr up ''AGDIR004/client-confirm''\<rparr>, dt_poisoned := False\<rparr>"
  have wr: "run_io (write_frame cr (ascii ''AGDIR004/client-confirm'')) ?st = Inr (?st1, ())"
    by (rule run_io_Inr, subst write_frame_fresh [OF length_confirm(1)]) simp_all
  have rd: "run_io (read_frame cr) ?st1 = Inr (session_of ((hello_of kx c_secret kem_secret) @ confirm_of cr up ''AGDIR004/client-confirm'') up down rest (Some (public_key sg key)) (Some (verifying_key sg key)),
      ascii ''AGDIR004/server-confirm'')"
    by (rule run_io_Inr, subst read_frame_fresh [OF cr length_confirm(2)]) (simp_all add: session_of_def)
  have dec: "dir_id (decode_public_key sg (hp_encoded (public_key sg key))) = Inr (public_key sg key)"
    by (simp only: decode_public_key_public_key [OF sg] dir_id_def sum.case)
  have ver: "dir_id (hybrid_verify sg (public_key sg key) PURPOSE (hybrid_transcript (hello_of kx c_secret kem_secret) (response_of sg kx s_secret ct key)) pf) = Inr ()"
    by (simp only: sv dir_id_def sum.case)
  have fp: "fingerprint sg (public_key sg key) = verifying_key sg key" by (simp add: verifying_key_def)
  have vk: "dir_id (VerifyingKey_from_bytes (fingerprint sg (public_key sg key))) = Inr (verifying_key sg key)"
    using pin by (simp add: fp VerifyingKey_from_bytes_def dir_id_def)
  have fk: "from_hybrid_keys sg kx \<lparr>tcp_in = confirm_of cr down ''AGDIR004/server-confirm'' @ rest, tcp_out = (hello_of kx c_secret kem_secret), tcp_room = None\<rparr>
      (x_dh kx s_secret (x_public kx c_secret) @ ss) True (hybrid_transcript (hello_of kx c_secret kem_secret) (response_of sg kx s_secret ct key) @ pf) (Some (public_key sg key)) = Inr ?st"
    by (simp only: from_hybrid_keys_def keys option.case prod.case if_True ebind_simps vk)
  have dh: "x_dh kx c_secret (x_public kx s_secret) = x_dh kx s_secret (x_public kx c_secret)" by (rule kex_okD(1) [OF kx])
  have w0: "run_io (write_all e (hello_of kx c_secret kem_secret)) \<lparr>tcp_in = i, tcp_out = [], tcp_room = None\<rparr> =
      Inr (\<lparr>tcp_in = i, tcp_out = (hello_of kx c_secret kem_secret), tcp_room = None\<rparr>, ())" for e :: dir_error and i
    by (rule run_io_Inr) simp
  show ?thesis
    unfolding client_handshake_hybrid_pin_def Let_def w0 ebind_simps prod.case r1 f dec fp
      r2 ver dh encap(2) option.case fk wr rd
    using pin contributory by simp
qed

text \<open>
  C38. The directory handshake reaches agreement. A client that pins the authority's identity
  and an honest authority, each given what the other writes, both complete: each sends with
  the key the other receives with, the counters agree, nothing is left unread, and the client
  records the pinned identity as its peer.
\<close>

theorem directory_handshake_agreement:
  assumes sg: "sigs_ok sg" and kx: "kex_ok kx" and cr: "crypto_ok cr"
    and pin: "verifying_key sg key \<noteq> replicate 32 0"
    and con: "x_dh kx s_secret (x_public kx c_secret) \<noteq> replicate 32 0"
  shows "\<exists>c s.
    client_handshake sg kx cr c_secret kem_secret (Some (verifying_key sg key))
      \<lparr>tcp_in = tcp_out (dt_stream s), tcp_out = [], tcp_room = None\<rparr> = Inr c \<and>
    server_handshake sg kx cr s_secret kem_rnd (Some key)
      \<lparr>tcp_in = tcp_out (dt_stream c), tcp_out = [], tcp_room = None\<rparr> = Inr s \<and>
    dt_send_key c = dt_recv_key s \<and> dt_recv_key c = dt_send_key s \<and>
    dt_send_counter c = dt_recv_counter s \<and> dt_recv_counter c = dt_send_counter s \<and>
    \<not> dt_poisoned c \<and> \<not> dt_poisoned s \<and> tcp_in (dt_stream c) = [] \<and> tcp_in (dt_stream s) = [] \<and>
    dt_peer_verifying_key c = Some (verifying_key sg key)"
proof -
  obtain ct ss where kem: "kem_encap kx (kem_public kx kem_secret) kem_rnd = Some (ct, ss)" "length ct = 1088"
    "kem_decap kx kem_secret ct = Some ss" using kex_okD(6) [OF kx] by blast
  let ?tr = "hybrid_transcript (VERSION @ x_public kx c_secret @ kem_public kx kem_secret)
      (VERSION @ x_public kx s_secret @ ct @ hp_encoded (public_key sg key))"
  have "length ?tr \<le> MAX_MESSAGE"
    using kex_okD(2,5) [OF kx] kem(2) sg by (simp add: hybrid_transcript_def sigs_okD size_defs)
  moreover have "PURPOSE \<noteq> []" using length_PURPOSE by (metis list.size(3) zero_neq_numeral)
  ultimately obtain pf where pf: "hybrid_sign sg key PURPOSE ?tr = Inr pf"
    by (simp add: hybrid_sign_def transcript_def)
  obtain up down where keys: "\<And>client. derive_transport_keys sg kx (x_dh kx s_secret (x_public kx c_secret) @ ss) client (?tr @ pf) =
      Some (if client then (up, down) else (down, up))" using derive_transport_ok [OF kx] by metis
  let ?c = "session_of (hello_of kx c_secret kem_secret @ confirm_of cr up ''AGDIR004/client-confirm'') up down []
    (Some (public_key sg key)) (Some (verifying_key sg key))"
  let ?s = "session_of (response_of sg kx s_secret ct key @ pf @ confirm_of cr down ''AGDIR004/server-confirm'') down up [] None None"
  show ?thesis
    using client_side [OF sg kx cr pin con kem(2,3) pf keys, of "[]"]
      server_side [OF sg kx cr con kem(2,1) pf keys, of "[]"]
    by (intro exI [of _ ?c] exI [of _ ?s]) (simp add: client_handshake_def server_handshake_def session_of_def)
qed

section \<open>Witnesses\<close>

definition session_a :: SecureTransportSession where
  "session_a = session_of [] [1] [2] [] None None"

definition session_b :: SecureTransportSession where
  "session_b = session_of [] [2] [1] [] None None"

theorem directory_document_roundtrip_witness:
  "\<exists>s' w r'. write_document xor_crypto [5, 6] session_a = (s', Inr ()) \<and>
     tcp_out (dt_stream s') = tcp_out (dt_stream session_a) @ w \<and>
     read_document xor_crypto (session_b\<lparr>dt_stream := (dt_stream session_b)\<lparr>tcp_in := w @ []\<rparr>\<rparr>) = (r', Inr [5, 6])"
  using directory_document_roundtrip [OF crypto_ok_xor, of "[5, 6]" session_a session_b "[]"]
  by (auto simp: session_a_def session_b_def session_of_def MAX_FRAME_LEN_def)

text \<open>A cipher that opens exactly one box: the frame \<open>[5]\<close> under nonce zero.\<close>

definition one_box :: crypto where
  "one_box = xor_crypto\<lparr>cr_open := \<lambda>k n a ct tag. if n = make_nonce 0 \<and> ct = [5] \<and> length tag = 16 then Some [5] else None\<rparr>"


theorem directory_handshake_agreement_witness:
  "\<exists>c s.
    client_handshake fit_sigs xor_kex xor_crypto [1] [2] (Some (verifying_key fit_sigs key_a))
      \<lparr>tcp_in = tcp_out (dt_stream s), tcp_out = [], tcp_room = None\<rparr> = Inr c \<and>
    server_handshake fit_sigs xor_kex xor_crypto [3] [4] (Some key_a)
      \<lparr>tcp_in = tcp_out (dt_stream c), tcp_out = [], tcp_room = None\<rparr> = Inr s \<and>
    dt_send_key c = dt_recv_key s"
  using directory_handshake_agreement [OF sigs_ok_fit kex_ok_xor crypto_ok_xor pin_a contributory_a, of "[2]" "[4]"]
  by blast

end
