(* ===== verification/LinkCover.thy ===== *)
theory LinkCover
  imports Cell Flow Guarded
begin

text \<open>
  Hop-local cover of \<open>src/src/onion/link_cover.rs\<close>. A covered stream has a handle, which the
  application polls, and three tasks: the producer cuts what the application wrote into cells,
  the writer sends one fixed-size envelope per slot (a queued cell, or noise when there is
  none), and the reader checks the envelopes that arrive and hands their cells over. The record
  holds the handle's fields, the local variables of the tasks and the channels between them;
  each poll and each turn of a task is one function. Time is in nanoseconds. The reader's
  credit, a floating-point number of envelopes in the source, is kept exactly, in units of a
  five millionth of an envelope (200 envelopes per second are one unit per nanosecond). The
  byte counters, 64 bits wide in the source, are naturals: they count bytes of one connection.
\<close>

section \<open>State\<close>

definition CELL :: nat where [size_defs]: "CELL = ONION_CELL_SIZE"
definition FRAME :: nat where [size_defs]: "FRAME = CELL + 4"
definition COVER_QUEUE :: nat where [size_defs]: "COVER_QUEUE = 64"
definition CREDIT_FRAME :: nat where [size_defs]: "CREDIT_FRAME = 5000000"
definition CREDIT_MAX :: nat where [size_defs]: "CREDIT_MAX = 128 * CREDIT_FRAME"

record CoveredStream =
  cv_accepted :: nat
  cv_flushing :: "nat option"
  cv_shutting :: bool
  cv_shutdown_done :: bool
  cv_app_out :: bytes
  cv_app_eof :: bool
  cv_cell :: bytes
  cv_producing :: bool
  cv_queue :: "bytes list"
  cv_deadline :: nat
  cv_progress :: nat
  cv_finished :: bool
  cv_cancel :: bool
  cv_credit :: nat
  cv_updated :: nat
  cv_app_in :: bytes

datatype cover_error = CvBrokenPipe | CvInvalid string | CvTimedOut

definition wrap :: "nat \<Rightarrow> nat \<Rightarrow> nat \<Rightarrow> cover_error + CoveredStream" where
  "wrap now phase interval =
    (if \<not> (millis 10 \<le> interval \<and> interval \<le> secs 1) then Inl (CvInvalid ''Covered link interval out of bounds'')
     else Inr \<lparr>cv_accepted = 0, cv_flushing = None, cv_shutting = False, cv_shutdown_done = False,
       cv_app_out = [], cv_app_eof = False, cv_cell = [], cv_producing = True, cv_queue = [],
       cv_deadline = now + phase, cv_progress = 0, cv_finished = False, cv_cancel = False,
       cv_credit = CREDIT_MAX, cv_updated = now, cv_app_in = []\<rparr>)"

section \<open>The handle\<close>

text \<open>
  The duplex pipe between the handle and the tasks holds at most \<open>CELL * COVER_QUEUE\<close> bytes each
  way; a write takes what fits and is pending when nothing does.
\<close>

definition cover_poll_write :: "bytes \<Rightarrow> CoveredStream \<Rightarrow> CoveredStream \<times> (cover_error + nat) poll" where
  "cover_poll_write buf s =
    (if cv_shutting s \<or> cv_shutdown_done s \<or> cv_cancel s then (s, Ready (Inl CvBrokenPipe))
     else
       let count = min (length buf) (CELL * COVER_QUEUE - length (cv_app_out s)) in
       if count = 0 \<and> buf \<noteq> [] then (s, Pending)
       else (s\<lparr>cv_app_out := cv_app_out s @ take count buf, cv_accepted := cv_accepted s + count,
               cv_flushing := None\<rparr>, Ready (Inr count)))"

text \<open>The writer task has ended: it finished, failed or was cancelled.\<close>

definition cover_writer_gone :: "CoveredStream \<Rightarrow> bool" where
  "cover_writer_gone s \<longleftrightarrow> cv_finished s \<or> cv_cancel s"

text \<open>\<open>late\<close> says that the thirty seconds since the flush (the shutdown) began are over.\<close>

definition cover_poll_flush :: "bool \<Rightarrow> CoveredStream \<Rightarrow> CoveredStream \<times> (cover_error + unit) poll" where
  "cover_poll_flush late s =
    (if \<not> CELL dvd cv_accepted s then (s, Ready (Inl (CvInvalid ''Cannot flush a partial onion cell'')))
     else
       let target = (case cv_flushing s of Some t \<Rightarrow> t | None \<Rightarrow> cv_accepted s) in
       if target \<le> cv_progress s then (s\<lparr>cv_flushing := None\<rparr>, Ready (Inr ()))
       else if cover_writer_gone s
       then (s\<lparr>cv_flushing := None, cv_cancel := True\<rparr>, Ready (Inl (CvInvalid ''Covered writer closed before flush'')))
       else if late then (s\<lparr>cv_flushing := None, cv_cancel := True\<rparr>, Ready (Inl CvTimedOut))
       else (s\<lparr>cv_flushing := Some target\<rparr>, Pending))"

definition cover_poll_shutdown :: "bool \<Rightarrow> CoveredStream \<Rightarrow> CoveredStream \<times> (cover_error + unit) poll" where
  "cover_poll_shutdown late s =
    (if cv_shutdown_done s then (s, Ready (Inr ()))
     else
       let s = (if cv_shutting s then s else s\<lparr>cv_app_eof := True, cv_shutting := True\<rparr>) in
       if cv_finished s then (s\<lparr>cv_shutdown_done := True\<rparr>, Ready (Inr ()))
       else if cv_cancel s then (s\<lparr>cv_shutting := False\<rparr>, Ready (Inl (CvInvalid ''Covered shutdown failed'')))
       else if late then (s\<lparr>cv_cancel := True, cv_shutting := False\<rparr>, Ready (Inl CvTimedOut))
       else (s, Pending))"

definition cover_poll_read :: "nat \<Rightarrow> CoveredStream \<Rightarrow> CoveredStream \<times> bytes" where
  "cover_poll_read n s = (s\<lparr>cv_app_in := drop n (cv_app_in s)\<rparr>, take n (cv_app_in s))"

definition cover_drop :: "CoveredStream \<Rightarrow> CoveredStream" where
  "cover_drop s = s\<lparr>cv_cancel := True\<rparr>"

section \<open>The producer\<close>

text \<open>
  A turn reads \<open>n\<close> bytes into the cell being filled; a full cell waits for a place in the
  queue. At the end of the application's bytes a producer between cells returns, which
  disconnects the queue; inside a cell it fails, as it does when the rest of a cell does not
  come within the deadline.
\<close>

definition producer_read :: "nat \<Rightarrow> CoveredStream \<Rightarrow> CoveredStream" where
  "producer_read n s =
    (let n = min n (min (CELL - length (cv_cell s)) (length (cv_app_out s))) in
     s\<lparr>cv_cell := cv_cell s @ take n (cv_app_out s), cv_app_out := drop n (cv_app_out s)\<rparr>)"

definition producer_send :: "CoveredStream \<Rightarrow> CoveredStream" where
  "producer_send s =
    (if length (cv_cell s) = CELL \<and> length (cv_queue s) < COVER_QUEUE
     then s\<lparr>cv_queue := cv_queue s @ [cv_cell s], cv_cell := []\<rparr> else s)"

definition producer_eof :: "CoveredStream \<Rightarrow> CoveredStream" where
  "producer_eof s =
    (if cv_app_eof s \<and> cv_app_out s = [] \<and> length (cv_cell s) < CELL then
       (if cv_cell s = [] then s\<lparr>cv_producing := False\<rparr>
        else s\<lparr>cv_producing := False, cv_cancel := True\<rparr>)
     else s)"

definition producer_late :: "CoveredStream \<Rightarrow> CoveredStream" where
  "producer_late s =
    (if cv_cell s \<noteq> [] \<and> length (cv_cell s) < CELL then s\<lparr>cv_producing := False, cv_cancel := True\<rparr> else s)"

section \<open>The writer\<close>

definition data_frame :: "bytes \<Rightarrow> bytes" where
  "data_frame cell = put 4 cell (put 1 [1] (put 0 [1] (replicate FRAME 0)))"

definition noise_frame :: "bytes \<Rightarrow> bytes" where
  "noise_frame noise = put 4 noise (put 1 [2] (put 0 [1] (replicate FRAME 0)))"

text \<open>
  One turn of the writer, after its clock fired: \<open>noise\<close> is the random fill, \<open>t_done\<close> the time
  when the write is done, and \<open>written\<close> says that writing and flushing succeeded in time.
  The second component is what went to the wire.
\<close>

definition writer_turn :: "nat \<Rightarrow> bytes \<Rightarrow> nat \<Rightarrow> bool \<Rightarrow> CoveredStream \<Rightarrow> CoveredStream \<times> bytes list" where
  "writer_turn interval noise t_done written s =
    (case cv_queue s of
       [] \<Rightarrow>
         if \<not> cv_producing s then
           (if written then (s\<lparr>cv_finished := True, cv_cancel := True\<rparr>, []) else (s\<lparr>cv_cancel := True\<rparr>, []))
         else if \<not> written then (s\<lparr>cv_cancel := True\<rparr>, [])
         else (case next_deadline (cv_deadline s) t_done interval of
             None \<Rightarrow> (s\<lparr>cv_cancel := True\<rparr>, [])
           | Some next \<Rightarrow> (s\<lparr>cv_deadline := next\<rparr>, [noise_frame noise]))
     | cell # rest \<Rightarrow>
         let s = s\<lparr>cv_queue := rest\<rparr> in
         if \<not> written then (s\<lparr>cv_cancel := True\<rparr>, [])
         else (case next_deadline (cv_deadline s) t_done interval of
             None \<Rightarrow> (s\<lparr>cv_cancel := True\<rparr>, [])
           | Some next \<Rightarrow> (s\<lparr>cv_progress := cv_progress s + CELL, cv_deadline := next\<rparr>, [data_frame cell])))"

section \<open>The reader\<close>

text \<open>
  One received envelope; \<open>None\<close> is silence beyond the deadline, an end of file or a failure,
  and \<open>room\<close> says that the application made room for the cell in time.
\<close>

definition cover_reader :: "nat \<Rightarrow> bool \<Rightarrow> bytes option \<Rightarrow> CoveredStream \<Rightarrow> cover_error + CoveredStream" where
  "cover_reader now room frame s =
    (case frame of
       None \<Rightarrow> Inl CvTimedOut
     | Some frame \<Rightarrow>
         let credit = min (cv_credit s + (now - cv_updated s)) CREDIT_MAX;
             s = s\<lparr>cv_updated := now\<rparr>
         in if credit < CREDIT_FRAME then Inl (CvInvalid ''Covered link receive budget exhausted'')
         else
           let s = s\<lparr>cv_credit := credit - CREDIT_FRAME\<rparr> in
           if frame ! 0 \<noteq> 1 \<or> subslice 2 4 frame \<noteq> [0, 0] then Inl (CvInvalid ''Invalid covered envelope'')
           else if frame ! 1 = 1 then
             (if room then Inr (s\<lparr>cv_app_in := cv_app_in s @ drop 4 frame\<rparr>) else Inl CvTimedOut)
           else if frame ! 1 = 2 then Inr s
           else Inl (CvInvalid ''Unknown covered envelope kind''))"

definition reader_turn :: "nat \<Rightarrow> bool \<Rightarrow> bytes option \<Rightarrow> CoveredStream \<Rightarrow> CoveredStream" where
  "reader_turn now room frame s =
    (case cover_reader now room frame s of Inl _ \<Rightarrow> s\<lparr>cv_cancel := True\<rparr> | Inr s' \<Rightarrow> s')"

section \<open>Runs\<close>

datatype cover_event =
    AppWrite bytes | AppFlush bool | AppShutdown bool | AppRead nat | AppDrop
  | ProducerRead nat | ProducerSend | ProducerEof | ProducerLate
  | WriterTurn bytes nat bool | ReaderTurn nat bool "bytes option"

text \<open>
  The tasks stop at the cancellation; the producer also when it returned. The writer runs when
  its clock has fired.
\<close>

fun cover_step :: "nat \<Rightarrow> cover_event \<Rightarrow> CoveredStream \<Rightarrow> CoveredStream \<times> bytes list" where
  "cover_step iv (AppWrite buf) s = (fst (cover_poll_write buf s), [])"
| "cover_step iv (AppFlush late) s = (fst (cover_poll_flush late s), [])"
| "cover_step iv (AppShutdown late) s = (fst (cover_poll_shutdown late s), [])"
| "cover_step iv (AppRead n) s = (fst (cover_poll_read n s), [])"
| "cover_step iv AppDrop s = (cover_drop s, [])"
| "cover_step iv (ProducerRead n) s = (if cv_producing s \<and> \<not> cv_cancel s then producer_read n s else s, [])"
| "cover_step iv ProducerSend s = (if cv_producing s \<and> \<not> cv_cancel s then producer_send s else s, [])"
| "cover_step iv ProducerEof s = (if cv_producing s \<and> \<not> cv_cancel s then producer_eof s else s, [])"
| "cover_step iv ProducerLate s = (if cv_producing s \<and> \<not> cv_cancel s then producer_late s else s, [])"
| "cover_step iv (WriterTurn noise t_done written) s =
    (if \<not> cv_cancel s \<and> cv_deadline s \<le> t_done then writer_turn iv noise t_done written s else (s, []))"
| "cover_step iv (ReaderTurn now room frame) s = (if \<not> cv_cancel s then reader_turn now room frame s else s, [])"

fun cover_run :: "nat \<Rightarrow> cover_event list \<Rightarrow> CoveredStream \<Rightarrow> CoveredStream \<times> bytes list" where
  "cover_run iv [] s = (s, [])"
| "cover_run iv (e # es) s =
    (let (s, w) = cover_step iv e s; (s, ws) = cover_run iv es s in (s, w @ ws))"

section \<open>Envelopes\<close>

definition is_data :: "bytes \<Rightarrow> bool" where
  "is_data f \<longleftrightarrow> f ! 1 = 1"

definition cells_of :: "bytes list \<Rightarrow> bytes" where
  "cells_of ws = concat (map (drop 4) (filter is_data ws))"

lemma frame_layout:
  assumes "length (body :: bytes) = CELL"
  shows "put 4 body (put 1 [k] (put 0 [1] (replicate FRAME 0))) = [1, k, 0, 0] @ body"
proof -
  have z: "replicate FRAME (0 :: u8) = [0, 0, 0, 0] @ replicate CELL 0"
    by (simp add: FRAME_def replicate_add numeral_eq_Suc)
  show ?thesis unfolding z using assms by (simp add: put_def)
qed

lemma data_frame_eq: "length cell = CELL \<Longrightarrow> data_frame cell = [1, 1, 0, 0] @ cell"
  unfolding data_frame_def by (rule frame_layout)

lemma noise_frame_eq: "length noise = CELL \<Longrightarrow> noise_frame noise = [1, 2, 0, 0] @ noise"
  unfolding noise_frame_def by (rule frame_layout)

lemma cells_of_simps [simp]:
  "cells_of [] = []" "cells_of (xs @ ys) = cells_of xs @ cells_of ys"
  "length cell = CELL \<Longrightarrow> cells_of [data_frame cell] = cell"
  "length noise = CELL \<Longrightarrow> cells_of [noise_frame noise] = []"
  by (simp_all add: cells_of_def is_data_def data_frame_eq noise_frame_eq)

text \<open>What a peer's reader does with an envelope of the writer, given credit and room.\<close>

lemma cover_reader_frames:
  assumes "CREDIT_FRAME \<le> cv_credit s + (now - cv_updated s)"
  shows "length cell = CELL \<Longrightarrow> \<exists>s'. cover_reader now True (Some (data_frame cell)) s = Inr s' \<and> cv_app_in s' = cv_app_in s @ cell
      \<and> cv_credit s' = min (cv_credit s + (now - cv_updated s)) CREDIT_MAX - CREDIT_FRAME \<and> cv_updated s' = now"
    and "length noise = CELL \<Longrightarrow> \<exists>s'. cover_reader now True (Some (noise_frame noise)) s = Inr s' \<and> cv_app_in s' = cv_app_in s
      \<and> cv_credit s' = min (cv_credit s + (now - cv_updated s)) CREDIT_MAX - CREDIT_FRAME \<and> cv_updated s' = now"
  using assms
  by (auto simp: cover_reader_def data_frame_eq noise_frame_eq Let_def subslice_def CREDIT_MAX_def not_less)

text \<open>An envelope of any other form is refused and ends the link.\<close>

lemma cover_reader_strict:
  "cover_reader now room (Some f) s = Inr s' \<Longrightarrow> f ! 0 = 1 \<and> (f ! 1 = 1 \<or> f ! 1 = 2) \<and> subslice 2 4 f = [0, 0]"
  by (simp add: cover_reader_def Let_def split: if_splits)

section \<open>Conservation of bytes\<close>

fun wf_event :: "cover_event \<Rightarrow> bool" where
  "wf_event (WriterTurn noise t_done written) \<longleftrightarrow> length noise = CELL"
| "wf_event _ \<longleftrightarrow> True"

text \<open>The bytes a step accepts from the application.\<close>

fun taken :: "cover_event \<Rightarrow> CoveredStream \<Rightarrow> bytes" where
  "taken (AppWrite buf) s = (case cover_poll_write buf s of (_, Ready (Inr n)) \<Rightarrow> take n buf | _ \<Rightarrow> [])"
| "taken _ s = []"

fun submitted :: "nat \<Rightarrow> cover_event list \<Rightarrow> CoveredStream \<Rightarrow> bytes" where
  "submitted iv [] s = []"
| "submitted iv (e # es) s = taken e s @ submitted iv es (fst (cover_step iv e s))"

text \<open>
  Relative to the bytes accepted so far and the cells sent so far: what is neither sent nor
  waiting (\<open>gone\<close>) can only be what a failing writer held when it cancelled the link.
\<close>

definition cover_bytes :: "bytes \<Rightarrow> bytes \<Rightarrow> bytes \<Rightarrow> CoveredStream \<Rightarrow> bool" where
  "cover_bytes sub out gone s \<longleftrightarrow>
    sub = out @ gone @ concat (cv_queue s) @ cv_cell s @ cv_app_out s \<and>
    (\<forall>c \<in> set (cv_queue s). length c = CELL) \<and> length (cv_cell s) \<le> CELL \<and>
    length (cv_queue s) \<le> COVER_QUEUE \<and> length (cv_app_out s) \<le> CELL * COVER_QUEUE \<and>
    cv_accepted s = length sub \<and> cv_progress s = length out"

definition cover_flags :: "bytes \<Rightarrow> bytes \<Rightarrow> bytes \<Rightarrow> CoveredStream \<Rightarrow> bool" where
  "cover_flags sub out gone s \<longleftrightarrow>
    (\<not> cv_cancel s \<longrightarrow> gone = []) \<and>
    (cv_flushing s = None \<or> cv_flushing s = Some (cv_accepted s)) \<and>
    (cv_app_eof s \<longrightarrow> cv_shutting s \<or> cv_shutdown_done s \<or> cv_cancel s) \<and>
    (cv_producing s \<or> cv_cancel s \<or> cv_cell s = [] \<and> cv_app_out s = [] \<and> cv_app_eof s) \<and>
    (cv_finished s \<longrightarrow> cv_cancel s \<and> out = sub) \<and>
    (cv_shutdown_done s \<longrightarrow> cv_finished s)"

definition cover_inv :: "bytes \<Rightarrow> bytes \<Rightarrow> bytes \<Rightarrow> CoveredStream \<Rightarrow> bool" where
  "cover_inv sub out gone s \<longleftrightarrow> cover_bytes sub out gone s \<and> cover_flags sub out gone s"

lemma cover_inv_start: "wrap now phase iv = Inr s \<Longrightarrow> cover_inv [] [] [] s"
  by (auto simp: wrap_def cover_inv_def cover_bytes_def cover_flags_def split: if_splits)

lemma cover_inv_write:
  assumes inv: "cover_inv sub out gone s"
  shows "cover_inv (sub @ taken (AppWrite buf) s) out gone (fst (cover_poll_write buf s))"
proof -
  define n where "n = min (length buf) (CELL * COVER_QUEUE - length (cv_app_out s))"
  consider "cv_shutting s \<or> cv_shutdown_done s \<or> cv_cancel s"
    | "\<not> (cv_shutting s \<or> cv_shutdown_done s \<or> cv_cancel s)" "n = 0 \<and> buf \<noteq> []"
    | "\<not> (cv_shutting s \<or> cv_shutdown_done s \<or> cv_cancel s)" "\<not> (n = 0 \<and> buf \<noteq> [])" by blast
  then show ?thesis
  proof cases
    case 3
    have w: "cover_poll_write buf s = (s\<lparr>cv_app_out := cv_app_out s @ take n buf, cv_accepted := cv_accepted s + n,
        cv_flushing := None\<rparr>, Ready (Inr n))"
      using 3 by (simp add: cover_poll_write_def n_def [symmetric])
    have "length (cv_app_out s) \<le> CELL * COVER_QUEUE" using inv by (simp add: cover_inv_def cover_bytes_def)
    then have n: "n \<le> length buf" "length (cv_app_out s) + n \<le> CELL * COVER_QUEUE" by (auto simp: n_def)
    have "cv_producing s" "\<not> cv_finished s" using inv 3(1) by (auto simp: cover_inv_def cover_flags_def)
    then show ?thesis using inv n 3(1) by (simp add: w cover_inv_def cover_bytes_def cover_flags_def)
  qed (use inv in \<open>simp_all add: cover_poll_write_def n_def [symmetric]\<close>)
qed

lemma cover_flags_bytes:
  "cover_bytes sub out gone (s\<lparr>cv_flushing := f\<rparr>) = cover_bytes sub out gone s"
  "cover_bytes sub out gone (s\<lparr>cv_cancel := b\<rparr>) = cover_bytes sub out gone s"
  "cover_bytes sub out gone (s\<lparr>cv_shutting := b\<rparr>) = cover_bytes sub out gone s"
  "cover_bytes sub out gone (s\<lparr>cv_shutdown_done := b\<rparr>) = cover_bytes sub out gone s"
  "cover_bytes sub out gone (s\<lparr>cv_app_eof := b\<rparr>) = cover_bytes sub out gone s"
  "cover_bytes sub out gone (s\<lparr>cv_producing := b\<rparr>) = cover_bytes sub out gone s"
  "cover_bytes sub out gone (s\<lparr>cv_finished := b\<rparr>) = cover_bytes sub out gone s"
  "cover_bytes sub out gone (s\<lparr>cv_deadline := n\<rparr>) = cover_bytes sub out gone s"
  "cover_bytes sub out gone (s\<lparr>cv_updated := n\<rparr>) = cover_bytes sub out gone s"
  "cover_bytes sub out gone (s\<lparr>cv_credit := n\<rparr>) = cover_bytes sub out gone s"
  "cover_bytes sub out gone (s\<lparr>cv_app_in := d\<rparr>) = cover_bytes sub out gone s"
  by (simp_all add: cover_bytes_def)

lemma cover_inv_cancel: "cover_inv sub out gone s \<Longrightarrow> cover_inv sub out gone (s\<lparr>cv_cancel := True\<rparr>)"
  by (simp add: cover_inv_def cover_flags_bytes) (simp add: cover_flags_def)

lemma cover_inv_flush:
  assumes "cover_inv sub out gone s"
  shows "cover_inv sub out gone (fst (cover_poll_flush late s))"
proof -
  have "cover_inv sub out gone (s\<lparr>cv_flushing := None\<rparr>)"
    using assms by (simp add: cover_inv_def cover_flags_bytes) (simp add: cover_flags_def)
  moreover have "cover_inv sub out gone (s\<lparr>cv_flushing := None, cv_cancel := True\<rparr>)"
    using cover_inv_cancel [OF calculation] .
  moreover have "cv_flushing s = None \<or> cv_flushing s = Some (cv_accepted s)"
    using assms by (simp add: cover_inv_def cover_flags_def)
  moreover have "cover_inv sub out gone (s\<lparr>cv_flushing := Some (cv_accepted s)\<rparr>)"
    using assms by (simp add: cover_inv_def cover_flags_bytes) (simp add: cover_flags_def)
  ultimately show ?thesis
    using assms by (auto simp: cover_poll_flush_def Let_def)
qed

lemma cover_inv_shutdown:
  assumes inv: "cover_inv sub out gone s"
  shows "cover_inv sub out gone (fst (cover_poll_shutdown late s))"
proof (cases "cv_shutdown_done s")
  case True
  with inv show ?thesis by (simp add: cover_poll_shutdown_def)
next
  case False
  define s1 where "s1 = (if cv_shutting s then s else s\<lparr>cv_app_eof := True, cv_shutting := True\<rparr>)"
  have i: "cover_inv sub out gone s1" and sh: "cv_shutting s1"
    using inv by (auto simp: s1_def cover_inv_def cover_flags_bytes cover_flags_def)
  have "cover_inv sub out gone (s1\<lparr>cv_shutdown_done := True\<rparr>)" if "cv_finished s1"
    using i that by (simp add: cover_inv_def cover_flags_bytes) (simp add: cover_flags_def)
  moreover have "cover_inv sub out gone (s1\<lparr>cv_shutting := False\<rparr>)" if "cv_cancel s1"
    using i that by (simp add: cover_inv_def cover_flags_bytes) (simp add: cover_flags_def)
  moreover have "cover_inv sub out gone (s1\<lparr>cv_cancel := True, cv_shutting := False\<rparr>)"
    using cover_inv_cancel [OF i] by (simp add: cover_inv_def cover_flags_bytes) (simp add: cover_flags_def)
  ultimately show ?thesis
    using i False by (simp add: cover_poll_shutdown_def s1_def [symmetric])
qed

lemma cover_inv_producer:
  assumes inv: "cover_inv sub out gone s" "cv_producing s" "\<not> cv_cancel s"
  shows "cover_inv sub out gone (producer_read n s)"
    and "cover_inv sub out gone (producer_send s)"
    and "cover_inv sub out gone (producer_eof s)"
    and "cover_inv sub out gone (producer_late s)"
proof -
  have f: "\<not> cv_finished s" using inv by (auto simp: cover_inv_def cover_flags_def)
  show "cover_inv sub out gone (producer_read n s)"
  proof -
    define k where "k = min n (min (CELL - length (cv_cell s)) (length (cv_app_out s)))"
    have "k \<le> CELL - length (cv_cell s)" "k \<le> length (cv_app_out s)" by (simp_all add: k_def)
    with inv show ?thesis
      by (auto simp: producer_read_def k_def [symmetric] cover_inv_def cover_bytes_def cover_flags_def)
  qed
  show "cover_inv sub out gone (producer_send s)"
    using inv by (auto simp: producer_send_def cover_inv_def cover_bytes_def cover_flags_def)
  show "cover_inv sub out gone (producer_eof s)"
    using inv f by (auto simp: producer_eof_def cover_inv_def cover_flags_bytes cover_flags_def)
  show "cover_inv sub out gone (producer_late s)"
    using inv f by (auto simp: producer_late_def cover_inv_def cover_flags_bytes cover_flags_def)
qed

lemma cover_inv_writer:
  assumes inv: "cover_inv sub out gone s" and nc: "\<not> cv_cancel s" and noise: "length noise = CELL"
  shows "\<exists>gone'. cover_inv sub (out @ cells_of (snd (writer_turn iv noise t_done written s))) gone'
    (fst (writer_turn iv noise t_done written s))"
proof -
  have g: "gone = []" using inv nc by (simp add: cover_inv_def cover_flags_def)
  have d: "cover_inv sub out [] (s\<lparr>cv_deadline := t\<rparr>)" for t
    using inv by (simp add: g cover_inv_def cover_flags_bytes) (simp add: cover_flags_def)
  have c: "cover_inv sub out [] (s\<lparr>cv_cancel := True\<rparr>)" using cover_inv_cancel [OF inv] g by simp
  show ?thesis
  proof (cases "cv_queue s")
    case Nil
    have fin: "cover_inv sub out [] (s\<lparr>cv_finished := True, cv_cancel := True\<rparr>)" if "\<not> cv_producing s"
      using inv nc that Nil by (auto simp: g cover_inv_def cover_flags_def cover_bytes_def)
    show ?thesis
      using c d fin noise by (intro exI [of _ "[]"]) (simp add: writer_turn_def Nil split: option.split)
  next
    case (Cons cell rest)
    have l: "length cell = CELL" using inv by (simp add: cover_inv_def cover_bytes_def Cons)
    have "cover_inv sub out cell (s\<lparr>cv_queue := rest, cv_cancel := True\<rparr>)"
      using inv nc by (auto simp: cover_inv_def cover_bytes_def cover_flags_def Cons)
    moreover have "cover_inv sub (out @ cell) [] (s\<lparr>cv_queue := rest, cv_progress := cv_progress s + CELL, cv_deadline := t\<rparr>)" for t
      using inv nc l by (auto simp: cover_inv_def cover_bytes_def cover_flags_def Cons)
    ultimately show ?thesis
      using l by (intro exI [of _ "if written \<and> next_deadline (cv_deadline s) t_done iv \<noteq> None then [] else cell"])
        (simp add: writer_turn_def Cons Let_def split: option.split)
  qed
qed

lemma cover_inv_reader:
  assumes inv: "cover_inv sub out gone s"
  shows "cover_inv sub out gone (reader_turn now room frame s)"
proof -
  have "cover_inv sub out gone s'" if "cover_reader now room frame s = Inr s'" for s'
  proof -
    have "cover_inv sub out gone (s\<lparr>cv_updated := now, cv_credit := c\<rparr>)"
      "cover_inv sub out gone (s\<lparr>cv_updated := now, cv_credit := c, cv_app_in := d\<rparr>)" for c d
      using inv by (simp_all add: cover_inv_def cover_flags_bytes) (simp_all add: cover_flags_def)
    with that show ?thesis by (auto simp: cover_reader_def Let_def split: option.splits if_splits)
  qed
  then show ?thesis
    using cover_inv_cancel [OF inv] by (simp add: reader_turn_def split: sum.split)
qed

lemma cover_inv_step:
  assumes "cover_inv sub out gone s" "wf_event e"
  shows "\<exists>gone'. cover_inv (sub @ taken e s) (out @ cells_of (snd (cover_step iv e s))) gone' (fst (cover_step iv e s))"
proof (cases e)
  case (AppWrite buf)
  then show ?thesis using cover_inv_write [OF assms(1), of buf] by (auto simp del: taken.simps simp: AppWrite)
next
  case (AppRead n)
  have "cover_inv sub out gone (s\<lparr>cv_app_in := drop n (cv_app_in s)\<rparr>)"
    using assms(1) by (simp add: cover_inv_def cover_flags_bytes) (simp add: cover_flags_def)
  then show ?thesis by (auto simp: AppRead cover_poll_read_def)
next
  case (WriterTurn noise t_done written)
  then show ?thesis using cover_inv_writer [OF assms(1)] assms by auto
qed (use assms(1) cover_inv_flush [OF assms(1)] cover_inv_shutdown [OF assms(1)] cover_inv_cancel [OF assms(1)]
       cover_inv_producer [OF assms(1)] cover_inv_reader [OF assms(1)] in \<open>auto simp: cover_drop_def intro!: exI [of _ gone]\<close>)

lemma cover_inv_run:
  "cover_inv sub out gone s \<Longrightarrow> \<forall>e \<in> set es. wf_event e \<Longrightarrow>
   \<exists>gone'. cover_inv (sub @ submitted iv es s) (out @ cells_of (snd (cover_run iv es s))) gone' (fst (cover_run iv es s))"
proof (induction es arbitrary: sub out gone s)
  case Nil
  then show ?case by auto
next
  case (Cons e es)
  obtain gone' where "cover_inv (sub @ taken e s) (out @ cells_of (snd (cover_step iv e s))) gone' (fst (cover_step iv e s))"
    using cover_inv_step Cons.prems by (meson list.set_intros(1))
  from Cons.IH [OF this] Cons.prems(2) show ?case by (auto simp: Let_def split: prod.split)
qed

lemma cover_inv_queue: "cover_inv sub out gone s \<Longrightarrow> \<forall>c \<in> set (cv_queue s). length c = CELL"
  by (simp add: cover_inv_def cover_bytes_def)

lemma cover_run_frames:
  "\<forall>e \<in> set es. wf_event e \<Longrightarrow> cover_inv sub out gone s \<Longrightarrow>
   \<forall>f \<in> set (snd (cover_run iv es s)). length f = FRAME"
proof (induction es arbitrary: sub out gone s)
  case Nil
  then show ?case by simp
next
  case (Cons e es)
  have "\<forall>f \<in> set (snd (cover_step iv e s)). length f = FRAME"
    using Cons.prems(1) cover_inv_queue [OF Cons.prems(2)]
    by (cases e) (auto simp: writer_turn_def Let_def data_frame_eq noise_frame_eq FRAME_def split: list.splits option.splits if_splits)
  moreover obtain gone' where inv: "cover_inv (sub @ taken e s) (out @ cells_of (snd (cover_step iv e s))) gone' (fst (cover_step iv e s))"
    using cover_inv_step [OF Cons.prems(2), of e iv] Cons.prems(1) by auto
  moreover have "\<forall>f \<in> set (snd (cover_run iv es (fst (cover_step iv e s)))). length f = FRAME"
    using Cons.IH [OF _ inv] Cons.prems(1) by simp
  ultimately show ?case by (auto simp: Let_def split: prod.splits)
qed


section \<open>What the wire shows\<close>

fun is_writer :: "cover_event \<Rightarrow> bool" where
  "is_writer (WriterTurn _ _ _) = True"
| "is_writer _ = False"

lemmas cover_step_defs = cover_poll_write_def cover_poll_flush_def cover_poll_shutdown_def cover_poll_read_def
  cover_drop_def producer_read_def producer_send_def producer_eof_def producer_late_def Let_def

lemma cancel_stays: "cv_cancel s \<Longrightarrow> cv_cancel (fst (cover_step iv e s))"
  by (cases e) (auto simp: cover_step_defs split: option.split)

lemma cancel_stays_run: "cv_cancel s \<Longrightarrow> cv_cancel (fst (cover_run iv es s))"
  by (induction es arbitrary: s) (auto simp: Let_def split: prod.split dest: cancel_stays, metis cancel_stays fst_conv)

lemma reader_turn_deadline: "cv_deadline (reader_turn now room frame s) = cv_deadline s"
  by (auto simp: reader_turn_def cover_reader_def Let_def split: sum.split option.splits)

lemma quiet_step:
  "\<not> is_writer e \<Longrightarrow> snd (cover_step iv e s) = [] \<and> cv_deadline (fst (cover_step iv e s)) = cv_deadline s"
  by (cases e) (auto simp: cover_step_defs reader_turn_deadline split: option.split)

text \<open>A writer turn that does not end the link: whether it writes and when the next one is due.\<close>

lemma writer_step:
  assumes "\<not> cv_cancel (fst (cover_step iv (WriterTurn noise t_done written) s))" "length noise = CELL"
    "\<forall>c \<in> set (cv_queue s). length c = CELL"
  shows "map length (snd (cover_step iv (WriterTurn noise t_done written) s)) =
      (if cv_deadline s \<le> t_done then [FRAME] else [])"
    and "cv_deadline (fst (cover_step iv (WriterTurn noise t_done written) s)) =
      (if cv_deadline s \<le> t_done then the (next_deadline (cv_deadline s) t_done iv) else cv_deadline s)"
  using assms
  by (auto simp: writer_turn_def Let_def data_frame_eq noise_frame_eq FRAME_def split: list.splits option.splits if_splits)

text \<open>The slots a schedule of writer turns uses, as a function of the clock alone.\<close>

fun slots :: "nat \<Rightarrow> nat \<Rightarrow> cover_event list \<Rightarrow> nat list \<times> nat" where
  "slots iv d [] = ([], d)"
| "slots iv d (WriterTurn noise t_done written # es) =
    (if d \<le> t_done then let (ls, d') = slots iv (the (next_deadline d t_done iv)) es in (FRAME # ls, d')
     else slots iv d es)"
| "slots iv d (_ # es) = slots iv d es"

lemma slots_quiet: "\<not> is_writer e \<Longrightarrow> slots iv d (e # es) = slots iv d es"
  by (cases e) auto

lemma slots_filter: "slots iv d (filter is_writer es) = slots iv d es"
proof (induction es arbitrary: d)
  case (Cons e es)
  then show ?case by (cases e) auto
qed simp

lemma cover_run_slots:
  "\<forall>e \<in> set es. wf_event e \<Longrightarrow> cover_inv sub out gone s \<Longrightarrow> \<not> cv_cancel (fst (cover_run iv es s)) \<Longrightarrow>
   (map length (snd (cover_run iv es s)), cv_deadline (fst (cover_run iv es s))) = slots iv (cv_deadline s) es"
proof (induction es arbitrary: sub out gone s)
  case Nil
  then show ?case by simp
next
  case (Cons e es)
  let ?s = "fst (cover_step iv e s)"
  have run: "cover_run iv (e # es) s = (fst (cover_run iv es ?s), snd (cover_step iv e s) @ snd (cover_run iv es ?s))"
    by (simp add: Let_def split: prod.split)
  have nc: "\<not> cv_cancel ?s" "\<not> cv_cancel (fst (cover_run iv es ?s))"
    using Cons.prems(3) [unfolded run fst_conv] cancel_stays_run [of ?s iv es] by auto
  obtain gone' where inv: "cover_inv (sub @ taken e s) (out @ cells_of (snd (cover_step iv e s))) gone' ?s"
    using cover_inv_step [OF Cons.prems(2), of e iv] Cons.prems(1) by auto
  have ih: "(map length (snd (cover_run iv es ?s)), cv_deadline (fst (cover_run iv es ?s))) = slots iv (cv_deadline ?s) es"
    using Cons.IH [OF _ inv nc(2)] Cons.prems(1) by simp
  show ?case
  proof (cases "is_writer e")
    case False
    then show ?thesis using quiet_step [OF False, of iv s] ih unfolding run by (simp add: slots_quiet)
  next
    case True
    then obtain noise t_done written where e: "e = WriterTurn noise t_done written" by (cases e) auto
    have q: "\<forall>c \<in> set (cv_queue s). length c = CELL" using Cons.prems(2) by (rule cover_inv_queue)
    have n: "length noise = CELL" using Cons.prems(1) by (simp add: e)
    note w = writer_step [OF nc(1) [unfolded e] n q]
    show ?thesis using ih unfolding run by (auto simp: e w split: prod.split simp del: cover_step.simps)
  qed
qed


section \<open>Witnesses\<close>

definition link0 :: CoveredStream where
  "link0 = (case wrap 0 5 (millis 20) of Inr s \<Rightarrow> s)"

lemma link0: "wrap 0 5 (millis 20) = Inr link0"
  by (simp add: link0_def wrap_def size_defs)



end
