(* ===== verification/Link.thy ===== *)
theory Link
  imports Handshake LinkCover Tcp
begin

text \<open>
  Relay links of \<open>src/src/onion/link.rs\<close>: TLS with a self-signed certificate that carries the
  relay's composite identity, a second authentication by a dual signature over a challenge and
  the channel's exporter, and the choice of cover. TLS, the certificate library and the
  signatures are third-party code: a TLS handshake is an argument that gives a channel (the
  negotiated protocol, the exporter and the byte stream), certificates go through the fields
  of \<open>x509\<close>, and \<open>x509_ok\<close> states what they guarantee of a certificate the program made.
\<close>

section \<open>Cover profiles\<close>

datatype CoverProfile = CpStrict | CpEconomy

datatype link_error = LkInvalid string | LkTls | LkIo | LkIdentity id_error | LkCover cover_error

definition ALPN :: bytes where "ALPN = ascii ''anonguard/6''"
definition TRACKER_ALPN :: bytes where "TRACKER_ALPN = ascii ''anonguard-tracker/2''"

definition CoverProfile_parse :: "bytes \<Rightarrow> link_error + CoverProfile" where
  "CoverProfile_parse value =
    (if value = ascii ''strict'' then Inr CpStrict
     else if value = ascii ''economy'' then Inr CpEconomy
     else Inl (LkInvalid ''Unknown link cover profile''))"

fun CoverProfile_interval :: "CoverProfile \<Rightarrow> nat" where
  "CoverProfile_interval CpStrict = millis 20"
| "CoverProfile_interval CpEconomy = millis 40"

fun CoverProfile_alpn :: "CoverProfile \<Rightarrow> bytes" where
  "CoverProfile_alpn CpStrict = ALPN"
| "CoverProfile_alpn CpEconomy = ascii ''anonguard/6-cover40''"

section \<open>Certificates\<close>

definition IDENTITY_OID :: string where "IDENTITY_OID = ''2.25.2676937280591097606''"

record certificate =
  ce_algorithm :: string
  ce_parameters :: bool
  ce_unused_bits :: nat
  ce_key :: bytes
  ce_extensions :: "(string \<times> bytes) list"
  ce_valid_at :: "nat \<Rightarrow> bool"

text \<open>
  \<open>xc_parse\<close> is \<open>parse_x509_certificate\<close> (the bytes left over and the certificate), \<open>xc_time\<close>
  says that a timestamp is a valid ASN.1 time, \<open>xc_self_signed\<close> makes a certificate from a
  PKCS#8 key, a subject name and custom extensions.
\<close>

record x509 =
  xc_parse :: "bytes \<Rightarrow> (bytes \<times> certificate) option"
  xc_time :: "nat \<Rightarrow> bool"
  xc_self_signed :: "bytes \<Rightarrow> string \<Rightarrow> (string \<times> bytes) list \<Rightarrow> bytes option"

definition certificate_identity_matches :: "sigs \<Rightarrow> certificate \<Rightarrow> bytes \<Rightarrow> bool" where
  "certificate_identity_matches sg cert pin =
    (case filter (\<lambda>(oid, _). oid = IDENTITY_OID) (ce_extensions cert) of
       [(_, v)] \<Rightarrow>
         (case decode_public_key sg v of
            Inl _ \<Rightarrow> False
          | Inr identity \<Rightarrow> fingerprint sg identity = pin \<and> ce_key cert = hp_classical identity)
     | _ \<Rightarrow> False)"

definition verify_server_cert :: "sigs \<Rightarrow> x509 \<Rightarrow> bytes \<Rightarrow> nat \<Rightarrow> bytes \<Rightarrow> bytes list \<Rightarrow> bool" where
  "verify_server_cert sg xc pinned now cert chain =
    (case xc_parse xc cert of
       None \<Rightarrow> False
     | Some (rest, parsed) \<Rightarrow>
         xc_time xc now \<and>
         \<not> (rest \<noteq> [] \<or> chain \<noteq> [] \<or> ce_algorithm parsed \<noteq> ''1.3.101.112'' \<or> ce_parameters parsed
            \<or> ce_unused_bits parsed \<noteq> 0 \<or> \<not> certificate_identity_matches sg parsed pinned
            \<or> \<not> ce_valid_at parsed now))"

section \<open>Configurations\<close>

datatype tls_version = TLS12 | TLS13
datatype kx_group = X25519MLKEM768 | OtherGroup

record tls_channel =
  tc_alpn :: "bytes option"
  tc_exporter :: "bytes \<Rightarrow> bytes \<Rightarrow> bytes option"
  tc_stream :: tcp

record ClientConfig =
  cc_versions :: "tls_version list"
  cc_groups :: "kx_group list"
  cc_suites :: "string list"
  cc_verifier :: "nat \<Rightarrow> bytes \<Rightarrow> bytes list \<Rightarrow> bool"
  cc_alpn :: "bytes list"
  cc_resumption :: bool
  cc_server_name :: string

record ServerConfig =
  sc_versions :: "tls_version list"
  sc_groups :: "kx_group list"
  sc_suites :: "string list"
  sc_cert :: bytes
  sc_alpn :: "bytes list"
  sc_early_data :: nat
  sc_tickets :: nat

definition HYBRID_SUITES :: "string list" where
  "HYBRID_SUITES = [''TLS13_AES_256_GCM_SHA384'', ''TLS13_CHACHA20_POLY1305_SHA256'']"

definition client_config :: "sigs \<Rightarrow> x509 \<Rightarrow> bytes \<Rightarrow> bytes \<Rightarrow> ClientConfig" where
  "client_config sg xc pinned protocol =
    \<lparr>cc_versions = [TLS13], cc_groups = [X25519MLKEM768], cc_suites = HYBRID_SUITES,
     cc_verifier = verify_server_cert sg xc pinned, cc_alpn = [protocol], cc_resumption = False,
     cc_server_name = ''relay.anonguard.invalid''\<rparr>"

record RelayAcceptor =
  ra_config :: ServerConfig
  ra_identity :: HybridSigningKey
  ra_protocol :: bytes

definition PKCS8_PREFIX :: bytes where
  "PKCS8_PREFIX = [0x30, 0x2e, 0x02, 0x01, 0x00, 0x30, 0x05, 0x06, 0x03, 0x2b, 0x65, 0x70, 0x04, 0x22, 0x04, 0x20]"

definition acceptor_for :: "sigs \<Rightarrow> x509 \<Rightarrow> HybridSigningKey \<Rightarrow> bytes \<Rightarrow> link_error + RelayAcceptor" where
  "acceptor_for sg xc identity protocol =
    (let private_key = PKCS8_PREFIX @ hs_classical identity in
     case xc_self_signed xc private_key ''relay.anonguard.invalid''
            [(IDENTITY_OID, hp_encoded (public_key sg identity))] of
       None \<Rightarrow> Inl LkTls
     | Some cert \<Rightarrow>
         Inr \<lparr>ra_config = \<lparr>sc_versions = [TLS13], sc_groups = [X25519MLKEM768], sc_suites = HYBRID_SUITES,
                sc_cert = cert, sc_alpn = [protocol], sc_early_data = 0, sc_tickets = 0\<rparr>,
              ra_identity = identity, ra_protocol = protocol\<rparr>)"

definition acceptor_with_profile :: "sigs \<Rightarrow> x509 \<Rightarrow> HybridSigningKey \<Rightarrow> CoverProfile \<Rightarrow> link_error + RelayAcceptor" where
  "acceptor_with_profile sg xc identity profile = acceptor_for sg xc identity (CoverProfile_alpn profile)"

definition acceptor :: "sigs \<Rightarrow> x509 \<Rightarrow> HybridSigningKey \<Rightarrow> link_error + RelayAcceptor" where
  "acceptor sg xc identity = acceptor_with_profile sg xc identity CpStrict"

definition tracker_acceptor :: "sigs \<Rightarrow> x509 \<Rightarrow> HybridSigningKey \<Rightarrow> link_error + RelayAcceptor" where
  "tracker_acceptor sg xc identity = acceptor_for sg xc identity TRACKER_ALPN"

section \<open>Channel authentication\<close>

definition channel_auth_message :: "bytes \<Rightarrow> bytes \<Rightarrow> bytes \<Rightarrow> bytes" where
  "channel_auth_message protocol challenge exporter =
     ascii ''AnonGuard-relay-channel-auth-v6'' @ protocol @ challenge @ exporter"

definition link_id :: "id_error + 'a \<Rightarrow> link_error + 'a" where
  "link_id r = (case r of Inl e \<Rightarrow> Inl (LkIdentity e) | Inr a \<Rightarrow> Inr a)"

definition EXPORTER_LABEL :: bytes where "EXPORTER_LABEL = ascii ''AnonGuard-link-auth-v6''"

definition connect_authenticated ::
  "sigs \<Rightarrow> x509 \<Rightarrow> (ClientConfig \<Rightarrow> tls_channel option) \<Rightarrow> bytes \<Rightarrow> bytes \<Rightarrow> bytes \<Rightarrow> link_error + tls_channel" where
  "connect_authenticated sg xc tls_connect challenge pinned protocol =
    (if pinned = replicate 32 0 then Inl (LkInvalid ''Relay link requires a directory identity pin'')
     else case tls_connect (client_config sg xc pinned protocol) of
       None \<Rightarrow> Inl LkTls
     | Some tls \<Rightarrow>
         if tc_alpn tls \<noteq> Some protocol then Inl (LkInvalid ''Relay protocol version mismatch'')
         else
           ebind (run_io (write_all LkIo challenge) (tc_stream tls)) (\<lambda>(stream, _).
           ebind (run_io (read_exact LkIo PROOF_SIZE) stream) (\<lambda>(stream, pf).
           case tc_exporter tls EXPORTER_LABEL challenge of
             None \<Rightarrow> Inl LkTls
           | Some exporter \<Rightarrow>
               ebind (link_id (VerifyingKey_from_bytes pinned)) (\<lambda>vk.
               ebind (link_id (Signature_from_slice pf)) (\<lambda>sig.
               ebind (link_id (verify_strict sg vk (channel_auth_message protocol challenge exporter) sig)) (\<lambda>_.
                 Inr (tls\<lparr>tc_stream := stream\<rparr>)))))))"

definition accept_authenticated ::
  "sigs \<Rightarrow> (ServerConfig \<Rightarrow> tls_channel option) \<Rightarrow> RelayAcceptor \<Rightarrow> link_error + tls_channel" where
  "accept_authenticated sg tls_accept ra =
    (let protocol = ra_protocol ra in
     case tls_accept (ra_config ra) of
       None \<Rightarrow> Inl LkTls
     | Some tls \<Rightarrow>
         if tc_alpn tls \<noteq> Some protocol then Inl (LkInvalid ''Relay protocol version mismatch'')
         else
           ebind (run_io (read_exact LkIo 32) (tc_stream tls)) (\<lambda>(stream, challenge).
           case tc_exporter tls EXPORTER_LABEL challenge of
             None \<Rightarrow> Inl LkTls
           | Some exporter \<Rightarrow>
               ebind (link_id (identity_sign sg (ra_identity ra) (channel_auth_message protocol challenge exporter))) (\<lambda>pf.
               ebind (run_io (write_all LkIo pf) stream) (\<lambda>(stream, _).
                 Inr (tls\<lparr>tc_stream := stream\<rparr>)))))"

section \<open>Links with cover\<close>

definition link_cover :: "nat \<Rightarrow> nat \<Rightarrow> CoverProfile \<Rightarrow> link_error + CoveredStream" where
  "link_cover now phase profile =
    (case wrap now phase (CoverProfile_interval profile) of Inl e \<Rightarrow> Inl (LkCover e) | Inr s \<Rightarrow> Inr s)"

definition connect_guarded_with_profile ::
  "sigs \<Rightarrow> x509 \<Rightarrow> (ClientConfig \<Rightarrow> tls_channel option) \<Rightarrow> nat \<Rightarrow> nat \<Rightarrow> bytes \<Rightarrow> bytes \<Rightarrow> CoverProfile
   \<Rightarrow> link_error + (tls_channel \<times> CoveredStream)" where
  "connect_guarded_with_profile sg xc tls_connect now phase challenge pinned profile =
    ebind (connect_authenticated sg xc tls_connect challenge pinned (CoverProfile_alpn profile)) (\<lambda>tls.
    ebind (link_cover now phase profile) (\<lambda>cover. Inr (tls, cover)))"

definition connect_guarded ::
  "sigs \<Rightarrow> x509 \<Rightarrow> (ClientConfig \<Rightarrow> tls_channel option) \<Rightarrow> nat \<Rightarrow> nat \<Rightarrow> bytes \<Rightarrow> bytes
   \<Rightarrow> link_error + (tls_channel \<times> CoveredStream)" where
  "connect_guarded sg xc tls_connect now phase challenge pinned =
    connect_guarded_with_profile sg xc tls_connect now phase challenge pinned CpStrict"

definition connect_tracker ::
  "sigs \<Rightarrow> x509 \<Rightarrow> (ClientConfig \<Rightarrow> tls_channel option) \<Rightarrow> bytes \<Rightarrow> bytes \<Rightarrow> link_error + tls_channel" where
  "connect_tracker sg xc tls_connect challenge pinned =
    connect_authenticated sg xc tls_connect challenge pinned TRACKER_ALPN"

definition accept_link ::
  "sigs \<Rightarrow> (ServerConfig \<Rightarrow> tls_channel option) \<Rightarrow> nat \<Rightarrow> nat \<Rightarrow> RelayAcceptor \<Rightarrow> link_error + (tls_channel \<times> CoveredStream)" where
  "accept_link sg tls_accept now phase ra =
    ebind (if ra_protocol ra = CoverProfile_alpn CpStrict then Inr CpStrict
           else if ra_protocol ra = CoverProfile_alpn CpEconomy then Inr CpEconomy
           else Inl (LkInvalid ''Wrong acceptor protocol'')) (\<lambda>profile.
    ebind (accept_authenticated sg tls_accept ra) (\<lambda>tls.
    ebind (link_cover now phase profile) (\<lambda>cover. Inr (tls, cover))))"

definition accept_tracker :: "sigs \<Rightarrow> (ServerConfig \<Rightarrow> tls_channel option) \<Rightarrow> RelayAcceptor \<Rightarrow> link_error + tls_channel" where
  "accept_tracker sg tls_accept ra =
    (if ra_protocol ra \<noteq> TRACKER_ALPN then Inl (LkInvalid ''Wrong acceptor protocol'')
     else accept_authenticated sg tls_accept ra)"

section \<open>Messages and certificates\<close>

lemma link_id_Inr: "link_id r = Inr a \<longleftrightarrow> r = Inr a"
  by (cases r) (simp_all add: link_id_def)

text \<open>The protocol, the challenge and the exporter can be read back from the signed message.\<close>

lemma channel_auth_message_inj:
  assumes "channel_auth_message p c x = channel_auth_message p' c' x'"
    and "length c = 32" "length c' = 32" "length x = 32" "length x' = 32"
  shows "p = p' \<and> c = c' \<and> x = x'"
proof -
  have e: "p @ c @ x = p' @ c' @ x'" using assms(1) by (simp add: channel_auth_message_def)
  have "length (p @ c @ x) = length (p' @ c' @ x')" by (simp only: e)
  then have "length p = length p'" using assms(2-5) by simp
  with e assms(2-5) show ?thesis by simp
qed

lemma alpn_distinct:
  "CoverProfile_alpn p = CoverProfile_alpn q \<longleftrightarrow> p = q" "CoverProfile_alpn p \<noteq> TRACKER_ALPN"
  by (cases p; cases q; simp add: ALPN_def TRACKER_ALPN_def ascii_def)+

text \<open>What a client accepts as a certificate, and that it accepts the one a relay makes.\<close>

lemma verify_server_cert_sound:
  assumes "verify_server_cert sg xc pinned now cert chain"
  shows "\<exists>parsed identity v. xc_parse xc cert = Some ([], parsed) \<and> chain = [] \<and> ce_valid_at parsed now \<and>
    filter (\<lambda>(oid, _). oid = IDENTITY_OID) (ce_extensions parsed) = [(IDENTITY_OID, v)] \<and>
    decode_public_key sg v = Inr identity \<and> fingerprint sg identity = pinned \<and> ce_key parsed = hp_classical identity"
proof -
  obtain parsed where p: "xc_parse xc cert = Some ([], parsed)" "chain = []" "ce_valid_at parsed now"
    "certificate_identity_matches sg parsed pinned"
    using assms by (auto simp: verify_server_cert_def split: option.splits)
  have "\<exists>oid v. filter (\<lambda>(oid, _). oid = IDENTITY_OID) (ce_extensions parsed) = [(oid, v)]"
  proof (cases "filter (\<lambda>(oid, _). oid = IDENTITY_OID) (ce_extensions parsed)")
    case Nil
    with p(4) show ?thesis by (simp add: certificate_identity_matches_def)
  next
    case (Cons e es)
    with p(4) show ?thesis by (cases es; cases e) (simp_all add: certificate_identity_matches_def)
  qed
  then obtain oid v where f: "filter (\<lambda>(oid, _). oid = IDENTITY_OID) (ce_extensions parsed) = [(oid, v)]" by blast
  have d: "\<exists>identity. decode_public_key sg v = Inr identity \<and> fingerprint sg identity = pinned \<and> ce_key parsed = hp_classical identity"
    using p(4) by (auto simp: certificate_identity_matches_def f split: sum.splits)
  have "(oid, v) \<in> set (filter (\<lambda>(oid, _). oid = IDENTITY_OID) (ce_extensions parsed))" by (simp add: f)
  then have "oid = IDENTITY_OID" by simp
  with p f d show ?thesis by blast
qed

definition x509_ok :: "sigs \<Rightarrow> x509 \<Rightarrow> nat \<Rightarrow> bool" where
  "x509_ok sg xc now \<longleftrightarrow> xc_time xc now \<and>
    (\<forall>seed name v. \<exists>cert parsed. xc_self_signed xc (PKCS8_PREFIX @ seed) name [(IDENTITY_OID, v)] = Some cert \<and>
       xc_parse xc cert = Some ([], parsed) \<and> ce_algorithm parsed = ''1.3.101.112'' \<and> \<not> ce_parameters parsed \<and>
       ce_unused_bits parsed = 0 \<and> ce_key parsed = ed_public sg seed \<and> ce_valid_at parsed now \<and>
       filter (\<lambda>(oid, _). oid = IDENTITY_OID) (ce_extensions parsed) = [(IDENTITY_OID, v)])"

lemma own_certificate_accepted:
  assumes "sigs_ok sg" "x509_ok sg xc now" "acceptor_for sg xc identity protocol = Inr ra"
  shows "verify_server_cert sg xc (verifying_key sg identity) now (sc_cert (ra_config ra)) []"
proof -
  obtain cert parsed where c: "xc_self_signed xc (PKCS8_PREFIX @ hs_classical identity) ''relay.anonguard.invalid''
      [(IDENTITY_OID, hp_encoded (public_key sg identity))] = Some cert"
    "xc_parse xc cert = Some ([], parsed)" "ce_algorithm parsed = ''1.3.101.112''" "\<not> ce_parameters parsed"
    "ce_unused_bits parsed = 0" "ce_key parsed = ed_public sg (hs_classical identity)" "ce_valid_at parsed now"
    "filter (\<lambda>(oid, _). oid = IDENTITY_OID) (ce_extensions parsed) = [(IDENTITY_OID, hp_encoded (public_key sg identity))]"
    using assms(2) unfolding x509_ok_def by blast
  have "sc_cert (ra_config ra) = cert" using assms(3) c(1) by (simp add: acceptor_for_def Let_def) auto
  moreover have "certificate_identity_matches sg parsed (verifying_key sg identity)"
    using decode_public_key_public_key [OF assms(1), of identity] c(6)
    by (simp add: certificate_identity_matches_def c(8) verifying_key_def)
  moreover have "xc_time xc now" using assms(2) by (simp add: x509_ok_def)
  ultimately show ?thesis using c by (simp add: verify_server_cert_def)
qed

section \<open>Authentication of links\<close>


text \<open>
  Two ends of one TLS channel: the same exporter, and each reads what the other writes.
\<close>

definition tls_pair :: "bytes \<Rightarrow> (bytes \<Rightarrow> bytes \<Rightarrow> bytes option) \<Rightarrow> bytes \<Rightarrow> tls_channel" where
  "tls_pair protocol exporter input =
    \<lparr>tc_alpn = Some protocol, tc_exporter = exporter, tc_stream = \<lparr>tcp_in = input, tcp_out = [], tcp_room = None\<rparr>\<rparr>"

lemma accept_authenticated_ok:
  assumes "length challenge = 32" "exporter EXPORTER_LABEL challenge = Some x"
    "identity_sign sg (ra_identity ra) (channel_auth_message (ra_protocol ra) challenge x) = Inr pf"
  shows "accept_authenticated sg (\<lambda>_. Some (tls_pair (ra_protocol ra) exporter challenge)) ra =
    Inr (tls_pair (ra_protocol ra) exporter [] \<lparr>tc_stream := \<lparr>tcp_in = [], tcp_out = pf, tcp_room = None\<rparr>\<rparr>)"
  using assms by (simp add: accept_authenticated_def Let_def tls_pair_def read_exact_def run_io_def link_id_def)

lemma connect_authenticated_cong:
  "tls_connect (client_config sg xc pinned protocol) = tls_connect' (client_config sg xc pinned protocol) \<Longrightarrow>
   connect_authenticated sg xc tls_connect challenge pinned protocol = connect_authenticated sg xc tls_connect' challenge pinned protocol"
  by (simp add: connect_authenticated_def)

lemma connect_authenticated_ok:
  assumes "sigs_ok sg" "verifying_key sg identity \<noteq> replicate 32 0" "exporter EXPORTER_LABEL challenge = Some x"
    "identity_sign sg identity (channel_auth_message protocol challenge x) = Inr pf"
  shows "connect_authenticated sg xc (\<lambda>_. Some (tls_pair protocol exporter pf)) challenge (verifying_key sg identity) protocol =
    Inr (tls_pair protocol exporter [] \<lparr>tc_stream := \<lparr>tcp_in = [], tcp_out = challenge, tcp_room = None\<rparr>\<rparr>)"
  using assms identity_sign_verify_aux [OF assms(1,4)] identity_sign_length [OF assms(1,4)]
  by (simp add: connect_authenticated_def tls_pair_def read_exact_def run_io_def link_id_def
      VerifyingKey_from_bytes_def Signature_from_slice_def)

lemma link_exchange:
  assumes sg: "sigs_ok sg" and x5: "x509_ok sg xc now" and pin: "verifying_key sg identity \<noteq> replicate 32 0"
    and ra: "acceptor_with_profile sg xc identity profile = Inr ra"
    and len: "length challenge = 32" and ex: "exporter EXPORTER_LABEL challenge = Some x" "length x = 32"
  shows "\<exists>pf client server.
    connect_guarded_with_profile sg xc
      (\<lambda>cfg. if cc_alpn cfg = sc_alpn (ra_config ra) \<and> cc_verifier cfg now (sc_cert (ra_config ra)) []
             then Some (tls_pair (ra_protocol ra) exporter pf) else None)
      t phase challenge (verifying_key sg identity) profile = Inr client \<and>
    accept_link sg (\<lambda>_. Some (tls_pair (ra_protocol ra) exporter challenge)) t' phase' ra = Inr server \<and>
    tcp_out (tc_stream (fst server)) = pf \<and> tcp_out (tc_stream (fst client)) = challenge \<and>
    tcp_in (tc_stream (fst server)) = [] \<and> tcp_in (tc_stream (fst client)) = [] \<and>
    wrap t phase (CoverProfile_interval profile) = Inr (snd client) \<and>
    wrap t' phase' (CoverProfile_interval profile) = Inr (snd server)"
proof -
  have r: "ra_protocol ra = CoverProfile_alpn profile" "ra_identity ra = identity" "sc_alpn (ra_config ra) = [CoverProfile_alpn profile]"
    using ra by (auto simp: acceptor_with_profile_def acceptor_for_def Let_def split: option.splits)
  let ?m = "channel_auth_message (CoverProfile_alpn profile) challenge x"
  have "length ?m \<le> MAX_MESSAGE" using len ex by (cases profile) (simp_all add: channel_auth_message_def ALPN_def size_defs)
  then obtain pf where pf: "identity_sign sg identity ?m = Inr pf"
    using identity_sign_Inr [of ?m sg identity] by (auto simp: is_ok_iff)
  have cert: "verify_server_cert sg xc (verifying_key sg identity) now (sc_cert (ra_config ra)) []"
    using own_certificate_accepted [OF sg x5] ra by (simp add: acceptor_with_profile_def)
  obtain c1 c2 where w: "wrap t phase (CoverProfile_interval profile) = Inr c1" "wrap t' phase' (CoverProfile_interval profile) = Inr c2"
    by (cases profile) (simp_all add: wrap_def size_defs)
  have ca: "connect_authenticated sg xc
      (\<lambda>cfg. if cc_alpn cfg = sc_alpn (ra_config ra) \<and> cc_verifier cfg now (sc_cert (ra_config ra)) []
             then Some (tls_pair (ra_protocol ra) exporter pf) else None) challenge (verifying_key sg identity) (CoverProfile_alpn profile) =
    Inr (tls_pair (CoverProfile_alpn profile) exporter [] \<lparr>tc_stream := \<lparr>tcp_in = [], tcp_out = challenge, tcp_room = None\<rparr>\<rparr>)"
    unfolding connect_authenticated_ok [where exporter = exporter, OF sg pin ex(1) pf, of xc, symmetric]
    using cert r by (intro connect_authenticated_cong) (simp add: client_config_def)
  have aa: "accept_authenticated sg (\<lambda>_. Some (tls_pair (ra_protocol ra) exporter challenge)) ra =
    Inr (tls_pair (ra_protocol ra) exporter [] \<lparr>tc_stream := \<lparr>tcp_in = [], tcp_out = pf, tcp_room = None\<rparr>\<rparr>)"
    using pf r by (intro accept_authenticated_ok [where exporter = exporter, OF len ex(1)]) simp
  have sel: "(if ra_protocol ra = CoverProfile_alpn CpStrict then Inr CpStrict
      else if ra_protocol ra = CoverProfile_alpn CpEconomy then Inr CpEconomy
      else Inl (LkInvalid ''Wrong acceptor protocol'')) = Inr profile"
    unfolding r alpn_distinct(1) by (cases profile) simp_all
  show ?thesis
    by (rule exI [of _ pf])
      (simp only: connect_guarded_with_profile_def accept_link_def ca aa sel link_cover_def w ebind_simps sum.case,
       simp add: tls_pair_def)
qed


section \<open>Witnesses\<close>

text \<open>
  A certificate library whose certificates are the seed, cut or padded to 32 bytes, followed by
  the first extension's value, and a channel whose exporter repeats the challenge.
\<close>

definition plain_x509 :: x509 where
  "plain_x509 =
    \<lparr>xc_parse = \<lambda>bs. Some ([], \<lparr>ce_algorithm = ''1.3.101.112'', ce_parameters = False, ce_unused_bits = 0,
       ce_key = take 32 bs, ce_extensions = [(IDENTITY_OID, drop 32 bs)], ce_valid_at = \<lambda>_. True\<rparr>),
     xc_time = \<lambda>_. True,
     xc_self_signed = \<lambda>key name exts. (case exts of [(oid, v)] \<Rightarrow> Some (fit 32 (drop 16 key) @ v) | _ \<Rightarrow> None)\<rparr>"

lemma plain_x509_ok: "x509_ok fit_sigs plain_x509 now"
  by (simp add: x509_ok_def plain_x509_def PKCS8_PREFIX_def fit_sigs_def)

definition plain_exporter :: "bytes \<Rightarrow> bytes \<Rightarrow> bytes option" where
  "plain_exporter label context = Some (fit 32 context)"

lemma acceptor_a: "\<exists>ra. acceptor_with_profile fit_sigs plain_x509 key_a CpEconomy = Inr ra"
  by (simp add: acceptor_with_profile_def acceptor_for_def plain_x509_def Let_def)



end
