(* ===== verification/Hex.thy ===== *)
theory Hex
  imports Prelude
begin

text \<open>
  The hexadecimal codec. The crate is third-party code, so the definitions that use it take it
  as an argument of type \<open>hexc\<close>; \<open>hex_ok\<close> is what the program relies on, and \<open>lower_hex\<close> an
  instance.
\<close>

record hexc =
  hx_encode :: "bytes \<Rightarrow> bytes"
  hx_decode :: "bytes \<Rightarrow> bytes option"

definition hex_ok :: "hexc \<Rightarrow> bool" where
  "hex_ok hx \<longleftrightarrow> (\<forall>bs. hx_decode hx (hx_encode hx bs) = Some bs \<and> length (hx_encode hx bs) = 2 * length bs \<and>
     list_all (\<lambda>c. (48 \<le> c \<and> c \<le> 57) \<or> (97 \<le> c \<and> c \<le> 102)) (hx_encode hx bs))"

text \<open>The hexadecimal code in lower case.\<close>

definition nibble :: "nat \<Rightarrow> u8" where
  "nibble n = of_nat (if n < 10 then 48 + n else 87 + n)"

definition of_nibble :: "u8 \<Rightarrow> nat option" where
  "of_nibble c = (if 48 \<le> c \<and> c \<le> 57 then Some (unat c - 48) else if 97 \<le> c \<and> c \<le> 102 then Some (unat c - 87) else None)"

fun hex_decode :: "bytes \<Rightarrow> bytes option" where
  "hex_decode [] = Some []"
| "hex_decode [c] = None"
| "hex_decode (a # b # cs) =
    (case (of_nibble a, of_nibble b, hex_decode cs) of
       (Some x, Some y, Some bs) \<Rightarrow> Some (of_nat (16 * x + y) # bs)
     | _ \<Rightarrow> None)"

definition lower_hex :: hexc where
  "lower_hex = \<lparr>hx_encode = (\<lambda>bs. concat (map (\<lambda>b. [nibble (unat b div 16), nibble (unat b mod 16)]) bs)),
     hx_decode = hex_decode\<rparr>"

lemma nibble:
  assumes "n < 16"
  shows "of_nibble (nibble n) = Some n" "(48 \<le> nibble n \<and> nibble n \<le> 57) \<or> (97 \<le> nibble n \<and> nibble n \<le> 102)"
proof -
  have u: "unat (nibble n) = (if n < 10 then 48 + n else 87 + n)"
    using assms by (simp add: nibble_def unat_of_nat)
  show "of_nibble (nibble n) = Some n" "(48 \<le> nibble n \<and> nibble n \<le> 57) \<or> (97 \<le> nibble n \<and> nibble n \<le> 102)"
    using assms by (auto simp: of_nibble_def word_le_nat_alt u)
qed

lemma hex_ok_lower: "hex_ok lower_hex"
proof -
  have b: "unat b div 16 < 16" "unat b mod 16 < 16" for b :: u8
    using unsigned_less [of b, where ?'a = nat] by (simp_all add: less_mult_imp_div_less)
  have "hx_decode lower_hex (hx_encode lower_hex bs) = Some bs \<and> length (hx_encode lower_hex bs) = 2 * length bs \<and>
     list_all (\<lambda>c. (48 \<le> c \<and> c \<le> 57) \<or> (97 \<le> c \<and> c \<le> 102)) (hx_encode lower_hex bs)" for bs
    by (induction bs) (simp_all add: lower_hex_def nibble(1) nibble(2) b)
  then show ?thesis by (simp add: hex_ok_def)
qed

end
