(* ===== verification/Tracker.thy ===== *)
theory Tracker
  imports Sybil Admission Identity Hex Tcp "HOL-Library.AList"
begin

text \<open>
  The rendezvous tracker of \<open>src/src/mesh/tracker.rs\<close>: control messages, admission of
  connections, and the registration and connection of relays that wait for clients. One task
  runs \<open>handle\<close> per connection; it gives up the processor at each read, write and lock, so
  the model cuts \<open>handle\<close> there: each piece between two such points is one function on the
  state the tasks share, and a task between pieces is its local variables. The hexadecimal
  codec is the parameter of the theory of that name.
\<close>

section \<open>Control messages\<close>

definition DEFAULT_MAX_TRACKER_CONNECTIONS :: nat where [size_defs]: "DEFAULT_MAX_TRACKER_CONNECTIONS = 512"
definition DEFAULT_MAX_TRACKER_HANDSHAKES :: nat where [size_defs]: "DEFAULT_MAX_TRACKER_HANDSHAKES = 16"
definition HANDSHAKE_BURST :: nat where [size_defs]: "HANDSHAKE_BURST = 32"
definition HANDSHAKE_REFILL :: nat where [size_defs]: "HANDSHAKE_REFILL = 62500000"
definition MAX_WAITING :: nat where [size_defs]: "MAX_WAITING = 128"
definition MAX_PER_NODE :: nat where [size_defs]: "MAX_PER_NODE = 3"
definition MAX_CONTROL :: nat where [size_defs]: "MAX_CONTROL = 32 * 1024"

datatype tracker_error = TrInvalid string | TrTimedOut | TrOther

definition read_control :: "(tcp, tracker_error, bytes) io" where
  "read_control =
    io_bind (read_exact TrTimedOut 4) (\<lambda>n.
      let size = unat (from_be n :: u32) in
      if size = 0 \<or> size > MAX_CONTROL then io_fail (TrInvalid ''Invalid tracker control length'')
      else io_bind (read_exact TrTimedOut size) (\<lambda>data.
        case from_utf8 data of
          None \<Rightarrow> io_fail (TrInvalid ''Invalid tracker control UTF-8'')
        | Some text \<Rightarrow> io_return text))"

definition write_control :: "bytes \<Rightarrow> (tcp, tracker_error, unit) io" where
  "write_control value =
    (if value = [] \<or> length value > MAX_CONTROL then io_fail (TrInvalid ''Invalid tracker control length'')
     else io_bind (write_all TrTimedOut (to_be 4 (of_nat (length value) :: u32))) (\<lambda>_.
       write_all TrTimedOut value))"

definition valid_token :: "bytes \<Rightarrow> bool" where
  "valid_token token \<longleftrightarrow>
     length token = 64 \<and> list_all (\<lambda>c. (48 \<le> c \<and> c \<le> 57) \<or> (97 \<le> c \<and> c \<le> 102)) token"

definition valid_node :: "bytes \<Rightarrow> bool" where
  "valid_node node \<longleftrightarrow> valid_token node"

definition tokens_match :: "bytes \<Rightarrow> bytes \<Rightarrow> bool" where
  "tokens_match a b \<longleftrightarrow> a = b"

definition REGISTRATION_LABEL :: bytes where
  "REGISTRATION_LABEL = ascii ''AnonGuard-tracker-registration-v2''"

definition registration_message :: "bytes \<Rightarrow> bytes \<Rightarrow> bytes \<Rightarrow> bytes" where
  "registration_message command challenge exporter =
     REGISTRATION_LABEL @ [0] @ to_be 4 (of_nat (length command) :: u32) @ command @ challenge @ exporter"

section \<open>Parsing\<close>

text \<open>The length of the white-space character (Unicode \<open>White_Space\<close>, in UTF-8) at the head, 0 if none.\<close>

fun white_space :: "bytes \<Rightarrow> nat" where
  "white_space [] = 0"
| "white_space (a # bs) =
    (if (9 \<le> a \<and> a \<le> 13) \<or> a = 32 then 1
     else case bs of
       [] \<Rightarrow> 0
     | b # cs \<Rightarrow>
         if a = 0xC2 \<and> (b = 0x85 \<or> b = 0xA0) then 2
         else case cs of
           [] \<Rightarrow> 0
         | c # _ \<Rightarrow>
             if (a = 0xE1 \<and> b = 0x9A \<and> c = 0x80)
                \<or> (a = 0xE2 \<and> b = 0x80 \<and> (c \<ge> 0x80 \<and> c \<le> 0x8A \<or> c = 0xA8 \<or> c = 0xA9 \<or> c = 0xAF))
                \<or> (a = 0xE2 \<and> b = 0x81 \<and> c = 0x9F) \<or> (a = 0xE3 \<and> b = 0x80 \<and> c = 0x80)
             then 3 else 0)"

fun words_from :: "bytes \<Rightarrow> bytes \<Rightarrow> bytes list" where
  "words_from cur [] = (if cur = [] then [] else [cur])"
| "words_from cur (b # bs) =
    (let n = white_space (b # bs) in
     if n > 0 then (if cur = [] then [] else [cur]) @ words_from [] (drop (n - 1) bs)
     else words_from (cur @ [b]) bs)"

definition split_whitespace :: "bytes \<Rightarrow> bytes list" where
  "split_whitespace text = words_from [] text"

text \<open>\<open>str::parse::<u64>\<close>: an optional plus sign, then at least one digit, within range.\<close>

fun decimal :: "int \<Rightarrow> bytes \<Rightarrow> int option" where
  "decimal acc [] = Some acc"
| "decimal acc (c # cs) =
    (if 48 \<le> c \<and> c \<le> 57 then
       (let v = acc * 10 + (uint c - 48) in if v < 2 ^ 64 then decimal v cs else None)
     else None)"

definition parse_u64 :: "bytes \<Rightarrow> u64 option" where
  "parse_u64 text =
    (let ds = (case text of c # cs \<Rightarrow> if c = 43 \<and> cs \<noteq> [] then cs else text | [] \<Rightarrow> []) in
     if ds = [] then None else map_option of_int (decimal 0 ds))"

datatype command =
    RegisterReverse bytes bytes bytes bytes
  | ConnectReverse bytes bytes
  | Nodes
  | InvalidCommand

definition parse_command :: "bytes \<Rightarrow> command" where
  "parse_command text =
    (case split_whitespace text of
       [w, node, token, timestamp, nonce] \<Rightarrow>
         if w = ascii ''REGISTER_REVERSE'' \<and> valid_node node \<and> valid_token token
         then RegisterReverse node token timestamp nonce else InvalidCommand
     | [w, node, token] \<Rightarrow>
         if w = ascii ''CONNECT_REVERSE'' \<and> valid_node node \<and> valid_token token
         then ConnectReverse node token else InvalidCommand
     | [w] \<Rightarrow> if w = ascii ''NODES'' then Nodes else InvalidCommand
     | _ \<Rightarrow> InvalidCommand)"

section \<open>Admission of connections\<close>

record tracker_listener =
  tl_connections :: nat
  tl_handshakes :: nat
  tl_rate :: TokenBucket
  tl_sources :: SourceAdmission

definition listener_start :: "nat \<Rightarrow> tracker_listener option" where
  "listener_start now =
    (case TokenBucket_new HANDSHAKE_BURST HANDSHAKE_REFILL now of
       None \<Rightarrow> None
     | Some rate \<Rightarrow>
         Some \<lparr>tl_connections = DEFAULT_MAX_TRACKER_CONNECTIONS, tl_handshakes = DEFAULT_MAX_TRACKER_HANDSHAKES,
               tl_rate = rate, tl_sources = SourceAdmission_new\<rparr>)"

text \<open>A connection from \<open>ip\<close>; \<open>False\<close> drops it, and the permits taken so far with it.\<close>

definition listener_accept :: "IpAddr \<Rightarrow> nat \<Rightarrow> tracker_listener \<Rightarrow> tracker_listener \<times> bool" where
  "listener_accept ip now l =
    (if tl_connections l = 0 \<or> tl_handshakes l = 0 then (l, False)
     else
       let (rate, ok) = tb_available now (tl_rate l);
           l = l\<lparr>tl_rate := rate\<rparr>
       in if \<not> ok then (l, False)
       else
         let (sources, ok) = try_admit ip now (tl_sources l);
             l = l\<lparr>tl_sources := sources\<rparr>
         in if \<not> ok then (l, False)
         else
           let (rate, ok) = tb_take now (tl_rate l);
               l = l\<lparr>tl_rate := rate\<rparr>
           in if \<not> ok then (l\<lparr>tl_sources := release (source_group ip) (tl_sources l)\<rparr>, False)
           else (l\<lparr>tl_connections := tl_connections l - 1, tl_handshakes := tl_handshakes l - 1\<rparr>, True))"

definition listener_authenticated :: "SourceGroup \<Rightarrow> tracker_listener \<Rightarrow> tracker_listener" where
  "listener_authenticated g l = l\<lparr>tl_handshakes := tl_handshakes l + 1, tl_sources := release g (tl_sources l)\<rparr>"

definition listener_closed :: "tracker_listener \<Rightarrow> tracker_listener" where
  "listener_closed l = l\<lparr>tl_connections := tl_connections l + 1\<rparr>"

section \<open>Shared state and tasks\<close>

record Waiting =
  wt_id :: u64
  wt_task :: nat

record Entry =
  en_token :: bytes
  en_waiting :: "Waiting list"

text \<open>The local variables of a task that handles a registration.\<close>

record locals =
  lo_command :: bytes
  lo_node :: bytes
  lo_token :: bytes
  lo_nonce :: bytes
  lo_now :: u64
  lo_challenge :: bytes

datatype phase =
    Fresh
  | Challenged locals
  | Proved locals bytes bytes
  | Registered locals bytes bytes u64
  | Leaving locals u64
  | Ended

record tracker =
  tk_directory :: "(bytes \<times> Entry) list"
  tk_waiting :: nat
  tk_budget :: nat
  tk_registry :: NonceRegistryState
  tk_tasks :: "(nat \<times> phase) list"

definition tracker_start :: tracker where
  "tracker_start = \<lparr>tk_directory = [], tk_waiting = MAX_WAITING, tk_budget = DEFAULT_MAX_TRACKER_HANDSHAKES,
     tk_registry = NonceRegistry_new, tk_tasks = []\<rparr>"

definition task :: "nat \<Rightarrow> tracker \<Rightarrow> phase" where
  "task h tk = (case map_of (tk_tasks tk) h of None \<Rightarrow> Fresh | Some p \<Rightarrow> p)"

definition set_task :: "nat \<Rightarrow> phase \<Rightarrow> tracker \<Rightarrow> tracker" where
  "set_task h p tk = tk\<lparr>tk_tasks := AList.update h p (tk_tasks tk)\<rparr>"

datatype tracker_out = Reply nat bytes | Handoff nat nat

section \<open>The pieces of \<open>handle\<close>\<close>

definition register_begin ::
  "(bytes \<Rightarrow> bytes) \<Rightarrow> hexc \<Rightarrow> nat \<Rightarrow> nat \<Rightarrow> bytes \<Rightarrow> bytes \<times> bytes \<times> bytes \<times> bytes \<Rightarrow> u64 \<Rightarrow> bytes \<Rightarrow> tracker \<Rightarrow> tracker \<times> tracker_out list" where
  "register_begin sha256 hx difficulty h text args now challenge tk =
    (case args of (node, token, timestamp, nonce) \<Rightarrow>
     let valid = (case (parse_u64 timestamp, parse_u64 nonce) of
           (Some ts, Some n) \<Rightarrow> verify_pow sha256 node ts n difficulty now
         | _ \<Rightarrow> False)
     in if \<not> valid then (set_task h Ended tk, [Reply h (ascii ''ERROR_INVALID_POW'')])
     else if tk_budget tk = 0 then (set_task h Ended tk, [Reply h (ascii ''ERROR_BUSY'')])
     else (set_task h (Challenged \<lparr>lo_command = text, lo_node = node, lo_token = token, lo_nonce = nonce,
             lo_now = now, lo_challenge = challenge\<rparr>) (tk\<lparr>tk_budget := tk_budget tk - 1\<rparr>),
           [Reply h (ascii ''AUTH_CHALLENGE '' @ hx_encode hx challenge)]))"

definition authenticated :: "sigs \<Rightarrow> hexc \<Rightarrow> locals \<Rightarrow> bytes \<Rightarrow> bytes \<Rightarrow> bool" where
  "authenticated sg hx lo encoded exporter \<longleftrightarrow>
    (case (hx_decode hx encoded, hx_decode hx (lo_node lo)) of
       (Some bs, Some pin) \<Rightarrow>
         length pin = 32 \<and>
         is_ok (ebind (VerifyingKey_from_bytes pin) (\<lambda>vk.
                ebind (Signature_from_slice bs) (\<lambda>sig.
                  verify_strict sg vk (registration_message (lo_command lo) (lo_challenge lo) exporter) sig)))
     | _ \<Rightarrow> False)"

text \<open>
  After the proof arrived. The proof permit is given back on every path; a waiting permit is
  kept by the task that goes on.
\<close>

definition register_prove ::
  "sigs \<Rightarrow> hexc \<Rightarrow> nat \<Rightarrow> locals \<Rightarrow> bytes \<Rightarrow> bytes \<Rightarrow> tracker \<Rightarrow> tracker \<times> tracker_out list" where
  "register_prove sg hx h lo encoded exporter tk =
    (let tk = tk\<lparr>tk_budget := tk_budget tk + 1\<rparr> in
     if length encoded \<noteq> PROOF_SIZE * 2 \<or> \<not> authenticated sg hx lo encoded exporter
     then (set_task h Ended tk, [Reply h (ascii ''ERROR_UNAUTHORIZED'')])
     else case parse_u64 (lo_nonce lo) of
       None \<Rightarrow> (set_task h Ended tk, [])
     | Some nonce \<Rightarrow>
         let (registry, replay) = check_and_record (lo_node lo) nonce (lo_now lo) (tk_registry tk);
             tk = tk\<lparr>tk_registry := registry\<rparr>
         in if replay then (set_task h Ended tk, [Reply h (ascii ''ERROR_INVALID_POW'')])
         else if tk_waiting tk = 0 then (set_task h Ended tk, [Reply h (ascii ''ERROR_BUSY'')])
         else (set_task h (Proved lo encoded exporter) (tk\<lparr>tk_waiting := tk_waiting tk - 1\<rparr>), []))"

text \<open>Under the lock of the directory.\<close>

definition register_insert ::
  "nat \<Rightarrow> locals \<Rightarrow> bytes \<Rightarrow> bytes \<Rightarrow> u64 \<Rightarrow> tracker \<Rightarrow> tracker \<times> tracker_out list" where
  "register_insert h lo encoded exporter wid tk =
    (let entry = (case map_of (tk_directory tk) (lo_node lo) of
           Some entry \<Rightarrow> entry | None \<Rightarrow> \<lparr>en_token = lo_token lo, en_waiting = []\<rparr>)
     in if \<not> tokens_match (en_token entry) (lo_token lo)
        then (set_task h Ended (tk\<lparr>tk_directory := AList.update (lo_node lo) entry (tk_directory tk),
                tk_waiting := tk_waiting tk + 1\<rparr>), [Reply h (ascii ''ERROR_UNAUTHORIZED'')])
        else if length (en_waiting entry) \<ge> MAX_PER_NODE
        then (set_task h Ended (tk\<lparr>tk_directory := AList.update (lo_node lo) entry (tk_directory tk),
                tk_waiting := tk_waiting tk + 1\<rparr>), [Reply h (ascii ''ERROR_BUSY'')])
        else (set_task h (Registered lo encoded exporter wid)
                (tk\<lparr>tk_directory := AList.update (lo_node lo)
                   (entry\<lparr>en_waiting := en_waiting entry @ [\<lparr>wt_id = wid, wt_task = h\<rparr>]\<rparr>) (tk_directory tk)\<rparr>),
              [Reply h (ascii ''REGISTERED'')]))"

definition register_end :: "nat \<Rightarrow> locals \<Rightarrow> u64 \<Rightarrow> tracker \<Rightarrow> tracker" where
  "register_end h lo wid tk =
    (let dir = (case map_of (tk_directory tk) (lo_node lo) of
           None \<Rightarrow> tk_directory tk
         | Some entry \<Rightarrow>
             let kept = filter (\<lambda>w. wt_id w \<noteq> wid) (en_waiting entry) in
             if kept = [] then AList.delete (lo_node lo) (tk_directory tk)
             else AList.update (lo_node lo) (entry\<lparr>en_waiting := kept\<rparr>) (tk_directory tk))
     in set_task h Ended (tk\<lparr>tk_directory := dir, tk_waiting := tk_waiting tk + 1\<rparr>))"

text \<open>
  A client takes the newest registration. The relay's task is reached only while it still
  waits; otherwise the client's own wait ends in a timeout, as it does when the relay's
  connection cannot be \<open>delivered\<close> (the relay was not told in time).
\<close>

definition connect_reverse :: "bool \<Rightarrow> nat \<Rightarrow> bytes \<Rightarrow> bytes \<Rightarrow> tracker \<Rightarrow> tracker \<times> tracker_out list" where
  "connect_reverse delivered h node token tk =
    (case map_of (tk_directory tk) node of
       Some entry \<Rightarrow>
         if tokens_match (en_token entry) token \<and> en_waiting entry \<noteq> [] then
           let w = last (en_waiting entry);
               tk = tk\<lparr>tk_directory := AList.update node (entry\<lparr>en_waiting := butlast (en_waiting entry)\<rparr>) (tk_directory tk)\<rparr>
           in case task (wt_task w) tk of
                Registered lo _ _ wid \<Rightarrow>
                  (set_task h Ended (set_task (wt_task w) (Leaving lo wid) tk),
                   if \<not> delivered then [Reply h (ascii ''ERROR_UNAVAILABLE'')]
                   else [Reply (wt_task w) (ascii ''READY''), Handoff h (wt_task w), Reply h (ascii ''OK'')])
              | _ \<Rightarrow> (set_task h Ended tk, [Reply h (ascii ''ERROR_UNAVAILABLE'')])
         else (set_task h Ended tk, [Reply h (ascii ''ERROR_UNAVAILABLE'')])
     | None \<Rightarrow> (set_task h Ended tk, [Reply h (ascii ''ERROR_UNAVAILABLE'')]))"

fun lex_le :: "bytes \<Rightarrow> bytes \<Rightarrow> bool" where
  "lex_le [] ys = True"
| "lex_le (x # xs) [] = False"
| "lex_le (x # xs) (y # ys) = (x < y \<or> x = y \<and> lex_le xs ys)"

fun lex_insert :: "bytes \<Rightarrow> bytes list \<Rightarrow> bytes list" where
  "lex_insert x [] = [x]"
| "lex_insert x (y # ys) = (if lex_le x y then x # y # ys else y # lex_insert x ys)"

definition list_nodes :: "tracker \<Rightarrow> bytes" where
  "list_nodes tk =
    (let nodes = map fst (filter (\<lambda>(_, entry). en_waiting entry \<noteq> []) (tk_directory tk));
         result = join (ascii [char_of (10 :: nat)]) (foldr lex_insert nodes [])
     in if result = [] then ascii ''EMPTY'' else result)"

section \<open>The server\<close>

record tracker_env =
  te_sigs :: sigs
  te_hex :: hexc
  te_difficulty :: nat

datatype tracker_event =
    Command nat bytes u64 bytes bool
  | ProofArrives nat bytes bytes
  | Abort nat
  | Lock nat u64
  | Expire nat
  | Cleanup nat

text \<open>
  One piece of one task. A command starts a fresh task, with the time and the challenge it
  draws and whether a relay it asks for is delivered; the other events continue the task in the phase they belong to and are nothing in
  another. \<open>Abort\<close> is a failure of the connection while the proof is awaited, \<open>Expire\<close>
  the end of the wait without a client.
\<close>

fun tracker_step :: "tracker_env \<Rightarrow> tracker_event \<Rightarrow> tracker \<Rightarrow> tracker \<times> tracker_out list" where
  "tracker_step te (Command h text now challenge delivered) tk =
    (case task h tk of
       Fresh \<Rightarrow>
         (case parse_command text of
            RegisterReverse node token timestamp nonce \<Rightarrow>
              register_begin (sg_sha256 (te_sigs te)) (te_hex te) (te_difficulty te) h text (node, token, timestamp, nonce) now challenge tk
          | ConnectReverse node token \<Rightarrow> connect_reverse delivered h node token tk
          | Nodes \<Rightarrow> (set_task h Ended tk, [Reply h (list_nodes tk)])
          | InvalidCommand \<Rightarrow> (set_task h Ended tk, [Reply h (ascii ''ERROR_INVALID_COMMAND'')]))
     | _ \<Rightarrow> (tk, []))"
| "tracker_step te (ProofArrives h encoded exporter) tk =
    (case task h tk of
       Challenged lo \<Rightarrow> register_prove (te_sigs te) (te_hex te) h lo encoded exporter tk
     | _ \<Rightarrow> (tk, []))"
| "tracker_step te (Abort h) tk =
    (case task h tk of
       Challenged lo \<Rightarrow> (set_task h Ended (tk\<lparr>tk_budget := tk_budget tk + 1\<rparr>), [])
     | _ \<Rightarrow> (tk, []))"
| "tracker_step te (Lock h wid) tk =
    (case task h tk of
       Proved lo encoded exporter \<Rightarrow> register_insert h lo encoded exporter wid tk
     | _ \<Rightarrow> (tk, []))"
| "tracker_step te (Expire h) tk =
    (case task h tk of
       Registered lo _ _ wid \<Rightarrow> (set_task h (Leaving lo wid) tk, [])
     | _ \<Rightarrow> (tk, []))"
| "tracker_step te (Cleanup h) tk =
    (case task h tk of
       Leaving lo wid \<Rightarrow> (register_end h lo wid tk, [])
     | _ \<Rightarrow> (tk, []))"

fun tracker_run :: "tracker_env \<Rightarrow> tracker_event list \<Rightarrow> tracker \<Rightarrow> tracker \<times> tracker_out list" where
  "tracker_run te [] tk = (tk, [])"
| "tracker_run te (e # es) tk =
    (let (tk, o1) = tracker_step te e tk; (tk, o2) = tracker_run te es tk in (tk, o1 @ o2))"

section \<open>The registering side\<close>

definition u64_to_string :: "u64 \<Rightarrow> bytes" where
  "u64_to_string n = digits 20 10 (uint n)"

definition registration_command :: "hexc \<Rightarrow> bytes \<Rightarrow> bytes \<Rightarrow> u64 \<Rightarrow> u64 \<Rightarrow> bytes" where
  "registration_command hx pin token timestamp nonce =
     ascii ''REGISTER_REVERSE '' @ hx_encode hx pin @ ascii '' '' @ token @ ascii '' '' @
     u64_to_string timestamp @ ascii '' '' @ u64_to_string nonce"

definition register_reverse ::
  "sigs \<Rightarrow> hexc \<Rightarrow> (bytes \<Rightarrow> bytes option) \<Rightarrow> HybridSigningKey \<Rightarrow> bytes \<Rightarrow> u64 \<Rightarrow> u64 \<Rightarrow> (tcp, tracker_error, bytes) io" where
  "register_reverse sg hx exporter identity token timestamp nonce =
    (if \<not> valid_token token then io_fail (TrInvalid ''Invalid capability'')
     else
       let command = registration_command hx (verifying_key sg identity) token timestamp nonce in
       io_bind (write_control command) (\<lambda>_.
       io_bind read_control (\<lambda>response.
         if take 15 response \<noteq> ascii ''AUTH_CHALLENGE '' then io_return response
         else case hx_decode hx (drop 15 response) of
           None \<Rightarrow> io_fail (TrInvalid ''Invalid registration challenge'')
         | Some challenge \<Rightarrow>
             if length challenge \<noteq> 32 then io_fail (TrInvalid ''Invalid registration challenge'')
             else case exporter challenge of
               None \<Rightarrow> io_fail TrOther
             | Some ex \<Rightarrow>
                 (case identity_sign sg identity (registration_message command challenge ex) of
                    Inl _ \<Rightarrow> io_fail TrOther
                  | Inr pf \<Rightarrow>
                      io_bind (write_control (hx_encode hx pf)) (\<lambda>_. read_control)))))"

text \<open>The request a gateway writes for a first hop behind a tracker, in \<open>src/src/gateway/server.rs\<close>.\<close>

definition connect_command :: "bytes \<Rightarrow> bytes \<Rightarrow> bytes" where
  "connect_command node token = ascii ''CONNECT_REVERSE '' @ node @ ascii '' '' @ token"

section \<open>Tasks and permits\<close>

lemma task_simps [simp]:
  "task h (set_task h' p tk) = (if h = h' then p else task h tk)"
  "task h (tk\<lparr>tk_directory := d\<rparr>) = task h tk" "task h (tk\<lparr>tk_waiting := n\<rparr>) = task h tk"
  "task h (tk\<lparr>tk_budget := n\<rparr>) = task h tk" "task h (tk\<lparr>tk_registry := r\<rparr>) = task h tk"
  by (simp_all add: task_def set_task_def update_conv')

lemma set_task_sel [simp]:
  "tk_directory (set_task h p tk) = tk_directory tk" "tk_waiting (set_task h p tk) = tk_waiting tk"
  "tk_budget (set_task h p tk) = tk_budget tk" "tk_registry (set_task h p tk) = tk_registry tk"
  by (simp_all add: set_task_def)

lemma set_task_directory: "(set_task h p tk)\<lparr>tk_directory := d\<rparr> = set_task h p (tk\<lparr>tk_directory := d\<rparr>)"
  by (cases tk) (simp add: set_task_def)

fun holds_budget :: "phase \<Rightarrow> bool" where
  "holds_budget (Challenged _) = True"
| "holds_budget _ = False"

fun holds_waiting :: "phase \<Rightarrow> bool" where
  "holds_waiting (Proved _ _ _) = True"
| "holds_waiting (Registered _ _ _ _) = True"
| "holds_waiting (Leaving _ _) = True"
| "holds_waiting _ = False"

definition holders :: "(phase \<Rightarrow> bool) \<Rightarrow> tracker \<Rightarrow> nat set" where
  "holders P tk = {h. P (task h tk)}"

lemma finite_holders: "\<not> P Fresh \<Longrightarrow> finite (holders P tk)"
proof -
  assume "\<not> P Fresh"
  then have "holders P tk \<subseteq> fst ` set (tk_tasks tk)"
    by (auto simp: holders_def task_def split: option.splits dest: map_of_SomeD intro: rev_image_eqI)
  then show ?thesis by (rule finite_subset) simp
qed

lemma holders_set [simp]:
  "holders P (set_task h p tk) = (if P p then insert h (holders P tk) else holders P tk - {h})"
  "holders P (tk\<lparr>tk_directory := d\<rparr>) = holders P tk" "holders P (tk\<lparr>tk_waiting := n\<rparr>) = holders P tk"
  "holders P (tk\<lparr>tk_budget := n\<rparr>) = holders P tk" "holders P (tk\<lparr>tk_registry := r\<rparr>) = holders P tk"
  by (auto simp: holders_def)

definition permits_ok :: "tracker \<Rightarrow> bool" where
  "permits_ok tk \<longleftrightarrow>
    tk_budget tk + card (holders holds_budget tk) = DEFAULT_MAX_TRACKER_HANDSHAKES \<and>
    tk_waiting tk + card (holders holds_waiting tk) = MAX_WAITING"

lemma permits_set:
  assumes "permits_ok tk"
    and "budget + of_bool (holds_budget p) = tk_budget tk + of_bool (holds_budget (task h tk))"
    and "waiting + of_bool (holds_waiting p) = tk_waiting tk + of_bool (holds_waiting (task h tk))"
    and "tk_budget tk' = budget" "tk_waiting tk' = waiting" "\<And>h. task h tk' = task h tk"
  shows "permits_ok (set_task h p tk')"
proof -
  have h: "holders P tk' = holders P tk" for P using assms(6) by (simp add: holders_def)
  have fin: "finite (holders holds_budget tk)" "finite (holders holds_waiting tk)"
    by (simp_all add: finite_holders)
  have card: "card (holders P (set_task h p tk')) + of_bool (P (task h tk)) = card (holders P tk) + of_bool (P p)"
    if "finite (holders P tk)" for P
  proof (cases "P (task h tk)")
    case True
    then have "h \<in> holders P tk" by (simp add: holders_def)
    moreover from this have "0 < card (holders P tk)" using that by (auto simp: card_gt_0_iff)
    ultimately show ?thesis using True that by (simp add: h insert_absorb)
  next
    case False
    then have "h \<notin> holders P tk" by (simp add: holders_def)
    then show ?thesis using False that by (simp add: h)
  qed
  show ?thesis
    using assms(1-5) card [OF fin(1)] card [OF fin(2)] unfolding permits_ok_def by (auto simp: of_bool_def split: if_splits)
qed

section \<open>The directory and its tasks\<close>

definition slot_ok :: "tracker \<Rightarrow> bytes \<Rightarrow> bytes \<Rightarrow> Waiting \<Rightarrow> bool" where
  "slot_ok tk node token w \<longleftrightarrow>
    (case task (wt_task w) tk of
       Registered lo _ _ wid \<Rightarrow> lo_node lo = node \<and> lo_token lo = token \<and> wid = wt_id w
     | Leaving lo wid \<Rightarrow> lo_node lo = node \<and> wid = wt_id w
     | _ \<Rightarrow> False)"

definition entry_fine :: "tracker \<Rightarrow> bytes \<Rightarrow> Entry \<Rightarrow> bool" where
  "entry_fine tk node e \<longleftrightarrow> valid_node node \<and> length (en_waiting e) \<le> MAX_PER_NODE \<and>
     (\<forall>w \<in> set (en_waiting e). slot_ok tk node (en_token e) w)"

definition dir_ok :: "tracker \<Rightarrow> bool" where
  "dir_ok tk \<longleftrightarrow> distinct (map fst (tk_directory tk)) \<and> (\<forall>node e. map_of (tk_directory tk) node = Some e \<longrightarrow> entry_fine tk node e)"

definition wf_locals :: "locals \<Rightarrow> bool" where
  "wf_locals lo \<longleftrightarrow> (\<exists>ts. parse_command (lo_command lo) = RegisterReverse (lo_node lo) (lo_token lo) ts (lo_nonce lo))"

fun phase_ok :: "tracker_env \<Rightarrow> tracker_event set \<Rightarrow> nat \<Rightarrow> phase \<Rightarrow> bool" where
  "phase_ok te hist h (Challenged lo) \<longleftrightarrow> wf_locals lo"
| "phase_ok te hist h (Proved lo encoded exporter) \<longleftrightarrow> wf_locals lo \<and>
    authenticated (te_sigs te) (te_hex te) lo encoded exporter \<and> ProofArrives h encoded exporter \<in> hist"
| "phase_ok te hist h (Registered lo encoded exporter wid) \<longleftrightarrow> wf_locals lo \<and>
    authenticated (te_sigs te) (te_hex te) lo encoded exporter \<and> ProofArrives h encoded exporter \<in> hist"
| "phase_ok te hist h (Leaving lo wid) \<longleftrightarrow> wf_locals lo"
| "phase_ok te hist h _ \<longleftrightarrow> True"

definition tracker_inv :: "tracker_env \<Rightarrow> tracker_event set \<Rightarrow> tracker \<Rightarrow> bool" where
  "tracker_inv te hist tk \<longleftrightarrow> permits_ok tk \<and> dir_ok tk \<and> (\<forall>h. phase_ok te hist h (task h tk))"

lemma parse_command_valid:
  "parse_command text = RegisterReverse node token ts nonce \<Longrightarrow> valid_node node \<and> valid_token token"
  by (auto simp: parse_command_def split: list.splits if_splits)

lemma wf_locals_valid: "wf_locals lo \<Longrightarrow> valid_node (lo_node lo)"
  unfolding wf_locals_def using parse_command_valid by blast

lemma phase_ok_mono: "phase_ok te hist h p \<Longrightarrow> hist \<subseteq> hist' \<Longrightarrow> phase_ok te hist' h p"
  by (cases p) auto

fun owns_slot :: "phase \<Rightarrow> bool" where
  "owns_slot (Registered _ _ _ _) = True"
| "owns_slot (Leaving _ _) = True"
| "owns_slot _ = False"

lemma slot_ok_owner: "slot_ok tk node token w \<Longrightarrow> owns_slot (task (wt_task w) tk)"
  by (auto simp: slot_ok_def split: phase.splits)

lemma slot_ok_tasks: "(\<And>h. task h tk' = task h tk) \<Longrightarrow> slot_ok tk' node token w = slot_ok tk node token w"
  by (simp add: slot_ok_def)

lemma slot_ok_set: "slot_ok tk node token w \<Longrightarrow> \<not> owns_slot (task h tk) \<Longrightarrow> slot_ok (set_task h p tk) node token w"
  using slot_ok_owner [of tk node token w] by (auto simp: slot_ok_def)

text \<open>A registered task that leaves keeps its slot in order.\<close>

lemma slot_ok_leave:
  "slot_ok tk node token w \<Longrightarrow> task h tk = Registered lo e x wid \<Longrightarrow> slot_ok (set_task h (Leaving lo wid) tk) node token w"
  by (auto simp: slot_ok_def split: phase.splits)

lemma entry_fine_tasks: "(\<And>h. task h tk' = task h tk) \<Longrightarrow> entry_fine tk' node e = entry_fine tk node e"
  using slot_ok_tasks [of tk' tk] by (simp add: entry_fine_def)

lemma dir_ok_set:
  assumes "dir_ok tk" "\<not> owns_slot (task h tk)" "tk_directory tk' = tk_directory tk" "\<And>h. task h tk' = task h tk"
  shows "dir_ok (set_task h p tk')"
proof -
  have "slot_ok (set_task h p tk') node token w" if "slot_ok tk node token w" for node token w
    using that assms(2,4) slot_ok_tasks [of tk' tk] by (intro slot_ok_set) simp_all
  then show ?thesis using assms(1,3) unfolding dir_ok_def entry_fine_def by simp
qed

lemma dir_ok_leave:
  assumes "dir_ok tk" "task h tk = Registered lo e x wid"
  shows "dir_ok (set_task h (Leaving lo wid) tk)"
  using assms slot_ok_leave [OF _ assms(2)] unfolding dir_ok_def entry_fine_def by simp

text \<open>An entry is put in place of the old one, or of none.\<close>

lemma dir_ok_update:
  assumes "dir_ok tk" "entry_fine tk node e"
  shows "dir_ok (tk\<lparr>tk_directory := AList.update node e (tk_directory tk)\<rparr>)"
  using assms entry_fine_tasks [of "tk\<lparr>tk_directory := AList.update node e (tk_directory tk)\<rparr>" tk]
  by (simp add: dir_ok_def distinct_update update_conv')

lemma entry_fine_shorter:
  "entry_fine tk node e \<Longrightarrow> set ws \<subseteq> set (en_waiting e) \<Longrightarrow> length ws \<le> length (en_waiting e) \<Longrightarrow>
   entry_fine tk node (e\<lparr>en_waiting := ws\<rparr>)"
  by (auto simp: entry_fine_def)

section \<open>Every piece keeps the invariant\<close>

lemma phases_set:
  assumes "\<forall>h. phase_ok te hist h (task h tk)" "phase_ok te hist h0 p" "\<And>h. task h tk' = task h tk"
  shows "\<forall>h. phase_ok te hist h (task h (set_task h0 p tk'))"
  using assms by simp

lemma inv_end:
  assumes "tracker_inv te hist tk" "task h tk = Fresh"
  shows "tracker_inv te hist (set_task h Ended tk)"
proof -
  have "permits_ok (set_task h Ended tk)"
    by (rule permits_set [of tk]) (use assms in \<open>simp_all add: tracker_inv_def\<close>)
  moreover have "dir_ok (set_task h Ended tk)"
    by (rule dir_ok_set [of tk]) (use assms in \<open>simp_all add: tracker_inv_def\<close>)
  ultimately show ?thesis using assms by (simp add: tracker_inv_def)
qed

lemma inv_begin:
  assumes inv: "tracker_inv te hist tk" and f: "task h tk = Fresh"
    and pc: "parse_command text = RegisterReverse node token timestamp nonce"
  shows "tracker_inv te hist (fst (register_begin sha256 hx d h text (node, token, timestamp, nonce) now challenge tk))"
proof -
  define lo where "lo = \<lparr>lo_command = text, lo_node = node, lo_token = token, lo_nonce = nonce, lo_now = now, lo_challenge = challenge\<rparr>"
  have wf: "wf_locals lo" using pc by (auto simp: wf_locals_def lo_def)
  have "tracker_inv te hist (set_task h (Challenged lo) (tk\<lparr>tk_budget := tk_budget tk - 1\<rparr>))" if "tk_budget tk \<noteq> 0"
  proof -
    have "permits_ok (set_task h (Challenged lo) (tk\<lparr>tk_budget := tk_budget tk - 1\<rparr>))"
      by (rule permits_set [of tk]) (use inv f that in \<open>simp_all add: tracker_inv_def\<close>)
    moreover have "dir_ok (set_task h (Challenged lo) (tk\<lparr>tk_budget := tk_budget tk - 1\<rparr>))"
      by (rule dir_ok_set [of tk]) (use inv f in \<open>simp_all add: tracker_inv_def\<close>)
    ultimately show ?thesis using inv wf by (simp add: tracker_inv_def)
  qed
  then show ?thesis using inv_end [OF inv f] by (auto simp: register_begin_def Let_def lo_def)
qed

lemma inv_challenged:
  assumes inv: "tracker_inv te hist tk" and c: "task h tk = Challenged lo"
  shows "tracker_inv te hist (set_task h Ended (tk\<lparr>tk_budget := tk_budget tk + 1, tk_registry := r\<rparr>))"
    and "tk_waiting tk \<noteq> 0 \<Longrightarrow> authenticated (te_sigs te) (te_hex te) lo encoded exporter \<Longrightarrow>
      ProofArrives h encoded exporter \<in> hist \<Longrightarrow>
      tracker_inv te hist (set_task h (Proved lo encoded exporter)
        (tk\<lparr>tk_budget := tk_budget tk + 1, tk_registry := r, tk_waiting := tk_waiting tk - 1\<rparr>))"
proof -
  let ?tk = "tk\<lparr>tk_budget := tk_budget tk + 1, tk_registry := r\<rparr>"
  have wf: "wf_locals lo" using inv c unfolding tracker_inv_def by (metis phase_ok.simps(1))
  have "permits_ok (set_task h Ended ?tk)"
    by (rule permits_set [of tk]) (use inv c in \<open>simp_all add: tracker_inv_def\<close>)
  moreover have "dir_ok (set_task h Ended ?tk)"
    by (rule dir_ok_set [of tk]) (use inv c in \<open>simp_all add: tracker_inv_def\<close>)
  ultimately show "tracker_inv te hist (set_task h Ended ?tk)" using inv by (simp add: tracker_inv_def)
  let ?tk = "?tk\<lparr>tk_waiting := tk_waiting tk - 1\<rparr>"
  assume a: "tk_waiting tk \<noteq> 0" "authenticated (te_sigs te) (te_hex te) lo encoded exporter" "ProofArrives h encoded exporter \<in> hist"
  have "permits_ok (set_task h (Proved lo encoded exporter) ?tk)"
    by (rule permits_set [of tk]) (use inv c a in \<open>simp_all add: tracker_inv_def\<close>)
  moreover have "dir_ok (set_task h (Proved lo encoded exporter) ?tk)"
    by (rule dir_ok_set [of tk]) (use inv c in \<open>simp_all add: tracker_inv_def\<close>)
  ultimately show "tracker_inv te hist (set_task h (Proved lo encoded exporter) ?tk)"
    using inv wf a by (simp add: tracker_inv_def)
qed

lemma inv_prove:
  assumes inv: "tracker_inv te hist tk" and c: "task h tk = Challenged lo" and pa: "ProofArrives h encoded exporter \<in> hist"
  shows "tracker_inv te hist (fst (register_prove (te_sigs te) (te_hex te) h lo encoded exporter tk))"
proof -
  note e = inv_challenged(1) [OF inv c, of "tk_registry tk"]
  have same: "tk\<lparr>tk_budget := tk_budget tk + 1, tk_registry := tk_registry tk\<rparr> = tk\<lparr>tk_budget := tk_budget tk + 1\<rparr>" by simp
  show ?thesis
    using e [unfolded same] inv_challenged(1) [OF inv c] inv_challenged(2) [OF inv c] pa
    by (auto simp: register_prove_def Let_def split: option.split prod.split)
qed

lemma inv_insert:
  assumes inv: "tracker_inv te hist tk" and p: "task h tk = Proved lo encoded exporter"
  shows "tracker_inv te hist (fst (register_insert h lo encoded exporter wid tk))"
proof -
  define e where "e = (case map_of (tk_directory tk) (lo_node lo) of
    Some entry \<Rightarrow> entry | None \<Rightarrow> \<lparr>en_token = lo_token lo, en_waiting = []\<rparr>)"
  have ok: "phase_ok te hist h (Proved lo encoded exporter)" using inv p unfolding tracker_inv_def by metis
  then have wf: "wf_locals lo" by simp
  have fine: "entry_fine tk (lo_node lo) e"
    using inv wf_locals_valid [OF wf] by (auto simp: e_def tracker_inv_def dir_ok_def entry_fine_def split: option.split)
  let ?d = "\<lambda>x. AList.update (lo_node lo) x (tk_directory tk)"
  have d0: "dir_ok (tk\<lparr>tk_directory := ?d e\<rparr>)" by (rule dir_ok_update [OF _ fine]) (use inv in \<open>simp add: tracker_inv_def\<close>)
  have refused: "tracker_inv te hist (set_task h Ended (tk\<lparr>tk_directory := ?d e, tk_waiting := tk_waiting tk + 1\<rparr>))"
  proof -
    have "permits_ok (set_task h Ended (tk\<lparr>tk_directory := ?d e, tk_waiting := tk_waiting tk + 1\<rparr>))"
      by (rule permits_set [of tk]) (use inv p in \<open>simp_all add: tracker_inv_def\<close>)
    moreover have "dir_ok (set_task h Ended (tk\<lparr>tk_directory := ?d e, tk_waiting := tk_waiting tk + 1\<rparr>))"
      by (rule dir_ok_set [OF d0]) (simp_all add: p)
    ultimately show ?thesis using inv by (simp add: tracker_inv_def)
  qed
  let ?e = "e\<lparr>en_waiting := en_waiting e @ [\<lparr>wt_id = wid, wt_task = h\<rparr>]\<rparr>"
  let ?tk = "set_task h (Registered lo encoded exporter wid) (tk\<lparr>tk_directory := ?d ?e\<rparr>)"
  have accepted: "tracker_inv te hist ?tk" if m: "en_token e = lo_token lo" and l: "length (en_waiting e) < MAX_PER_NODE"
  proof -
    have "permits_ok ?tk"
      by (rule permits_set [of tk]) (use inv p in \<open>simp_all add: tracker_inv_def\<close>)
    moreover have "dir_ok ?tk"
    proof -
      let ?tk1 = "set_task h (Registered lo encoded exporter wid) tk"
      have d1: "dir_ok ?tk1" by (rule dir_ok_set [of tk]) (use inv p in \<open>simp_all add: tracker_inv_def\<close>)
      have "entry_fine ?tk1 (lo_node lo) e"
        using fine slot_ok_set [of tk "lo_node lo" "en_token e" _ h] p by (simp add: entry_fine_def)
      then have "entry_fine ?tk1 (lo_node lo) ?e"
        using m l by (auto simp: entry_fine_def slot_ok_def)
      from dir_ok_update [OF d1 this] show ?thesis by (simp add: set_task_directory)
    qed
    ultimately show ?thesis using inv ok by (simp add: tracker_inv_def)
  qed
  show ?thesis
    using refused accepted by (auto simp: register_insert_def Let_def e_def [symmetric] tokens_match_def not_le)
qed

lemma inv_expire:
  assumes inv: "tracker_inv te hist tk" and r: "task h tk = Registered lo e x wid"
  shows "tracker_inv te hist (set_task h (Leaving lo wid) tk)"
proof -
  have "phase_ok te hist h (Registered lo e x wid)" using inv r unfolding tracker_inv_def by metis
  moreover have "permits_ok (set_task h (Leaving lo wid) tk)"
    by (rule permits_set [of tk]) (use inv r in \<open>simp_all add: tracker_inv_def\<close>)
  ultimately show ?thesis using inv dir_ok_leave [OF _ r] by (simp add: tracker_inv_def)
qed

lemma inv_cleanup:
  assumes inv: "tracker_inv te hist tk" and l: "task h tk = Leaving lo wid"
  shows "tracker_inv te hist (register_end h lo wid tk)"
proof -
  define kept :: "Entry \<Rightarrow> Waiting list" where "kept = (\<lambda>e. filter (\<lambda>w. wt_id w \<noteq> wid) (en_waiting e))"
  define dir where "dir = (case map_of (tk_directory tk) (lo_node lo) of None \<Rightarrow> tk_directory tk
    | Some e \<Rightarrow> if kept e = [] then AList.delete (lo_node lo) (tk_directory tk)
        else AList.update (lo_node lo) (e\<lparr>en_waiting := kept e\<rparr>) (tk_directory tk))"
  let ?tk = "set_task h Ended (tk\<lparr>tk_directory := dir, tk_waiting := tk_waiting tk + 1\<rparr>)"
  have d: "dir_ok tk" using inv by (simp add: tracker_inv_def)
  have get: "map_of dir node = (if node = lo_node lo
      then (case map_of (tk_directory tk) node of None \<Rightarrow> None | Some e \<Rightarrow> if kept e = [] then None else Some (e\<lparr>en_waiting := kept e\<rparr>))
      else map_of (tk_directory tk) node)" for node
    by (auto simp: dir_def update_conv' delete_conv' split: option.split)
  have slots: "slot_ok ?tk node token w" if s: "slot_ok tk node token w" and ne: "node \<noteq> lo_node lo \<or> wt_id w \<noteq> wid" for node token w
  proof -
    have "wt_task w \<noteq> h" using s ne l by (auto simp: slot_ok_def)
    with s show ?thesis by (simp add: slot_ok_def)
  qed
  have "entry_fine ?tk node e" if g: "map_of dir node = Some e" for node e
  proof (cases "node = lo_node lo")
    case False
    then have "entry_fine tk node e" using g d by (simp add: get dir_ok_def)
    then show ?thesis using slots False by (simp add: entry_fine_def)
  next
    case True
    then obtain e0 where e0: "map_of (tk_directory tk) node = Some e0" "e = e0\<lparr>en_waiting := kept e0\<rparr>"
      using g by (auto simp: get split: option.splits if_splits)
    then have "entry_fine tk node e0" using d by (simp add: dir_ok_def)
    moreover from this have "length (kept e0) \<le> MAX_PER_NODE"
      unfolding kept_def entry_fine_def using length_filter_le le_trans by blast
    moreover have "set (kept e0) \<subseteq> set (en_waiting e0)" "\<forall>w \<in> set (kept e0). wt_id w \<noteq> wid" by (auto simp: kept_def)
    ultimately show ?thesis using slots e0(2) by (auto simp: entry_fine_def)
  qed
  moreover have "distinct (map fst dir)"
    using d by (auto simp: dir_def dir_ok_def distinct_update distinct_delete split: option.split)
  ultimately have "dir_ok ?tk" by (simp add: dir_ok_def)
  moreover have "permits_ok ?tk"
    by (rule permits_set [of tk]) (use inv l in \<open>simp_all add: tracker_inv_def\<close>)
  moreover have "register_end h lo wid tk = ?tk"
    unfolding register_end_def dir_def kept_def Let_def ..
  ultimately show ?thesis using inv by (simp add: tracker_inv_def)
qed

text \<open>What a connection request takes, when it takes something.\<close>

lemma inv_connect:
  assumes inv: "tracker_inv te hist tk" and f: "task h tk = Fresh"
  shows "tracker_inv te hist (fst (connect_reverse delivered h node token tk))"
proof (cases "map_of (tk_directory tk) node")
  case None
  then show ?thesis using inv_end [OF inv f] by (simp add: connect_reverse_def)
next
  case (Some e)
  define tk1 where "tk1 = tk\<lparr>tk_directory := AList.update node (e\<lparr>en_waiting := butlast (en_waiting e)\<rparr>) (tk_directory tk)\<rparr>"
  have i1: "tracker_inv te hist tk1"
  proof -
    have "entry_fine tk node e" using inv Some by (simp add: tracker_inv_def dir_ok_def)
    then have "entry_fine tk node (e\<lparr>en_waiting := butlast (en_waiting e)\<rparr>)"
      by (rule entry_fine_shorter) (auto dest: in_set_butlastD)
    then have "dir_ok tk1" using inv dir_ok_update by (simp add: tk1_def tracker_inv_def)
    moreover have "permits_ok tk1" using inv by (simp add: tk1_def tracker_inv_def permits_ok_def)
    ultimately show ?thesis using inv by (simp add: tk1_def tracker_inv_def)
  qed
  have f1: "task h tk1 = Fresh" by (simp add: tk1_def f)
  have ended: "tracker_inv te hist (set_task h Ended tk1)" by (rule inv_end [OF i1 f1])
  show ?thesis
  proof (cases "task (wt_task (last (en_waiting e))) tk1")
    case (Registered lo enc ex wid)
    have "task h (set_task (wt_task (last (en_waiting e))) (Leaving lo wid) tk1) = Fresh"
      using f1 Registered by auto
    with inv_end [OF inv_expire [OF i1 Registered]] inv_end [OF inv f]
    show ?thesis by (simp add: connect_reverse_def Some Let_def tk1_def [symmetric] Registered)
  qed (use ended inv_end [OF inv f] in \<open>simp_all add: connect_reverse_def Some Let_def tk1_def [symmetric]\<close>)
qed

lemma inv_step:
  assumes "tracker_inv te hist tk"
  shows "tracker_inv te (insert e hist) (fst (tracker_step te e tk))"
proof -
  have inv: "tracker_inv te (insert e hist) tk"
    using assms phase_ok_mono unfolding tracker_inv_def by blast
  have ab: "tracker_inv te (insert e hist) (set_task h Ended (tk\<lparr>tk_budget := tk_budget tk + 1\<rparr>))"
    if "task h tk = Challenged lo" for h lo
    using inv_challenged(1) [OF inv that, of "tk_registry tk"] by simp
  show ?thesis
  proof (cases e)
    case (Command h txt0 now challenge dl)
    then show ?thesis
      using inv inv_begin [OF inv] inv_connect [OF inv] inv_end [OF inv]
      by (simp split: phase.split command.split)
  next
    case (ProofArrives h encoded exporter)
    then show ?thesis using inv inv_prove [OF inv] by (simp split: phase.split)
  next
    case (Abort h)
    then show ?thesis using inv ab by (simp split: phase.split)
  next
    case (Lock h wid)
    then show ?thesis using inv inv_insert [OF inv] by (simp split: phase.split)
  next
    case (Expire h)
    then show ?thesis using inv inv_expire [OF inv] by (simp split: phase.split)
  next
    case (Cleanup h)
    then show ?thesis using inv inv_cleanup [OF inv] by (simp split: phase.split)
  qed
qed

lemma inv_start: "tracker_inv te {} tracker_start"
  by (simp add: tracker_inv_def permits_ok_def holders_def tracker_start_def dir_ok_def task_def)

lemma inv_run: "tracker_inv te hist tk \<Longrightarrow> tracker_inv te (hist \<union> set es) (fst (tracker_run te es tk))"
proof (induction es arbitrary: hist tk)
  case (Cons e es)
  from Cons.IH [OF inv_step [OF Cons.prems, of e]] show ?case
    by (auto simp: Let_def split: prod.split)
qed simp

section \<open>Hand-offs\<close>

fun relay_of :: "tracker_out \<Rightarrow> nat list" where
  "relay_of (Handoff c r) = [r]"
| "relay_of (Reply h m) = []"

definition relays :: "tracker_out list \<Rightarrow> nat list" where
  "relays outs = concat (map relay_of outs)"

lemma relays_simps [simp]:
  "relays [] = []" "relays (a @ b) = relays a @ relays b"
  "relays (Reply h m # os) = relays os" "relays (Handoff c r # os) = r # relays os"
  by (simp_all add: relays_def)

text \<open>The only piece that hands a relay over, and to whom.\<close>

lemma connect_handoff:
  assumes inv: "tracker_inv te hist tk" and out: "Handoff c r \<in> set (snd (connect_reverse delivered h node token tk))"
  shows "c = h \<and> (\<exists>lo encoded exporter wid. task r tk = Registered lo encoded exporter wid \<and> lo_node lo = node \<and> lo_token lo = token)"
proof (cases "map_of (tk_directory tk) node")
  case None
  then show ?thesis using out by (simp add: connect_reverse_def)
next
  case (Some e)
  let ?w = "last (en_waiting e)"
  have t: "en_token e = token" "en_waiting e \<noteq> []"
    using out by (auto simp: connect_reverse_def Some tokens_match_def split: if_splits)
  have "slot_ok tk node (en_token e) ?w"
    using inv Some t(2) by (auto simp: tracker_inv_def dir_ok_def entry_fine_def)
  with out t show ?thesis
    by (auto simp: connect_reverse_def Some Let_def slot_ok_def split: phase.splits if_splits)
qed

lemma register_no_handoff:
  "relays (snd (register_begin sha256 hx d h txt0 args now challenge tk)) = []"
  "relays (snd (register_prove sg hx h lo encoded exporter tk)) = []"
  "relays (snd (register_insert h lo encoded exporter wid tk)) = []"
  by (auto simp: register_begin_def register_prove_def register_insert_def Let_def split: option.split prod.split)

lemma Handoff_relays: "Handoff c r \<in> set outs \<Longrightarrow> r \<in> set (relays outs)"
  by (force simp: relays_def)

lemma step_handoff:
  assumes inv: "tracker_inv te hist tk" and out: "Handoff c r \<in> set (snd (tracker_step te e tk))"
  shows "\<exists>txt0 now ch dl node token lo encoded exporter wid. e = Command c txt0 now ch dl \<and>
    parse_command txt0 = ConnectReverse node token \<and> task r tk = Registered lo encoded exporter wid \<and>
    lo_node lo = node \<and> lo_token lo = token"
proof -
  have "relays (snd (tracker_step te e tk)) \<noteq> []" using Handoff_relays [OF out] by auto
  then obtain h txt0 now ch dl node token where e: "e = Command h txt0 now ch dl" "parse_command txt0 = ConnectReverse node token"
    "tracker_step te e tk = connect_reverse dl h node token tk"
    by (cases e) (auto simp: register_no_handoff split: phase.splits command.splits)
  with connect_handoff [OF inv, of c r dl h node token] out show ?thesis by auto
qed

fun past :: "phase \<Rightarrow> bool" where
  "past (Leaving _ _) = True"
| "past Ended = True"
| "past _ = False"

lemma past_stays: "past (task h tk) \<Longrightarrow> past (task h (fst (tracker_step te e tk)))"
proof -
  assume p: "past (task h tk)"
  have set: "past (task h (set_task h' q tk'))" if "h \<noteq> h' \<or> past q" "\<And>h. task h tk' = task h tk" for h' q tk'
    using that p by auto
  show ?thesis
    using p
    by (cases e)
       (auto simp: register_begin_def register_prove_def register_insert_def register_end_def connect_reverse_def Let_def
         split: phase.split command.split option.split prod.split)
qed

lemma handoff_past: "r \<in> set (relays (snd (tracker_step te e tk))) \<Longrightarrow> past (task r (fst (tracker_step te e tk)))"
  by (cases e) (auto simp: register_no_handoff connect_reverse_def Let_def
      split: phase.splits command.splits option.splits if_splits)

lemma handoff_once: "length (relays (snd (tracker_step te e tk))) \<le> 1"
  by (cases e) (auto simp: register_no_handoff connect_reverse_def Let_def
      split: phase.splits command.splits option.splits if_splits)

lemma in_relays: "r \<in> set (relays outs) \<Longrightarrow> \<exists>c. Handoff c r \<in> set outs"
proof -
  assume "r \<in> set (relays outs)"
  then obtain x where x: "x \<in> set outs" "r \<in> set (relay_of x)" by (auto simp: relays_def)
  show ?thesis
  proof (cases x)
    case (Handoff c r')
    with x show ?thesis by auto
  qed (use x in simp)
qed

text \<open>A relay that was handed over is past its wait, and is not handed over again.\<close>

lemma run_handoffs:
  "tracker_inv te hist tk \<Longrightarrow> tracker_run te es tk = (tk', outs) \<Longrightarrow> (\<forall>r \<in> gone. past (task r tk)) \<Longrightarrow>
   distinct (relays outs) \<and> set (relays outs) \<inter> gone = {} \<and>
   (\<forall>c r. Handoff c r \<in> set outs \<longrightarrow> (\<exists>txt0 now ch dl node token lo encoded exporter wid.
      Command c txt0 now ch dl \<in> set es \<and> parse_command txt0 = ConnectReverse node token \<and>
      phase_ok te (hist \<union> set es) r (Registered lo encoded exporter wid) \<and> lo_node lo = node \<and> lo_token lo = token))"
proof (induction es arbitrary: hist tk outs gone)
  case Nil
  then show ?case by simp
next
  case (Cons e es)
  let ?tk = "fst (tracker_step te e tk)" and ?o1 = "snd (tracker_step te e tk)"
  obtain o2 where run: "tracker_run te es ?tk = (tk', o2)" and outs: "outs = ?o1 @ o2"
    using Cons.prems(2) by (auto simp: Let_def split: prod.splits)
  have inv: "tracker_inv te (insert e hist) ?tk" by (rule inv_step [OF Cons.prems(1)])
  have "\<forall>r \<in> gone \<union> set (relays ?o1). past (task r ?tk)"
    using Cons.prems(3) past_stays handoff_past by blast
  note ih = Cons.IH [OF inv run this]
  have first: "\<exists>txt0 now ch dl node token lo encoded exporter wid. e = Command c txt0 now ch dl \<and>
      parse_command txt0 = ConnectReverse node token \<and> task r tk = Registered lo encoded exporter wid \<and>
      lo_node lo = node \<and> lo_token lo = token" if "Handoff c r \<in> set ?o1" for c r
    by (rule step_handoff [OF Cons.prems(1) that])
  have "set (relays ?o1) \<inter> gone = {}"
  proof -
    have "r \<notin> gone" if rin: "r \<in> set (relays ?o1)" for r
    proof
      assume "r \<in> gone"
      then have p: "past (task r tk)" using Cons.prems(3) by blast
      from in_relays [OF rin] obtain c where "Handoff c r \<in> set ?o1" ..
      from first [OF this] have "\<not> past (task r tk)" by force
      with p show False by simp
    qed
    then show ?thesis by blast
  qed
  moreover have "distinct (relays ?o1)" using handoff_once [of te e tk] by (cases "relays ?o1") auto
  moreover have "\<exists>txt0 now ch dl node token lo encoded exporter wid. Command c txt0 now ch dl \<in> set (e # es) \<and>
      parse_command txt0 = ConnectReverse node token \<and> phase_ok te (hist \<union> set (e # es)) r (Registered lo encoded exporter wid) \<and>
      lo_node lo = node \<and> lo_token lo = token" if h: "Handoff c r \<in> set outs" for c r
  proof (cases "Handoff c r \<in> set ?o1")
    case True
    from first [OF True] obtain txt0 now ch dl node token lo encoded exporter wid where f: "e = Command c txt0 now ch dl"
      "parse_command txt0 = ConnectReverse node token" "task r tk = Registered lo encoded exporter wid"
      "lo_node lo = node" "lo_token lo = token" by blast
    have "phase_ok te hist r (Registered lo encoded exporter wid)"
      using Cons.prems(1) f(3) unfolding tracker_inv_def by metis
    then have "phase_ok te (hist \<union> set (e # es)) r (Registered lo encoded exporter wid)"
      by (rule phase_ok_mono) blast
    moreover have "Command c txt0 now ch dl \<in> set (e # es)" by (simp add: f(1))
    ultimately show ?thesis using f(2,4,5) by blast
  next
    case False
    then have "Handoff c r \<in> set o2" using h outs by simp
    with ih obtain txt0 now ch dl node token lo encoded exporter wid where f: "Command c txt0 now ch dl \<in> set es"
      "parse_command txt0 = ConnectReverse node token" "phase_ok te (insert e hist \<union> set es) r (Registered lo encoded exporter wid)"
      "lo_node lo = node" "lo_token lo = token" by blast
    moreover have "insert e hist \<union> set es = hist \<union> set (e # es)" by simp
    moreover have "Command c txt0 now ch dl \<in> set (e # es)" using f(1) by simp
    ultimately show ?thesis by metis
  qed
  moreover have "distinct (relays outs) \<and> set (relays outs) \<inter> gone = {}"
    if "set (relays ?o1) \<inter> gone = {}" "distinct (relays ?o1)"
    using that conjunct1 [OF ih] conjunct1 [OF conjunct2 [OF ih]] by (auto simp: outs)
  ultimately show ?case by blast
qed

section \<open>The listing\<close>

lemma length_join: "length (join sep parts) = sum_list (map length parts) + (length parts - 1) * length sep"
proof (cases parts)
  case (Cons p ps)
  have "length (concat (concat (map (\<lambda>q. [sep, q]) ps))) = sum_list (map length ps) + length ps * length sep"
    by (induction ps) simp_all
  with Cons show ?thesis by (simp add: join_def)
qed (simp add: join_def)

lemma foldr_lex_insert: "length (foldr lex_insert xs []) = length xs" "set (foldr lex_insert xs []) = set xs"
proof -
  have "length (lex_insert x ys) = Suc (length ys)" "set (lex_insert x ys) = insert x (set ys)" for x ys
    by (induction ys) auto
  then show "length (foldr lex_insert xs []) = length xs" "set (foldr lex_insert xs []) = set xs"
    by (induction xs) simp_all
qed

text \<open>Each listed node has a waiting task of its own, and at most 128 tasks wait.\<close>

lemma listed_nodes:
  assumes inv: "tracker_inv te hist tk"
  shows "length (filter (\<lambda>(_, e). en_waiting e \<noteq> []) (tk_directory tk)) \<le> MAX_WAITING"
    and "\<forall>n \<in> set (map fst (filter (\<lambda>(_, e). en_waiting e \<noteq> []) (tk_directory tk))). length n = 64"
proof -
  let ?l = "filter (\<lambda>(_, e). en_waiting e \<noteq> []) (tk_directory tk)"
  let ?owner = "\<lambda>(n :: bytes, e). wt_task (hd (en_waiting e))"
  have d: "distinct (map fst (tk_directory tk))" using inv by (simp add: tracker_inv_def dir_ok_def)
  have fine: "entry_fine tk n e" if "(n, e) \<in> set ?l" for n e
    using that inv d by (auto simp: tracker_inv_def dir_ok_def)
  have slot: "slot_ok tk n (en_token e) (hd (en_waiting e))" if m: "(n, e) \<in> set ?l" for n e
  proof -
    have "hd (en_waiting e) \<in> set (en_waiting e)" using m by simp
    with fine [OF m] show ?thesis by (simp add: entry_fine_def)
  qed
  have wait: "wt_task w \<in> holders holds_waiting tk" if "slot_ok tk n t w" for n t w
    using that by (auto simp: holders_def slot_ok_def split: phase.splits)
  have sub: "?owner ` set ?l \<subseteq> holders holds_waiting tk"
    using wait [OF slot] by (clarsimp simp del: set_filter) 
  have key: "n = m" if "slot_ok tk n t w" "slot_ok tk m t' w'" "wt_task w = wt_task w'" for n m t t' w w'
    using that by (auto simp: slot_ok_def split: phase.splits)
  have inj: "inj_on ?owner (set ?l)"
  proof (rule inj_onI, clarsimp)
    fix n e m f
    assume a: "(n, e) \<in> set (tk_directory tk)" "en_waiting e \<noteq> []" "(m, f) \<in> set (tk_directory tk)" "en_waiting f \<noteq> []"
      "wt_task (hd (en_waiting e)) = wt_task (hd (en_waiting f))"
    then have "n = m" using slot [of n e] slot [of m f] key by simp
    with a d show "n = m \<and> e = f" by (metis eq_key_imp_eq_value)
  qed
  have dist: "distinct ?l" using d by (meson distinct_filter distinct_map)
  have "length ?l = card (?owner ` set ?l)"
    by (simp only: card_image [OF inj] distinct_card [OF dist])
  also have "\<dots> \<le> card (holders holds_waiting tk)"
    by (rule card_mono [OF _ sub]) (simp add: finite_holders)
  also have "\<dots> \<le> MAX_WAITING" using inv by (simp add: tracker_inv_def permits_ok_def)
  finally show "length ?l \<le> MAX_WAITING" .
  show "\<forall>n \<in> set (map fst ?l). length n = 64"
    using fine by (fastforce simp: entry_fine_def valid_node_def valid_token_def)
qed

lemma list_nodes_bound:
  assumes "tracker_inv te hist tk"
  shows "list_nodes tk \<noteq> [] \<and> length (list_nodes tk) \<le> MAX_CONTROL"
proof -
  let ?ns = "map fst (filter (\<lambda>(_, e). en_waiting e \<noteq> []) (tk_directory tk))"
  let ?s = "foldr lex_insert ?ns []"
  note l = listed_nodes [OF assms]
  have "sum_list (map length ?s) = length ?s * 64"
  proof -
    have "\<forall>n \<in> set ?s. length n = 64" using l(2) by (simp only: foldr_lex_insert)
    then have "map length ?s = map (\<lambda>_. 64) ?s" by (intro map_cong) simp_all
    then show ?thesis by (simp only: sum_list_triv) simp
  qed
  moreover have "length ?s \<le> 128" using l(1) by (simp add: foldr_lex_insert MAX_WAITING_def)
  ultimately have "length (join (ascii [char_of (10 :: nat)]) ?s) \<le> 128 * 64 + 127"
    unfolding length_join by simp
  then show ?thesis
    by (auto simp: list_nodes_def Let_def MAX_CONTROL_def ascii_def)
qed


section \<open>Honest registrations\<close>

text \<open>Words of printable characters, separated by single blanks.\<close>

abbreviation visible :: "bytes \<Rightarrow> bool" where
  "visible w \<equiv> list_all (\<lambda>c. 33 \<le> c \<and> c \<le> 126) w"

lemma white_space_visible: "33 \<le> c \<Longrightarrow> c \<le> 126 \<Longrightarrow> white_space (c # bs) = 0"
proof -
  assume c: "33 \<le> c" "c \<le> 126"
  have "\<not> ((9 \<le> c \<and> c \<le> 13) \<or> c = 32)" "c \<noteq> 0xC2" "c \<noteq> 0xE1" "c \<noteq> 0xE2" "c \<noteq> 0xE3"
    using c by (auto simp: word_le_nat_alt)
  then show ?thesis by (simp split: list.split)
qed

lemma words_visible: "visible w \<Longrightarrow> words_from cur (w @ rest) = words_from (cur @ w) rest"
  by (induction w arbitrary: cur) (simp_all add: white_space_visible Let_def del: white_space.simps)

lemma words_next: "visible w \<Longrightarrow> w \<noteq> [] \<Longrightarrow> words_from [] (w @ ascii '' '' @ rest) = w # words_from [] rest"
  by (simp add: words_visible ascii_def)

lemma words_last: "visible w \<Longrightarrow> w \<noteq> [] \<Longrightarrow> words_from [] w = [w]"
  using words_visible [of w "[]" "[]"] by simp

lemma hex_visible: "list_all (\<lambda>c. (48 \<le> c \<and> c \<le> 57) \<or> (97 \<le> c \<and> c \<le> 102)) (w :: bytes) \<Longrightarrow> visible w"
  by (erule list.pred_mono_strong) (auto simp: word_le_nat_alt)

lemma valid_token_visible: "valid_token w \<Longrightarrow> visible w \<and> w \<noteq> []"
  by (auto simp: valid_token_def intro: hex_visible)

text \<open>Decimal numbers.\<close>

lemma decimal_append: "decimal acc (xs @ ys) = Option.bind (decimal acc xs) (\<lambda>v. decimal v ys)"
  by (induction xs arbitrary: acc) (simp_all add: Let_def)

lemma digit_char:
  assumes "0 \<le> d" "d < (10 :: int)"
  shows "uint (of_int (48 + d) :: u8) = 48 + d" "48 \<le> (of_int (48 + d) :: u8)" "(of_int (48 + d) :: u8) \<le> 57"
proof -
  show u: "uint (of_int (48 + d) :: u8) = 48 + d"
    using assms by (simp add: uint_word_of_int take_bit_eq_mod del: of_int_add)
  show "48 \<le> (of_int (48 + d) :: u8)" "(of_int (48 + d) :: u8) \<le> 57"
    using assms unfolding word_le_def u by simp_all
qed

lemma digits_decimal:
  "0 \<le> x \<Longrightarrow> x < 10 ^ k \<Longrightarrow> x < 2 ^ 64 \<Longrightarrow> 0 < k \<Longrightarrow>
   decimal 0 (digits k 10 x) = Some x \<and> list_all (\<lambda>c. 48 \<le> c \<and> c \<le> 57) (digits k 10 x)"
proof (induction k arbitrary: x)
  case (Suc k)
  define c :: u8 where "c = of_int (48 + x mod 10)"
  have c: "uint c = 48 + x mod 10" "48 \<le> c" "c \<le> 57"
    unfolding c_def by (rule digit_char; simp)+
  have d: "digits (Suc k) 10 x = (if x < 10 then [] else digits k 10 (x div 10)) @ [c]"
    by (simp add: c_def Let_def)
  show ?case
  proof (cases "x < 10")
    case True
    then show ?thesis using Suc.prems c unfolding d by simp
  next
    case False
    have "x div 10 < 10 ^ k" using Suc.prems(2) by simp
    moreover from this False have "0 < k" by (cases k) simp_all
    ultimately have "decimal 0 (digits k 10 (x div 10)) = Some (x div 10) \<and>
        list_all (\<lambda>c. 48 \<le> c \<and> c \<le> 57) (digits k 10 (x div 10))"
      using Suc.IH [of "x div 10"] Suc.prems False by simp
    moreover have "x div 10 * 10 + x mod 10 = x" by simp
    ultimately show ?thesis using False Suc.prems c unfolding d
      by (simp add: decimal_append)
  qed
qed simp

lemma u64_to_string:
  "parse_u64 (u64_to_string n) = Some n" "visible (u64_to_string n)" "u64_to_string n \<noteq> []"
proof -
  have b: "0 \<le> uint n" "uint n < 2 ^ 64" "uint n < 10 ^ 20"
    using uint_bounded [of n] by simp_all
  have d: "decimal 0 (u64_to_string n) = Some (uint n)" and r: "list_all (\<lambda>c. 48 \<le> c \<and> c \<le> 57) (u64_to_string n)"
    using digits_decimal [OF b(1) b(3) b(2)] by (simp_all add: u64_to_string_def)
  show ne: "u64_to_string n \<noteq> []" by (simp add: u64_to_string_def eval_nat_numeral)
  show "visible (u64_to_string n)"
    using r by (rule list.pred_mono_strong) (auto simp: word_le_nat_alt)
  have "hd (u64_to_string n) \<noteq> 43"
    using r ne by (cases "u64_to_string n") (auto simp: word_le_nat_alt)
  then show "parse_u64 (u64_to_string n) = Some n"
    using d ne by (cases "u64_to_string n") (simp_all add: parse_u64_def)
qed

lemma hex_token:
  assumes "hex_ok hx" "length bs = 32"
  shows "valid_token (hx_encode hx bs)"
  using assms by (simp add: hex_ok_def valid_token_def)

lemma parse_registration_command:
  assumes hx: "hex_ok hx" and pin: "length pin = 32" and token: "valid_token token"
  shows "parse_command (registration_command hx pin token ts nonce) =
    RegisterReverse (hx_encode hx pin) token (u64_to_string ts) (u64_to_string nonce)"
proof -
  have v: "valid_token (hx_encode hx pin)" by (rule hex_token [OF hx pin])
  have "registration_command hx pin token ts nonce =
     ascii ''REGISTER_REVERSE'' @ ascii '' '' @ hx_encode hx pin @ ascii '' '' @ token @ ascii '' '' @
     u64_to_string ts @ ascii '' '' @ u64_to_string nonce"
    by (simp add: registration_command_def ascii_def)
  moreover have "visible (ascii ''REGISTER_REVERSE'')" "ascii ''REGISTER_REVERSE'' \<noteq> []"
    by (simp_all add: ascii_def word_le_nat_alt)
  ultimately have "split_whitespace (registration_command hx pin token ts nonce) =
      [ascii ''REGISTER_REVERSE'', hx_encode hx pin, token, u64_to_string ts, u64_to_string nonce]"
    using valid_token_visible [OF v] valid_token_visible [OF token] u64_to_string(2,3)
    by (simp add: split_whitespace_def words_next words_last del: words_from.simps)
  then show ?thesis using v token by (simp add: parse_command_def valid_node_def)
qed

lemma parse_connect_command:
  assumes "valid_token node" "valid_token token"
  shows "parse_command (connect_command node token) = ConnectReverse node token"
proof -
  have "connect_command node token = ascii ''CONNECT_REVERSE'' @ ascii '' '' @ node @ ascii '' '' @ token"
    by (simp add: connect_command_def ascii_def)
  moreover have "visible (ascii ''CONNECT_REVERSE'')" "ascii ''CONNECT_REVERSE'' \<noteq> []"
    by (simp_all add: ascii_def word_le_nat_alt)
  ultimately have "split_whitespace (connect_command node token) = [ascii ''CONNECT_REVERSE'', node, token]"
    using valid_token_visible [OF assms(1)] valid_token_visible [OF assms(2)]
    by (simp add: split_whitespace_def words_next words_last del: words_from.simps)
  then show ?thesis using assms by (simp add: parse_command_def valid_node_def)
qed

text \<open>A proof made by the owner of the node over the challenge of its own channel is accepted.\<close>

lemma honest_authenticated:
  assumes ok: "sigs_ok sg" "hex_ok hx" and zero: "verifying_key sg identity \<noteq> replicate 32 0"
    and sign: "identity_sign sg identity (registration_message (lo_command lo) (lo_challenge lo) exporter) = Inr pf"
    and node: "lo_node lo = hx_encode hx (verifying_key sg identity)"
  shows "authenticated sg hx lo (hx_encode hx pf) exporter \<and> length (hx_encode hx pf) = PROOF_SIZE * 2"
proof -
  have hex: "hx_decode hx (hx_encode hx bs) = Some bs" "length (hx_encode hx bs) = 2 * length bs" for bs
    using ok(2) by (simp_all add: hex_ok_def)
  have l: "length (verifying_key sg identity) = 32"
    using ok(1) by (simp add: sigs_ok_def verifying_key_def fingerprint_def)
  from identity_sign_verify_aux [OF ok(1) sign] have "length pf = PROOF_SIZE"
    by (auto simp: verify_strict_def Signature_public_key_def ebind_eq_Inr split: if_splits)
  then show ?thesis
    using identity_sign_verify_aux [OF ok(1) sign] zero
    by (simp add: authenticated_def node hex l VerifyingKey_from_bytes_def Signature_from_slice_def ebind_def is_ok_def)
qed

lemma serves_run:
  assumes "sigs_ok (te_sigs te)" "hex_ok (te_hex te)" "verifying_key (te_sigs te) identity \<noteq> replicate 32 0"
    and "valid_token token" "command = registration_command (te_hex te) (verifying_key (te_sigs te) identity) token ts nonce"
    and "node = hx_encode (te_hex te) (verifying_key (te_sigs te) identity)"
    and "verify_pow (sg_sha256 (te_sigs te)) node ts nonce (te_difficulty te) now"
    and "identity_sign (te_sigs te) identity (registration_message command challenge exporter) = Inr pf"
    and "task r tk = Fresh" "task c tk = Fresh" "c \<noteq> r" "tk_budget tk \<noteq> 0" "tk_waiting tk \<noteq> 0"
    and "map_of (tk_directory tk) node = None" "\<not> snd (check_and_record node nonce now (tk_registry tk))"
  shows "\<exists>tk'. tracker_run te [Command r command now challenge dl, ProofArrives r (hx_encode (te_hex te) pf) exporter, Lock r wid,
        Command c (connect_command node token) now' challenge' True, Cleanup r] tk =
      (tk', [Reply r (ascii ''AUTH_CHALLENGE '' @ hx_encode (te_hex te) challenge), Reply r (ascii ''REGISTERED''),
             Reply r (ascii ''READY''), Handoff c r, Reply c (ascii ''OK'')])
    \<and> map_of (tk_directory tk') node = None \<and> tk_budget tk' = tk_budget tk \<and> tk_waiting tk' = tk_waiting tk"
proof -
  define lo where "lo = \<lparr>lo_command = command, lo_node = node, lo_token = token, lo_nonce = u64_to_string nonce,
    lo_now = now, lo_challenge = challenge\<rparr>"
  have pin: "length (verifying_key (te_sigs te) identity) = 32"
    using assms(1) by (simp add: sigs_ok_def verifying_key_def fingerprint_def)
  have parse: "parse_command command = RegisterReverse node token (u64_to_string ts) (u64_to_string nonce)"
    unfolding assms(5,6) by (rule parse_registration_command [OF assms(2) pin assms(4)])
  have connect: "parse_command (connect_command node token) = ConnectReverse node token"
    by (rule parse_connect_command [OF _ assms(4)]) (simp add: assms(6) hex_token [OF assms(2) pin])
  have auth: "authenticated (te_sigs te) (te_hex te) lo (hx_encode (te_hex te) pf) exporter"
      "length (hx_encode (te_hex te) pf) = PROOF_SIZE * 2"
    using honest_authenticated [OF assms(1-3), of lo exporter pf] assms(6,8) by (simp_all add: lo_def)
  obtain registry where registry: "check_and_record node nonce now (tk_registry tk) = (registry, False)"
    using assms(15) by (cases "check_and_record node nonce now (tk_registry tk)") simp
  define tk1 where "tk1 = set_task r (Challenged lo) (tk\<lparr>tk_budget := tk_budget tk - 1\<rparr>)"
  have 1: "tracker_step te (Command r command now challenge dl) tk =
      (tk1, [Reply r (ascii ''AUTH_CHALLENGE '' @ hx_encode (te_hex te) challenge)])"
    using assms(7,9,12) by (simp add: parse register_begin_def u64_to_string tk1_def lo_def)
  define tk2 where "tk2 = set_task r (Proved lo (hx_encode (te_hex te) pf) exporter)
      (tk1\<lparr>tk_budget := tk_budget tk, tk_registry := registry, tk_waiting := tk_waiting tk - 1\<rparr>)"
  have 2: "tracker_step te (ProofArrives r (hx_encode (te_hex te) pf) exporter) tk1 = (tk2, [])"
    using assms(12,13) registry auth by (simp add: tk1_def register_prove_def Let_def tk2_def u64_to_string lo_def)
  define w where "w = \<lparr>wt_id = wid, wt_task = r\<rparr>"
  define tk3 where "tk3 = set_task r (Registered lo (hx_encode (te_hex te) pf) exporter wid)
      (tk2\<lparr>tk_directory := AList.update node \<lparr>en_token = token, en_waiting = [w]\<rparr> (tk_directory tk)\<rparr>)"
  have 3: "tracker_step te (Lock r wid) tk2 = (tk3, [Reply r (ascii ''REGISTERED'')])"
    using assms(14) by (simp add: tk2_def tk1_def register_insert_def tk3_def lo_def w_def tokens_match_def size_defs)
  define tk4 where "tk4 = set_task c Ended (set_task r (Leaving lo wid)
      (tk3\<lparr>tk_directory := AList.update node \<lparr>en_token = token, en_waiting = []\<rparr> (tk_directory tk3)\<rparr>))"
  have 4: "tracker_step te (Command c (connect_command node token) now' challenge' True) tk3 =
      (tk4, [Reply r (ascii ''READY''), Handoff c r, Reply c (ascii ''OK'')])"
    using assms(10,11) by (simp add: connect connect_reverse_def tk3_def tk2_def tk1_def tokens_match_def update_conv' w_def Let_def tk4_def)
  have 5: "tracker_step te (Cleanup r) tk4 = (register_end r lo wid tk4, [])"
    using assms(11) by (simp add: tk4_def)
  have "map_of (tk_directory (register_end r lo wid tk4)) node = None"
    "tk_budget (register_end r lo wid tk4) = tk_budget tk" "tk_waiting (register_end r lo wid tk4) = tk_waiting tk"
    using assms(13) by (simp_all add: register_end_def tk4_def tk3_def tk2_def tk1_def lo_def update_conv' delete_conv' Let_def)
  then show ?thesis by (simp add: 1 2 3 4 5 del: tracker_step.simps)
qed

text \<open>
  C35. An honest registration is served. When the owner of a node registers with a solved puzzle
  and signs the challenge, and the tracker has a free proof permit and a free waiting permit, has
  no entry for the node yet and has not seen the nonce, then the relay is told that it is
  registered; and the first client that then asks for the node with the same token is handed
  that relay, both sides being told so, and the node's entry is gone again after the relay's
  task has cleaned up.
\<close>

theorem tracker_serves:
  assumes "sigs_ok (te_sigs te)" "hex_ok (te_hex te)" "verifying_key (te_sigs te) identity \<noteq> replicate 32 0"
    and "valid_token token" "command = registration_command (te_hex te) (verifying_key (te_sigs te) identity) token ts nonce"
    and "node = hx_encode (te_hex te) (verifying_key (te_sigs te) identity)"
    and "verify_pow (sg_sha256 (te_sigs te)) node ts nonce (te_difficulty te) now"
    and "identity_sign (te_sigs te) identity (registration_message command challenge exporter) = Inr pf"
    and "task r tk = Fresh" "task c tk = Fresh" "c \<noteq> r" "tk_budget tk \<noteq> 0" "tk_waiting tk \<noteq> 0"
    and "map_of (tk_directory tk) node = None" "\<not> snd (check_and_record node nonce now (tk_registry tk))"
  shows "\<exists>tk'. tracker_run te [Command r command now challenge dl, ProofArrives r (hx_encode (te_hex te) pf) exporter, Lock r wid,
        Command c (connect_command node token) now' challenge' True, Cleanup r] tk =
      (tk', [Reply r (ascii ''AUTH_CHALLENGE '' @ hx_encode (te_hex te) challenge), Reply r (ascii ''REGISTERED''),
             Reply r (ascii ''READY''), Handoff c r, Reply c (ascii ''OK'')])
    \<and> map_of (tk_directory tk') node = None \<and> tk_budget tk' = tk_budget tk \<and> tk_waiting tk' = tk_waiting tk"
  using assms by (rule serves_run)

section \<open>Witnesses\<close>

definition lower_env :: tracker_env where
  "lower_env = \<lparr>te_sigs = fit_sigs, te_hex = lower_hex, te_difficulty = 0\<rparr>"

abbreviation "token_w \<equiv> replicate 64 (48 :: u8)"
abbreviation "relay_node_w \<equiv> hx_encode lower_hex (verifying_key fit_sigs key_a)"
abbreviation "command_w \<equiv> registration_command lower_hex (verifying_key fit_sigs key_a) token_w 1000 7"
abbreviation "message_w \<equiv> registration_message command_w (replicate 32 5) (replicate 32 6)"

abbreviation events_w :: "bytes \<Rightarrow> tracker_event list" where
  "events_w pf \<equiv> [Command 1 command_w 1000 (replicate 32 5) True, ProofArrives 1 (hx_encode lower_hex pf) (replicate 32 6), Lock 1 9,
    Command 2 (connect_command relay_node_w token_w) 1001 [] True, Cleanup 1]"

abbreviation outs_w :: "tracker_out list" where
  "outs_w \<equiv> [Reply 1 (ascii ''AUTH_CHALLENGE '' @ hx_encode lower_hex (replicate 32 5)), Reply 1 (ascii ''REGISTERED''),
    Reply 1 (ascii ''READY''), Handoff 2 1, Reply 2 (ascii ''OK'')]"

lemma length_digits: "length (digits k r x) \<le> k"
  by (induction k arbitrary: x) (simp_all add: Let_def)

lemma proof_w: "\<exists>pf. identity_sign fit_sigs key_a message_w = Inr pf"
proof -
  have "length (hx_encode lower_hex (verifying_key fit_sigs key_a)) = 64"
    using hex_ok_lower by (simp add: hex_ok_def verifying_key_def fingerprint_def fit_sigs_def)
  then have "length message_w \<le> MAX_MESSAGE"
    using length_digits [of 20 10 1000] length_digits [of 20 10 7]
    by (simp add: registration_message_def registration_command_def u64_to_string_def REGISTRATION_LABEL_def size_defs)
  then show ?thesis using identity_sign_Inr [of message_w fit_sigs key_a] by (simp add: is_ok_iff)
qed

lemma hypotheses_w:
  "sigs_ok (te_sigs lower_env)" "hex_ok (te_hex lower_env)" "verifying_key (te_sigs lower_env) key_a \<noteq> replicate 32 0"
  "valid_token token_w" "command_w = registration_command (te_hex lower_env) (verifying_key (te_sigs lower_env) key_a) token_w 1000 7"
  "relay_node_w = hx_encode (te_hex lower_env) (verifying_key (te_sigs lower_env) key_a)"
  "verify_pow (sg_sha256 (te_sigs lower_env)) relay_node_w 1000 7 (te_difficulty lower_env) 1000"
  "task 1 tracker_start = Fresh" "task 2 tracker_start = Fresh" "(2 :: nat) \<noteq> 1" "tk_budget tracker_start \<noteq> 0" "tk_waiting tracker_start \<noteq> 0"
  "map_of (tk_directory tracker_start) relay_node_w = None" "\<not> snd (check_and_record relay_node_w 7 1000 (tk_registry tracker_start))"
proof -
  have l: "length relay_node_w = 64"
    using hex_ok_lower by (simp add: hex_ok_def verifying_key_def fingerprint_def fit_sigs_def)
  then have "relay_node_w \<noteq> []" by force
  with l show "\<not> snd (check_and_record relay_node_w 7 1000 (tk_registry tracker_start))"
    by (simp add: check_and_record_def tracker_start_def NonceRegistry_new_def purge_def size_defs)
  show "verifying_key (te_sigs lower_env) key_a \<noteq> replicate 32 0"
    by (simp add: lower_env_def verifying_key_def fingerprint_def fit_sigs_def fit_def ascii_def Cons_replicate_eq)
qed (simp_all add: lower_env_def sigs_ok_fit hex_ok_lower valid_token_def list_all_iff verify_pow_def abs_diff_def task_def
      tracker_start_def size_defs)


theorem tracker_serves_witness:
  "\<exists>pf tk. tracker_run lower_env (events_w pf) tracker_start = (tk, outs_w) \<and> map_of (tk_directory tk) relay_node_w = None"
proof -
  obtain pf where pf: "identity_sign fit_sigs key_a message_w = Inr pf" using proof_w by blast
  then show ?thesis
    using tracker_serves [OF hypotheses_w(1-7) _ hypotheses_w(8-14), of "replicate 32 5" "replicate 32 6" pf True 9 1001 "[]"]
    by (auto simp: lower_env_def)
qed

end
