(* ===== verification/Authority.thy ===== *)
theory Authority
  imports Consensus Sybil Storage Hex
begin

text \<open>
  A directory authority, \<open>src/src/mesh/authority.rs\<close>: registration of relays, exchange of
  registrations with the other authorities, the one vote an authority casts per epoch and keeps
  on disk, and the cross-check that collects the signatures of the others. One task serves each
  connection; it gives up the processor while it waits for other authorities, so the model cuts
  the handlers there, and a task between two pieces is its local variables. JSON is third-party
  code and a parameter of type \<open>auth_json\<close>. A \<open>HashMap\<close> is an association list with different
  keys, iterated in list order.
\<close>

section \<open>State\<close>

definition RELAY_TTL_SECS :: nat where [size_defs]: "RELAY_TTL_SECS = 7200"
definition VOTES_LIMIT :: nat where [size_defs]: "VOTES_LIMIT = 64 * 1024 * 1024"

type_synonym relay_map = "(bytes \<times> RelayDescriptor) list"

record DirectoryAuthority =
  da_revoked :: "bytes list"
  da_authority_id :: bytes
  da_signing_key :: HybridSigningKey
  da_listen_addr :: bytes
  da_active_relays :: relay_map
  da_pow_difficulty :: nat
  da_nonce_registry :: NonceRegistryState
  da_peer_authorities :: "(bytes \<times> bytes option) list"
  da_allow_unauthenticated :: bool
  da_require_usable :: bool
  da_signed_epochs :: "(u64 \<times> ConsensusDocument) list"
  da_vote_path :: "path option"

datatype auth_error =
    RetiredIdentity | BadIdentity | BadPow | DuplicateRelay | CapacityExceeded | Impersonation | NotNewer | PowReplay
  | ClockRollback | FrozenRetired | FrozenUnusable | NotUsable | CannotPersistVote | PeerUnpinned | QuorumFailed
  | SignPanic id_error

definition relay_conflicts :: "relay_map \<Rightarrow> RelayDescriptor \<Rightarrow> bool" where
  "relay_conflicts relays candidate \<longleftrightarrow>
    list_ex (\<lambda>(_, existing).
      rd_node_id existing \<noteq> rd_node_id candidate \<and>
      (rd_identity_pin existing = rd_identity_pin candidate
       \<or> length (rd_signature existing) = PROOF_SIZE \<and> length (rd_signature candidate) = PROOF_SIZE \<and>
         (subslice 8 40 (rd_signature existing) = subslice 8 40 (rd_signature candidate)
          \<or> subslice 40 PUBLIC_KEY_SIZE (rd_signature existing) = subslice 40 PUBLIC_KEY_SIZE (rd_signature candidate))
       \<or> rd_host existing = rd_host candidate \<and> rd_port existing = rd_port candidate)) relays"

definition with_difficulty :: "bytes \<Rightarrow> bytes \<Rightarrow> nat \<Rightarrow> HybridSigningKey \<Rightarrow> DirectoryAuthority" where
  "with_difficulty authority_id listen_addr difficulty key =
    \<lparr>da_revoked = [], da_authority_id = authority_id, da_signing_key = key, da_listen_addr = listen_addr,
     da_active_relays = [], da_pow_difficulty = difficulty, da_nonce_registry = NonceRegistry_new,
     da_peer_authorities = [], da_allow_unauthenticated = False, da_require_usable = False,
     da_signed_epochs = [], da_vote_path = None\<rparr>"

definition with_peer_authorities ::
  "bytes \<Rightarrow> bytes \<Rightarrow> nat \<Rightarrow> (bytes \<times> bytes option) list \<Rightarrow> HybridSigningKey \<Rightarrow> DirectoryAuthority" where
  "with_peer_authorities authority_id listen_addr difficulty peers key =
    (with_difficulty authority_id listen_addr difficulty key)\<lparr>da_peer_authorities := peers\<rparr>"

definition with_revoked_identities :: "bytes list \<Rightarrow> DirectoryAuthority \<Rightarrow> DirectoryAuthority" where
  "with_revoked_identities identities da = da\<lparr>da_revoked := identities\<rparr>"

record auth_json =
  aj_votes :: "bytes \<Rightarrow> ConsensusDocument list option"
  aj_encode :: "ConsensusDocument list \<Rightarrow> bytes"
  aj_descriptor :: "bytes \<Rightarrow> RelayDescriptor option"

definition auth_json_ok :: "auth_json \<Rightarrow> bool" where
  "auth_json_ok aj \<longleftrightarrow> (\<forall>docs. aj_votes aj (aj_encode aj docs) = Some docs)"

text \<open>The loop over the persisted votes; \<open>None\<close> is the exit of the process.\<close>

fun load_votes :: "sigs \<Rightarrow> (bytes \<times> bytes) list \<Rightarrow> (u64 \<times> ConsensusDocument) list \<Rightarrow> ConsensusDocument list \<Rightarrow>
    (u64 \<times> ConsensusDocument) list option" where
  "load_votes sg own epochs [] = Some epochs"
| "load_votes sg own epochs (doc # docs) =
    (if length (cd_relays doc) > MAX_DIRECTORY_RELAYS \<or> length (cd_signatures doc) > 16
        \<or> \<not> list_all (verify_identity sg) (cd_relays doc)
        \<or> \<not> verify_quorum sg doc own 1 (cd_valid_after doc)
        \<or> map_of epochs (cd_valid_after doc) \<noteq> None then None
     else load_votes sg own (AList.update (cd_valid_after doc) doc epochs) docs)"

text \<open>
  The start of a process. The key is loaded by the identity code; \<open>None\<close> is an exit with an error.
\<close>

definition with_persistent_key ::
  "sigs \<Rightarrow> auth_json \<Rightarrow> (call \<Rightarrow> bool) \<Rightarrow> bytes \<Rightarrow> bytes \<Rightarrow> nat \<Rightarrow> HybridSigningKey \<Rightarrow> path \<Rightarrow> fs \<Rightarrow> DirectoryAuthority option" where
  "with_persistent_key sg aj fault authority_id listen_addr difficulty key vote_path d =
    (let votes = (case read_bounded_file fault vote_path VOTES_LIMIT d of
           Inr bs \<Rightarrow> aj_votes aj bs
         | Inl NotFoundErr \<Rightarrow> Some []
         | Inl _ \<Rightarrow> None)
     in case votes of
       None \<Rightarrow> None
     | Some docs \<Rightarrow>
         if length docs > 13 then None
         else case load_votes sg [(authority_id, verifying_key sg key)] [] docs of
           None \<Rightarrow> None
         | Some epochs \<Rightarrow>
             Some ((with_difficulty authority_id listen_addr difficulty key)
               \<lparr>da_require_usable := True, da_signed_epochs := epochs, da_vote_path := Some vote_path\<rparr>))"

section \<open>The vote of an epoch\<close>

text \<open>What one use of the disk meets: the calls that fail, and the name of the temporary file.\<close>

record disk_env =
  de_fault :: "call \<Rightarrow> bool"
  de_part :: nat
  de_temp :: path

definition usable :: "RelayDescriptor list \<Rightarrow> bool" where
  "usable relays \<longleftrightarrow> \<not> (length relays < 3 \<or> \<not> list_ex rd_is_exit relays)"

definition eligible :: "sigs \<Rightarrow> DirectoryAuthority \<Rightarrow> u64 \<Rightarrow> RelayDescriptor \<Rightarrow> bool" where
  "eligible sg da now r \<longleftrightarrow>
     rd_identity_pin r \<notin> set (da_revoked da) \<and> verify_identity sg r \<and>
     rd_registered_at r \<le> now \<and> unat (now - rd_registered_at r) \<le> RELAY_TTL_SECS"

text \<open>\<open>previous.saturating_add(3600) >= epoch\<close>.\<close>

definition retained :: "u64 \<Rightarrow> u64 \<Rightarrow> bool" where
  "retained epoch previous \<longleftrightarrow> min (unat previous + 3600) (2 ^ 64 - 1) \<ge> unat epoch"

definition frozen_view ::
  "sigs \<Rightarrow> auth_json \<Rightarrow> disk_env \<Rightarrow> u64 \<Rightarrow> RelayDescriptor list \<Rightarrow> DirectoryAuthority \<Rightarrow> fs \<Rightarrow>
   DirectoryAuthority \<times> fs \<times> (auth_error + ConsensusDocument)" where
  "frozen_view sg aj de now relays da d =
    (let epoch = (now div 300) * 300; votes = da_signed_epochs da in
     if list_ex (\<lambda>(previous, _). previous > epoch) votes then (da, d, Inl ClockRollback)
     else case map_of votes epoch of
       Some doc \<Rightarrow>
         if list_ex (\<lambda>r. rd_identity_pin r \<in> set (da_revoked da)) (cd_relays doc) then (da, d, Inl FrozenRetired)
         else if da_require_usable da \<and> \<not> usable (cd_relays doc) then (da, d, Inl FrozenUnusable)
         else (da, d, Inr doc)
     | None \<Rightarrow>
         if length relays > MAX_DIRECTORY_RELAYS then (da, d, Inl CapacityExceeded)
         else
           let relays = filter (eligible sg da now) relays in
           if da_require_usable da \<and> \<not> usable relays then (da, d, Inl NotUsable)
           else case sign_with_authority sg (da_authority_id da) (da_signing_key da)
               (ConsensusDocument_new epoch (epoch + 600) relays) of
             Inl e \<Rightarrow> (da, d, Inl (SignPanic e))
           | Inr doc \<Rightarrow>
               let next = AList.update epoch doc (filter (\<lambda>(previous, _). retained epoch previous) votes) in
               (case da_vote_path da of
                  None \<Rightarrow> (da\<lparr>da_signed_epochs := next\<rparr>, d, Inr doc)
                | Some p \<Rightarrow>
                    (case atomic_write (de_fault de) (de_part de) (de_temp de) p (aj_encode aj (map snd next)) d of
                       (Inl _, d) \<Rightarrow> (da, d, Inl CannotPersistVote)
                     | (Inr _, d) \<Rightarrow> (da\<lparr>da_signed_epochs := next\<rparr>, d, Inr doc))))"

section \<open>Registration\<close>

definition register_relay :: "sigs \<Rightarrow> u64 \<Rightarrow> RelayDescriptor \<Rightarrow> DirectoryAuthority \<Rightarrow> DirectoryAuthority \<times> (auth_error + unit)" where
  "register_relay sg now desc da =
    (if rd_identity_pin desc \<in> set (da_revoked da) then (da, Inl RetiredIdentity)
     else if \<not> verify_identity sg desc then (da, Inl BadIdentity)
     else if \<not> verify_pow (sg_sha256 sg) (rd_node_id desc) (rd_registered_at desc) (rd_pow_nonce desc) (da_pow_difficulty da) now
       then (da, Inl BadPow)
     else if relay_conflicts (da_active_relays da) desc then (da, Inl DuplicateRelay)
     else if map_of (da_active_relays da) (rd_node_id desc) = None \<and> length (da_active_relays da) \<ge> MAX_DIRECTORY_RELAYS
       then (da, Inl CapacityExceeded)
     else case (case map_of (da_active_relays da) (rd_node_id desc) of
         None \<Rightarrow> Inr ()
       | Some existing \<Rightarrow>
           if rd_identity_pin existing \<noteq> rd_identity_pin desc then Inl Impersonation
           else if rd_registered_at desc \<le> rd_registered_at existing then Inl NotNewer
           else Inr ()) of
       Inl e \<Rightarrow> (da, Inl e)
     | Inr _ \<Rightarrow>
         let (registry, replay) = check_and_record (rd_node_id desc) (rd_pow_nonce desc) now (da_nonce_registry da);
             da = da\<lparr>da_nonce_registry := registry\<rparr>
         in if replay then (da, Inl PowReplay)
         else (da\<lparr>da_active_relays := AList.update (rd_node_id desc) desc (da_active_relays da)\<rparr>, Inr ()))"

text \<open>The two evictions: the periodic one, and the one before a snapshot.\<close>

definition evict_periodic :: "u64 \<Rightarrow> DirectoryAuthority \<Rightarrow> DirectoryAuthority" where
  "evict_periodic now da =
    da\<lparr>da_active_relays := filter (\<lambda>(_, r). unat now - unat (rd_registered_at r) < RELAY_TTL_SECS) (da_active_relays da)\<rparr>"

definition evict_stale :: "u64 \<Rightarrow> DirectoryAuthority \<Rightarrow> DirectoryAuthority" where
  "evict_stale now da =
    da\<lparr>da_active_relays := filter (\<lambda>(_, r). \<not> unat now - unat (rd_registered_at r) > RELAY_TTL_SECS) (da_active_relays da)\<rparr>"

section \<open>Reconciliation with the other authorities\<close>

text \<open>One descriptor of a list another authority sent, at the time \<open>now\<close>.\<close>

definition gossip :: "sigs \<Rightarrow> DirectoryAuthority \<Rightarrow> u64 \<Rightarrow> RelayDescriptor \<Rightarrow> relay_map \<Rightarrow> relay_map" where
  "gossip sg da now desc local =
    (if relay_conflicts local desc then local
     else if map_of local (rd_node_id desc) = None \<and> length local \<ge> MAX_DIRECTORY_RELAYS then local
     else if rd_identity_pin desc \<notin> set (da_revoked da) \<and> verify_identity sg desc then
       (if \<not> verify_pow (sg_sha256 sg) (rd_node_id desc) (rd_registered_at desc) (rd_pow_nonce desc) (da_pow_difficulty da) now
        then local
        else case map_of local (rd_node_id desc) of
          Some existing \<Rightarrow>
            if rd_identity_pin desc \<noteq> rd_identity_pin existing then local
            else if rd_registered_at desc > rd_registered_at existing then AList.update (rd_node_id desc) desc local
            else local
        | None \<Rightarrow> AList.update (rd_node_id desc) desc local)
     else local)"

text \<open>The answers of the peers, each with the time it is looked at; \<open>None\<close> is a failure or a timeout.\<close>

definition gossip_all ::
  "sigs \<Rightarrow> DirectoryAuthority \<Rightarrow> (u64 \<times> RelayDescriptor list option) list \<Rightarrow> relay_map \<Rightarrow> relay_map" where
  "gossip_all sg da replies local =
    fold (\<lambda>(now, list). case list of None \<Rightarrow> id | Some descs \<Rightarrow> fold (gossip sg da now) descs) replies local"

text \<open>The peers that are asked.\<close>

definition reconcile_peers :: "DirectoryAuthority \<Rightarrow> (bytes \<times> bytes option) list" where
  "reconcile_peers da =
    filter (\<lambda>(peer, key). peer \<noteq> da_listen_addr da \<and> (key \<noteq> None \<or> da_allow_unauthenticated da)) (da_peer_authorities da)"

definition reconcile_local :: "DirectoryAuthority \<Rightarrow> relay_map" where
  "reconcile_local da = filter (\<lambda>(_, r). rd_identity_pin r \<notin> set (da_revoked da)) (da_active_relays da)"

definition persist_one :: "bytes \<times> RelayDescriptor \<Rightarrow> relay_map \<Rightarrow> relay_map" where
  "persist_one kv active =
    (let (i, desc) = kv in
     if relay_conflicts active desc then active
     else if (case map_of active i of None \<Rightarrow> False | Some existing \<Rightarrow> rd_identity_pin existing \<noteq> rd_identity_pin desc) then active
     else if map_of active i = None \<and> length active \<ge> MAX_DIRECTORY_RELAYS then active
     else if (case map_of active i of None \<Rightarrow> False | Some existing \<Rightarrow> rd_registered_at existing \<ge> rd_registered_at desc) then active
     else AList.update i desc active)"

definition reconcile_persist :: "relay_map \<Rightarrow> DirectoryAuthority \<Rightarrow> DirectoryAuthority \<times> RelayDescriptor list" where
  "reconcile_persist local da =
    (let active = fold persist_one local (reconcile_local da) in
     (da\<lparr>da_active_relays := active\<rparr>, map snd active))"

section \<open>The cross-check\<close>

fun cross_checks :: "sigs \<Rightarrow> bytes \<Rightarrow> bytes list \<Rightarrow> (bytes option \<times> AuthoritySignature option) list \<Rightarrow>
    AuthoritySignature list \<Rightarrow> AuthoritySignature list" where
  "cross_checks sg dg received [] signatures = signatures"
| "cross_checks sg dg received ((pinned, answer) # rest) signatures =
    (case (answer, pinned) of
       (Some peer_sig, Some pubkey) \<Rightarrow>
         (case Signature_from_slice (as_signature_bytes peer_sig) of
            Inr pf \<Rightarrow>
              if is_ok (verify_strict sg pubkey dg pf) \<and> pubkey \<notin> set received
              then cross_checks sg dg (pubkey # received) rest (signatures @ [peer_sig])
              else cross_checks sg dg received rest signatures
          | Inl _ \<Rightarrow> cross_checks sg dg received rest signatures)
     | _ \<Rightarrow> cross_checks sg dg received rest signatures)"

definition cross_peers :: "DirectoryAuthority \<Rightarrow> (bytes \<times> bytes option) list" where
  "cross_peers da = filter (\<lambda>(peer, _). peer \<noteq> da_listen_addr da) (da_peer_authorities da)"

definition independent :: "sigs \<Rightarrow> DirectoryAuthority \<Rightarrow> bytes set" where
  "independent sg da = insert (verifying_key sg (da_signing_key da)) (set (List.map_filter snd (da_peer_authorities da)))"

definition required_signatures :: "sigs \<Rightarrow> DirectoryAuthority \<Rightarrow> nat" where
  "required_signatures sg da = (2 * card (independent sg da)) div 3 + 1"

text \<open>The part of \<open>generate_consensus\<close> after the vote; \<open>answers\<close> are those of \<open>cross_peers\<close>.\<close>

definition finish_consensus ::
  "sigs \<Rightarrow> DirectoryAuthority \<Rightarrow> AuthoritySignature option list \<Rightarrow> ConsensusDocument \<Rightarrow> auth_error + ConsensusDocument" where
  "finish_consensus sg da answers consensus =
    (if list_ex (\<lambda>(_, key). key = None) (da_peer_authorities da) then Inl PeerUnpinned
     else
       let digest = compute_digest sg consensus;
           signatures = cross_checks sg digest [verifying_key sg (da_signing_key da)]
             (zip (map snd (cross_peers da)) answers) (cd_signatures consensus)
       in if length signatures \<ge> required_signatures sg da then Inr (consensus\<lparr>cd_signatures := signatures\<rparr>)
          else Inl QuorumFailed)"

section \<open>Requests\<close>

text \<open>\<open>String::from_utf8_lossy\<close>: whether the text begins with a character, and how many bytes that
  character, or the malformed sequence in its place, takes.\<close>

fun utf8_head :: "bytes \<Rightarrow> bool \<times> nat" where
  "utf8_head [] = (True, 0)"
| "utf8_head (a # as) =
    (if a < 0x80 then (True, 1)
     else if 0xC2 \<le> a \<and> a \<le> 0xDF then
       (case as of b # _ \<Rightarrow> if utf8_cont b then (True, 2) else (False, 1) | [] \<Rightarrow> (False, 1))
     else if 0xE0 \<le> a \<and> a \<le> 0xEF then
       (case as of b # bs \<Rightarrow>
          if \<not> utf8_second3 a b then (False, 1)
          else (case bs of c # _ \<Rightarrow> if utf8_cont c then (True, 3) else (False, 2) | [] \<Rightarrow> (False, 2))
        | [] \<Rightarrow> (False, 1))
     else if 0xF0 \<le> a \<and> a \<le> 0xF4 then
       (case as of b # bs \<Rightarrow>
          if \<not> utf8_second4 a b then (False, 1)
          else (case bs of c # cs \<Rightarrow>
             if \<not> utf8_cont c then (False, 2)
             else (case cs of d # _ \<Rightarrow> if utf8_cont d then (True, 4) else (False, 3) | [] \<Rightarrow> (False, 3))
           | [] \<Rightarrow> (False, 2))
        | [] \<Rightarrow> (False, 1))
     else (False, 1))"

fun from_utf8_lossy :: "bytes \<Rightarrow> bytes" where
  "from_utf8_lossy [] = []"
| "from_utf8_lossy (a # as) =
    (let (ok, n) = utf8_head (a # as) in
     (if ok then take n (a # as) else [0xEF, 0xBF, 0xBD]) @ from_utf8_lossy (drop (n - 1) as))"

datatype auth_request =
    GetConsensus | GetRelayList | BftCrossCheck bytes | RegisterRelay bytes | UnknownRequest

definition parse_request :: "bytes \<Rightarrow> auth_request" where
  "parse_request frame =
    (let txt = from_utf8_lossy frame in
     if take 13 txt = ascii ''GET_CONSENSUS'' then GetConsensus
     else if take 14 txt = ascii ''GET_RELAY_LIST'' then GetRelayList
     else if take 16 txt = ascii ''BFT_CROSS_CHECK '' then BftCrossCheck (drop 16 txt)
     else if take 15 txt = ascii ''REGISTER_RELAY '' then RegisterRelay (drop 15 txt)
     else UnknownRequest)"

text \<open>What a connection sends, before JSON and framing.\<close>

datatype auth_out =
    Published nat ConsensusDocument
  | Listed nat "RelayDescriptor list"
  | Cosigned nat AuthoritySignature
  | Answered nat bytes

datatype auth_goal = ForConsensus | ForCrossCheck bytes

datatype auth_task =
    AtRest
  | Reconciling auth_goal relay_map
  | Reconciled auth_goal "RelayDescriptor list"
  | CrossChecking ConsensusDocument

record auth_node =
  no_authority :: "DirectoryAuthority option"
  no_tasks :: "(nat \<times> auth_task) list"
  no_disk :: fs

definition task_of :: "nat \<Rightarrow> auth_node \<Rightarrow> auth_task" where
  "task_of h n = (case map_of (no_tasks n) h of None \<Rightarrow> AtRest | Some t \<Rightarrow> t)"

definition put_task :: "nat \<Rightarrow> auth_task \<Rightarrow> auth_node \<Rightarrow> auth_node" where
  "put_task h t n = n\<lparr>no_tasks := AList.update h t (no_tasks n)\<rparr>"

text \<open>A request frame, up to the first wait for the other authorities.\<close>

definition on_request ::
  "sigs \<Rightarrow> auth_json \<Rightarrow> nat \<Rightarrow> bytes \<Rightarrow> u64 \<Rightarrow> DirectoryAuthority \<Rightarrow> auth_node \<Rightarrow> auth_node \<times> auth_out list" where
  "on_request sg aj h frame now da n =
    (case parse_request frame of
       GetConsensus \<Rightarrow>
         let da = evict_stale now da in
         (put_task h (Reconciling ForConsensus (reconcile_local da)) (n\<lparr>no_authority := Some da\<rparr>), [])
     | GetRelayList \<Rightarrow> (n, [Listed h (map snd (da_active_relays da))])
     | BftCrossCheck digest_hex \<Rightarrow> (put_task h (Reconciling (ForCrossCheck digest_hex) (reconcile_local da)) n, [])
     | RegisterRelay json_part \<Rightarrow>
         (case aj_descriptor aj json_part of
            None \<Rightarrow> (n, [Answered h (ascii ''ERROR_MALFORMED_JSON'')])
          | Some desc \<Rightarrow>
              let (da, result) = register_relay sg now desc da in
              (n\<lparr>no_authority := Some da\<rparr>,
               [Answered h (ascii (if is_ok result then ''OK_REGISTERED'' else ''ERROR_REGISTRATION_REJECTED''))]))
     | UnknownRequest \<Rightarrow> (n, []))"

text \<open>The answers of the peers are in.\<close>

definition on_lists ::
  "sigs \<Rightarrow> nat \<Rightarrow> (u64 \<times> RelayDescriptor list option) list \<Rightarrow> auth_goal \<Rightarrow> relay_map \<Rightarrow> DirectoryAuthority \<Rightarrow> auth_node \<Rightarrow> auth_node" where
  "on_lists sg h replies goal local da n =
    (let (da, relays) = reconcile_persist (gossip_all sg da replies local) da in
     put_task h (Reconciled goal relays) (n\<lparr>no_authority := Some da\<rparr>))"

text \<open>The vote, under the lock of the signed epochs.\<close>

definition on_vote ::
  "sigs \<Rightarrow> hexc \<Rightarrow> auth_json \<Rightarrow> nat \<Rightarrow> disk_env \<Rightarrow> u64 \<Rightarrow> auth_goal \<Rightarrow> RelayDescriptor list \<Rightarrow> DirectoryAuthority \<Rightarrow> auth_node \<Rightarrow>
   auth_node \<times> auth_out list" where
  "on_vote sg hx aj h de now goal relays da n =
    (let (da, d, result) = frozen_view sg aj de now relays da (no_disk n);
         n = n\<lparr>no_authority := Some da, no_disk := d\<rparr>
     in case (goal, result) of
       (ForConsensus, Inr doc) \<Rightarrow> (put_task h (CrossChecking doc) n, [])
     | (ForConsensus, Inl _) \<Rightarrow> (put_task h AtRest n, [Answered h (ascii ''ERROR_BFT_QUORUM_NOT_REACHED'')])
     | (ForCrossCheck digest_hex, Inr doc) \<Rightarrow>
         (put_task h AtRest n,
          if hx_encode hx (compute_digest sg doc) = digest_hex
          then (case rev (cd_signatures doc) of [] \<Rightarrow> [] | our_sig # _ \<Rightarrow> [Cosigned h our_sig])
          else [Answered h (ascii ''ERROR_DIGEST_MISMATCH'')])
     | (ForCrossCheck _, Inl _) \<Rightarrow> (put_task h AtRest n, [Answered h (ascii ''ERROR_EPOCH_STATE'')]))"

definition on_answers ::
  "sigs \<Rightarrow> nat \<Rightarrow> AuthoritySignature option list \<Rightarrow> ConsensusDocument \<Rightarrow> DirectoryAuthority \<Rightarrow> auth_node \<Rightarrow> auth_node \<times> auth_out list" where
  "on_answers sg h answers doc da n =
    (put_task h AtRest n,
     case finish_consensus sg da answers doc of
       Inr consensus \<Rightarrow> [Published h consensus]
     | Inl _ \<Rightarrow> [Answered h (ascii ''ERROR_BFT_QUORUM_NOT_REACHED'')])"

section \<open>The process\<close>

text \<open>What never changes for a deployment.\<close>

record auth_deployment =
  dp_authority_id :: bytes
  dp_listen_addr :: bytes
  dp_pow_difficulty :: nat
  dp_signing_key :: HybridSigningKey
  dp_vote_path :: path

text \<open>
  \<open>Start\<close> is a start of the process after a stop or a crash, with the retired identities, the
  configured endpoints and the peers of that start, as \<open>main\<close> sets them; it ends at once when the
  own identity is retired or is not the one configured for its name. The other events belong
  to a running process, and an event for a task in another phase is nothing.
\<close>

datatype auth_event =
    Start "call \<Rightarrow> bool" "bytes list" "(bytes \<times> bytes) list" "(bytes \<times> bytes option) list"
  | Request nat bytes u64
  | Lists nat "(u64 \<times> RelayDescriptor list option) list"
  | Vote nat disk_env u64
  | Answers nat "AuthoritySignature option list"
  | Sweep u64

definition start_node :: "sigs \<Rightarrow> auth_json \<Rightarrow> auth_deployment \<Rightarrow> (call \<Rightarrow> bool) \<Rightarrow> bytes list \<Rightarrow> (bytes \<times> bytes) list \<Rightarrow>
    (bytes \<times> bytes option) list \<Rightarrow> auth_node \<Rightarrow> auth_node" where
  "start_node sg aj dp fault revoked endpoints peers n =
    n\<lparr>no_tasks := [], no_authority :=
      (case with_persistent_key sg aj fault (dp_authority_id dp) (dp_listen_addr dp) (dp_pow_difficulty dp) (dp_signing_key dp)
          (dp_vote_path dp) (no_disk n) of
         None \<Rightarrow> None
       | Some da \<Rightarrow>
           let authority = with_revoked_identities revoked da; pin = verifying_key sg (da_signing_key authority) in
           if pin \<in> set revoked then None
           else (case find (\<lambda>(identity, _). identity = da_authority_id authority) endpoints of
               Some (_, own) \<Rightarrow> if own \<noteq> pin then None else Some (authority\<lparr>da_peer_authorities := peers\<rparr>)
             | None \<Rightarrow> Some (authority\<lparr>da_peer_authorities := peers\<rparr>)))\<rparr>"

fun auth_step :: "sigs \<Rightarrow> hexc \<Rightarrow> auth_json \<Rightarrow> auth_deployment \<Rightarrow> auth_event \<Rightarrow> auth_node \<Rightarrow> auth_node \<times> auth_out list" where
  "auth_step sg hx aj dp (Start fault revoked endpoints peers) n = (start_node sg aj dp fault revoked endpoints peers n, [])"
| "auth_step sg hx aj dp (Request h frame now) n =
    (case (no_authority n, task_of h n) of
       (Some da, AtRest) \<Rightarrow> on_request sg aj h frame now da n
     | _ \<Rightarrow> (n, []))"
| "auth_step sg hx aj dp (Lists h replies) n =
    (case (no_authority n, task_of h n) of
       (Some da, Reconciling goal local) \<Rightarrow> (on_lists sg h replies goal local da n, [])
     | _ \<Rightarrow> (n, []))"
| "auth_step sg hx aj dp (Vote h de now) n =
    (case (no_authority n, task_of h n) of
       (Some da, Reconciled goal relays) \<Rightarrow> on_vote sg hx aj h de now goal relays da n
     | _ \<Rightarrow> (n, []))"
| "auth_step sg hx aj dp (Answers h answers) n =
    (case (no_authority n, task_of h n) of
       (Some da, CrossChecking doc) \<Rightarrow> on_answers sg h answers doc da n
     | _ \<Rightarrow> (n, []))"
| "auth_step sg hx aj dp (Sweep now) n =
    (case no_authority n of Some da \<Rightarrow> (n\<lparr>no_authority := Some (evict_periodic now da)\<rparr>, []) | None \<Rightarrow> (n, []))"

fun auth_run :: "sigs \<Rightarrow> hexc \<Rightarrow> auth_json \<Rightarrow> auth_deployment \<Rightarrow> auth_event list \<Rightarrow> auth_node \<Rightarrow> auth_node \<times> auth_out list" where
  "auth_run sg hx aj dp [] n = (n, [])"
| "auth_run sg hx aj dp (e # es) n =
    (let (n, o1) = auth_step sg hx aj dp e n; (n, o2) = auth_run sg hx aj dp es n in (n, o1 @ o2))"

text \<open>A machine that has not voted yet.\<close>

definition fresh_node :: "fs \<Rightarrow> auth_node" where
  "fresh_node d = \<lparr>no_authority = None, no_tasks = [], no_disk = d\<rparr>"

section \<open>One vote per epoch\<close>

text \<open>
  The documents \<open>docs\<close> protect a vote: they contain it, or a vote of a later epoch, after which
  the epoch is closed.
\<close>

definition covers :: "ConsensusDocument list \<Rightarrow> u64 \<Rightarrow> ConsensusDocument \<Rightarrow> bool" where
  "covers docs e doc \<longleftrightarrow> doc \<in> set docs \<or> (\<exists>later \<in> set docs. cd_valid_after later > e)"

definition votes_wf :: "(u64 \<times> ConsensusDocument) list \<Rightarrow> bool" where
  "votes_wf votes \<longleftrightarrow> distinct (map fst votes) \<and> (\<forall>(e, doc) \<in> set votes. cd_valid_after doc = e)"

lemma votes_wf_get: "votes_wf votes \<Longrightarrow> doc \<in> snd ` set votes \<longleftrightarrow> map_of votes (cd_valid_after doc) = Some doc"
proof -
  assume wf: "votes_wf votes"
  have "(cd_valid_after doc, doc) \<in> set votes" if "doc \<in> snd ` set votes"
  proof -
    from that obtain e where m: "(e, doc) \<in> set votes" by auto
    moreover from wf m have "cd_valid_after doc = e" by (auto simp: votes_wf_def)
    ultimately show ?thesis by simp
  qed
  moreover have "doc \<in> snd ` set votes" if "(cd_valid_after doc, doc) \<in> set votes"
    using imageI [OF that, of snd] by simp
  ultimately show ?thesis using wf by (auto simp: votes_wf_def)
qed

lemma votes_wf_key:
  assumes "votes_wf votes" "map_of votes e = Some doc"
  shows "cd_valid_after doc = e"
  using assms(1) map_of_SomeD [OF assms(2)] by (auto simp: votes_wf_def)

definition disk_votes :: "auth_json \<Rightarrow> path \<Rightarrow> fs \<Rightarrow> ConsensusDocument list option" where
  "disk_votes aj p d = Option.bind (map_of d p) (\<lambda>f. aj_votes aj (f_bytes f))"

text \<open>\<open>vote\<close> is what the authority has put its name to so far.\<close>

definition vote_inv :: "auth_json \<Rightarrow> auth_deployment \<Rightarrow> (u64 \<rightharpoonup> ConsensusDocument) \<Rightarrow> auth_node \<Rightarrow> bool" where
  "vote_inv aj dp vote n \<longleftrightarrow>
    (\<forall>e doc. vote e = Some doc \<longrightarrow> cd_valid_after doc = e \<and>
       (\<exists>docs. disk_votes aj (dp_vote_path dp) (no_disk n) = Some docs \<and> covers docs e doc)) \<and>
    (\<forall>da. no_authority n = Some da \<longrightarrow> da_vote_path da = Some (dp_vote_path dp) \<and> votes_wf (da_signed_epochs da) \<and>
       (\<forall>e doc. vote e = Some doc \<longrightarrow> covers (map snd (da_signed_epochs da)) e doc) \<and>
       (\<forall>e doc. map_of (da_signed_epochs da) e = Some doc \<longrightarrow>
          (\<exists>docs. disk_votes aj (dp_vote_path dp) (no_disk n) = Some docs \<and> covers docs e doc))) \<and>
    (\<forall>h doc. task_of h n = CrossChecking doc \<longrightarrow> vote (cd_valid_after doc) = Some doc)"

lemma update_absent: "k \<notin> fst ` set xs \<Longrightarrow> AList.update k v xs = xs @ [(k, v)]"
  by (induction xs) auto

lemma load_votes_get:
  "load_votes sg own epochs docs = Some epochs' \<Longrightarrow> votes_wf epochs \<Longrightarrow>
   votes_wf epochs' \<and> snd ` set epochs' = snd ` set epochs \<union> set docs"
proof (induction docs arbitrary: epochs)
  case (Cons doc docs)
  let ?e = "AList.update (cd_valid_after doc) doc epochs"
  have new: "map_of epochs (cd_valid_after doc) = None" and rest: "load_votes sg own ?e docs = Some epochs'"
    using Cons.prems(1) by (auto split: if_splits)
  have "?e = epochs @ [(cd_valid_after doc, doc)]"
    using new by (intro update_absent) (simp add: map_of_eq_None_iff)
  moreover from this have "votes_wf ?e"
    using Cons.prems(2) new by (auto simp: votes_wf_def map_of_eq_None_iff)
  ultimately show ?case using Cons.IH [OF rest] by auto
qed simp

lemma start_votes:
  assumes "with_persistent_key sg aj fault i la df key p d = Some da"
  shows "da_vote_path da = Some p" "votes_wf (da_signed_epochs da)"
    "map_of d p = None \<and> da_signed_epochs da = [] \<or>
     (\<exists>docs. disk_votes aj p d = Some docs \<and> snd ` set (da_signed_epochs da) = set docs)"
proof -
  obtain docs epochs where docs: "(case read_bounded_file fault p VOTES_LIMIT d of
           Inr bs \<Rightarrow> aj_votes aj bs | Inl NotFoundErr \<Rightarrow> Some [] | Inl _ \<Rightarrow> None) = Some docs"
    and load: "load_votes sg [(i, verifying_key sg key)] [] docs = Some epochs"
    and da: "da = (with_difficulty i la df key)\<lparr>da_require_usable := True, da_signed_epochs := epochs, da_vote_path := Some p\<rparr>"
    using assms by (auto simp: with_persistent_key_def Let_def split: option.splits if_splits)
  have wf: "votes_wf epochs" "snd ` set epochs = set docs"
    using load_votes_get [OF load] by (simp_all add: votes_wf_def)
  show "da_vote_path da = Some p" "votes_wf (da_signed_epochs da)" by (simp_all add: da wf)
  show "map_of d p = None \<and> da_signed_epochs da = [] \<or>
     (\<exists>docs. disk_votes aj p d = Some docs \<and> snd ` set (da_signed_epochs da) = set docs)"
  proof (cases "read_bounded_file fault p VOTES_LIMIT d")
    case (Inl e)
    with docs have "e = NotFoundErr" "docs = []" by (auto split: storage_error.splits)
    with Inl load have "map_of d p = None" "epochs = []"
      by (auto simp: read_bounded_file_def open_regular_file_def VOTES_LIMIT_def ebind_def Let_def
          split: option.splits if_splits sum.splits)
    then show ?thesis by (simp add: da)
  next
    case (Inr bs)
    with read_bounded_fileD [OF Inr] docs have "disk_votes aj p d = Some docs" by (auto simp: disk_votes_def)
    then show ?thesis by (simp add: da wf)
  qed
qed

text \<open>The votes after a new one.\<close>

abbreviation next_votes :: "u64 \<Rightarrow> ConsensusDocument \<Rightarrow> (u64 \<times> ConsensusDocument) list \<Rightarrow> (u64 \<times> ConsensusDocument) list" where
  "next_votes epoch doc votes \<equiv> AList.update epoch doc (filter (\<lambda>(previous, _). retained epoch previous) votes)"

lemma not_retained: "\<not> retained epoch e \<Longrightarrow> e < epoch"
  using unsigned_less [of epoch, where ?'a = nat] by (auto simp: retained_def word_less_nat_alt)

lemma next_votes:
  assumes wf: "votes_wf votes" and fresh: "map_of votes epoch = None" and key: "cd_valid_after doc = epoch"
  shows "votes_wf (next_votes epoch doc votes)" "doc \<in> set (map snd (next_votes epoch doc votes))"
    and "covers (map snd votes) e x \<Longrightarrow> cd_valid_after x = e \<Longrightarrow> covers (map snd (next_votes epoch doc votes)) e x"
proof -
  let ?kept = "filter (\<lambda>(previous, _). retained epoch previous) votes"
  have "epoch \<notin> fst ` set ?kept" using fresh by (force simp: map_of_eq_None_iff)
  then have n: "next_votes epoch doc votes = ?kept @ [(epoch, doc)]"
    by (rule update_absent)
  show "votes_wf (next_votes epoch doc votes)"
    unfolding n using wf \<open>epoch \<notin> fst ` set ?kept\<close> key by (auto simp: votes_wf_def distinct_map_filter)
  show d: "doc \<in> set (map snd (next_votes epoch doc votes))" by (simp add: n)
  have kept: "y \<in> set (map snd (next_votes epoch doc votes)) \<or> cd_valid_after y < epoch" if "y \<in> snd ` set votes" for y
  proof (cases "retained epoch (cd_valid_after y)")
    case True
    have "(cd_valid_after y, y) \<in> set votes" using that votes_wf_get [OF wf, of y] map_of_SomeD by metis
    with True have "(cd_valid_after y, y) \<in> set ?kept" by simp
    then have "snd (cd_valid_after y, y) \<in> snd ` set ?kept" by (rule imageI)
    then show ?thesis unfolding n by simp
  qed (simp add: not_retained)
  show "covers (map snd (next_votes epoch doc votes)) e x" if "covers (map snd votes) e x" "cd_valid_after x = e"
  proof (cases "x \<in> set (map snd votes)")
    case True
    then show ?thesis using kept [of x] d key that(2) unfolding covers_def by auto
  next
    case False
    with that(1) obtain later where "later \<in> snd ` set votes" "e < cd_valid_after later"
      by (auto simp: covers_def)
    then show ?thesis using kept [of later] d key unfolding covers_def by (meson order_less_trans)
  qed
qed

text \<open>What \<open>frozen_view\<close> may do: nothing, lose a new vote with or without leaving it on disk, or cast it.\<close>

lemma frozen_view_cases:
  assumes fv: "frozen_view sg aj de now relays da d = (da', d', r)"
    and p: "da_vote_path da = Some p" "de_temp de \<noteq> p" and js: "auth_json_ok aj"
  obtains (same) "da' = da" "d' = d"
      "\<And>doc. r = Inr doc \<Longrightarrow> map_of (da_signed_epochs da) ((now div 300) * 300) = Some doc"
      "\<And>doc e x. r = Inr doc \<Longrightarrow> map_of (da_signed_epochs da) e = Some x \<Longrightarrow> e \<le> (now div 300) * 300"
  | (cast) doc where "map_of (da_signed_epochs da) (cd_valid_after doc) = None"
      "\<And>e x. map_of (da_signed_epochs da) e = Some x \<Longrightarrow> e \<le> cd_valid_after doc"
      "da' = da \<and> r = Inl CannotPersistVote \<and> disk_votes aj p d' = disk_votes aj p d \<or>
       da' = da \<and> r = Inl CannotPersistVote \<and> disk_votes aj p d' = Some (map snd (next_votes (cd_valid_after doc) doc (da_signed_epochs da))) \<or>
       da' = da\<lparr>da_signed_epochs := next_votes (cd_valid_after doc) doc (da_signed_epochs da)\<rparr> \<and> r = Inr doc \<and>
         disk_votes aj p d' = Some (map snd (next_votes (cd_valid_after doc) doc (da_signed_epochs da)))"
proof -
  let ?epoch = "(now div 300) * 300"
  show ?thesis
  proof (cases "list_ex (\<lambda>(previous, _). previous > ?epoch) (da_signed_epochs da)")
    case True
    then have "da' = da" "d' = d" "r = Inl ClockRollback" using fv by (simp_all add: frozen_view_def)
    then show ?thesis using same by simp
  next
    case False
    have le: "e \<le> ?epoch" if "map_of (da_signed_epochs da) e = Some x" for e x
      using map_of_SomeD [OF that] False by (auto simp: list_ex_iff not_less)
    show ?thesis
    proof (cases "map_of (da_signed_epochs da) ?epoch")
      case (Some doc)
      show ?thesis
        by (rule same) (use fv False Some le in \<open>auto simp: frozen_view_def Let_def split: if_splits\<close>)
    next
      case None
      show ?thesis
      proof (cases "\<exists>doc. sign_with_authority sg (da_authority_id da) (da_signing_key da)
           (ConsensusDocument_new ?epoch (?epoch + 600) (filter (eligible sg da now) relays)) = Inr doc \<and>
          length relays \<le> MAX_DIRECTORY_RELAYS \<and> (da_require_usable da \<longrightarrow> usable (filter (eligible sg da now) relays))")
        case False
        then have "da' = da" "d' = d" "\<And>doc. r \<noteq> Inr doc"
          using fv \<open>\<not> list_ex _ _\<close> None by (auto simp: frozen_view_def Let_def split: if_splits sum.splits)
        then show ?thesis using same by blast
      next
        case True
        then obtain doc where doc: "sign_with_authority sg (da_authority_id da) (da_signing_key da)
           (ConsensusDocument_new ?epoch (?epoch + 600) (filter (eligible sg da now) relays)) = Inr doc"
          and ok: "length relays \<le> MAX_DIRECTORY_RELAYS" "da_require_usable da \<longrightarrow> usable (filter (eligible sg da now) relays)"
          by blast
        have va: "cd_valid_after doc = ?epoch"
          using doc by (auto simp: sign_with_authority_def ebind_eq_Inr ConsensusDocument_new_def)
        let ?next = "next_votes ?epoch doc (da_signed_epochs da)"
        obtain res d1 where w: "atomic_write (de_fault de) (de_part de) (de_temp de) p (aj_encode aj (map snd ?next)) d = (res, d1)"
          by (cases "atomic_write (de_fault de) (de_part de) (de_temp de) p (aj_encode aj (map snd ?next)) d")
        have res: "d' = d1" "\<not> is_ok res \<Longrightarrow> da' = da \<and> r = Inl CannotPersistVote"
          "is_ok res \<Longrightarrow> da' = da\<lparr>da_signed_epochs := ?next\<rparr> \<and> r = Inr doc"
          using fv \<open>\<not> list_ex _ _\<close> None doc ok p(1) w
          by (auto simp: frozen_view_def Let_def is_ok_def split: if_splits sum.splits)
        have "map_of d1 p = Some (plain_file (aj_encode aj (map snd ?next))) \<or> \<not> is_ok res \<and> map_of d1 p = map_of d p"
          by (rule atomic_write_target [OF w]) (use p(2) in simp)
        then have disk: "disk_votes aj p d1 = Some (map snd ?next) \<or> \<not> is_ok res \<and> disk_votes aj p d1 = disk_votes aj p d"
          using js by (auto simp: disk_votes_def plain_file_def auth_json_ok_def)
        show ?thesis
        proof (rule cast [of doc, unfolded va])
          show "map_of (da_signed_epochs da) ?epoch = None" by (rule None)
          show "e \<le> ?epoch" if "map_of (da_signed_epochs da) e = Some x" for e x by (rule le [OF that])
          show "da' = da \<and> r = Inl CannotPersistVote \<and> disk_votes aj p d' = disk_votes aj p d \<or>
              da' = da \<and> r = Inl CannotPersistVote \<and> disk_votes aj p d' = Some (map snd ?next) \<or>
              da' = da\<lparr>da_signed_epochs := ?next\<rparr> \<and> r = Inr doc \<and> disk_votes aj p d' = Some (map snd ?next)"
            using disk res by (cases "is_ok res") auto
        qed
      qed
    qed
  qed
qed

lemma vote_invD:
  assumes "vote_inv aj dp vote n"
  shows "vote e = Some doc \<Longrightarrow> cd_valid_after doc = e"
    and "vote e = Some doc \<Longrightarrow> \<exists>docs. disk_votes aj (dp_vote_path dp) (no_disk n) = Some docs \<and> covers docs e doc"
    and "no_authority n = Some da \<Longrightarrow> da_vote_path da = Some (dp_vote_path dp)"
    and "no_authority n = Some da \<Longrightarrow> votes_wf (da_signed_epochs da)"
    and "no_authority n = Some da \<Longrightarrow> vote e = Some doc \<Longrightarrow> covers (map snd (da_signed_epochs da)) e doc"
    and "no_authority n = Some da \<Longrightarrow> map_of (da_signed_epochs da) e = Some doc \<Longrightarrow>
      \<exists>docs. disk_votes aj (dp_vote_path dp) (no_disk n) = Some docs \<and> covers docs e doc"
    and "task_of h n = CrossChecking doc \<Longrightarrow> vote (cd_valid_after doc) = Some doc"
  using assms unfolding vote_inv_def by blast+

lemma vote_inv_frame:
  assumes inv: "vote_inv aj dp vote n"
    and "disk_votes aj (dp_vote_path dp) (no_disk n') = disk_votes aj (dp_vote_path dp) (no_disk n)"
    and "\<And>da'. no_authority n' = Some da' \<Longrightarrow>
      \<exists>da. no_authority n = Some da \<and> da_signed_epochs da' = da_signed_epochs da \<and> da_vote_path da' = da_vote_path da"
    and "\<And>h doc. task_of h n' = CrossChecking doc \<Longrightarrow> vote (cd_valid_after doc) = Some doc"
  shows "vote_inv aj dp vote n'"
  unfolding vote_inv_def
proof (intro conjI allI impI)
  fix e doc
  assume v: "vote e = Some doc"
  show "cd_valid_after doc = e" by (rule vote_invD(1) [OF inv v])
  show "\<exists>docs. disk_votes aj (dp_vote_path dp) (no_disk n') = Some docs \<and> covers docs e doc"
    unfolding assms(2) by (rule vote_invD(2) [OF inv v])
next
  fix da'
  assume a: "no_authority n' = Some da'"
  from assms(3) [OF this] obtain da where da: "no_authority n = Some da"
    "da_signed_epochs da' = da_signed_epochs da" "da_vote_path da' = da_vote_path da" by blast
  show "da_vote_path da' = Some (dp_vote_path dp)" "votes_wf (da_signed_epochs da')"
    unfolding da(2,3) by (rule vote_invD(3,4) [OF inv da(1)])+
  show "covers (map snd (da_signed_epochs da')) e doc" if "vote e = Some doc" for e doc
    unfolding da(2) by (rule vote_invD(5) [OF inv da(1) that])
  show "\<exists>docs. disk_votes aj (dp_vote_path dp) (no_disk n') = Some docs \<and> covers docs e doc"
    if "map_of (da_signed_epochs da') e = Some doc" for e doc
    using vote_invD(6) [OF inv da(1)] that unfolding da(2) assms(2) by blast
next
  fix h doc
  assume "task_of h n' = CrossChecking doc"
  then show "vote (cd_valid_after doc) = Some doc" by (rule assms(4))
qed

lemma task_of_simps [simp]:
  "task_of h (put_task h' t n) = (if h = h' then t else task_of h n)"
  "task_of h (n\<lparr>no_authority := a\<rparr>) = task_of h n" "task_of h (n\<lparr>no_disk := d\<rparr>) = task_of h n"
  "task_of h (n\<lparr>no_authority := a, no_disk := d\<rparr>) = task_of h n"
  "no_authority (put_task h' t n) = no_authority n" "no_disk (put_task h' t n) = no_disk n"
  by (simp_all add: task_of_def put_task_def update_conv')

lemma covers_self: "doc \<in> set docs \<Longrightarrow> covers docs e doc"
  by (simp add: covers_def)

lemma covers_trans:
  assumes "\<And>y. y \<in> set docs \<Longrightarrow> covers docs' (cd_valid_after y) y" and "covers docs e x" "cd_valid_after x = e"
  shows "covers docs' e x"
proof (cases "x \<in> set docs")
  case True
  then show ?thesis using assms(1,3) by blast
next
  case False
  with assms(2) obtain later where l: "later \<in> set docs" "e < cd_valid_after later" by (auto simp: covers_def)
  with assms(1) [OF l(1)] show ?thesis unfolding covers_def by (meson order_less_trans)
qed

lemma vote_inv_change:
  assumes inv: "vote_inv aj dp vote n" and da: "no_authority n = Some da"
    and wf: "votes_wf votes'" and disk: "disk_votes aj (dp_vote_path dp) d' = Some docs'"
    and mem: "\<And>y. y \<in> set (map snd (da_signed_epochs da)) \<Longrightarrow> covers (map snd votes') (cd_valid_after y) y"
    and new: "\<And>y. y \<in> set (map snd votes') \<Longrightarrow> covers docs' (cd_valid_after y) y"
    and ext: "vote \<subseteq>\<^sub>m vote'" "\<And>e x. vote' e = Some x \<Longrightarrow> vote e = Some x \<or> cd_valid_after x = e \<and> x \<in> set (map snd votes')"
  shows "vote_inv aj dp vote' (n\<lparr>no_authority := Some (da\<lparr>da_signed_epochs := votes'\<rparr>), no_disk := d'\<rparr>)"
proof -
  have m: "cd_valid_after x = e \<and> covers (map snd votes') e x" if "vote' e = Some x" for e x
  proof -
    from ext(2) [OF that] show ?thesis
    proof
      assume v: "vote e = Some x"
      note va = vote_invD(1) [OF inv v]
      show ?thesis using covers_trans [OF mem vote_invD(5) [OF inv da v] va] va by simp
    qed (simp add: covers_self)
  qed
  have d: "covers docs' e x" if "vote' e = Some x" for e x
    using covers_trans [OF new] m [OF that] by blast
  have k: "covers docs' e x" if "map_of votes' e = Some x" for e x
  proof -
    have "x \<in> set (map snd votes')" using imageI [OF map_of_SomeD [OF that], of snd] by simp
    from new [OF this] votes_wf_key [OF wf that] show ?thesis by simp
  qed
  have tk: "vote' (cd_valid_after doc) = Some doc" if "task_of h n = CrossChecking doc" for h doc
    using vote_invD(7) [OF inv that] ext(1) by (metis map_le_def domI)
  show ?thesis unfolding vote_inv_def using m d k tk wf disk vote_invD(3) [OF inv da] by auto
qed

text \<open>A vote that is handed on was the vote of its epoch before, or is the first.\<close>

lemma vote_step:
  assumes inv: "vote_inv aj dp vote n" and da: "no_authority n = Some da"
    and fv: "frozen_view sg aj de now relays da (no_disk n) = (da', d', r)"
    and t: "de_temp de \<noteq> dp_vote_path dp" and js: "auth_json_ok aj"
  shows "\<exists>vote'. vote \<subseteq>\<^sub>m vote' \<and> vote_inv aj dp vote' (n\<lparr>no_authority := Some da', no_disk := d'\<rparr>) \<and>
    (\<forall>doc. r = Inr doc \<longrightarrow> vote' (cd_valid_after doc) = Some doc)"
proof -
  let ?votes = "da_signed_epochs da" and ?p = "dp_vote_path dp"
  let ?n = "n\<lparr>no_authority := Some da', no_disk := d'\<rparr>"
  note wf = vote_invD(4) [OF inv da]
  have mem: "map_of ?votes (cd_valid_after y) = Some y" if "y \<in> set (map snd ?votes)" for y
    using votes_wf_get [OF wf, of y] that by simp
  have keep: ?thesis if "disk_votes aj ?p d' = disk_votes aj ?p (no_disk n)" "da' = da" "\<And>doc. r \<noteq> Inr doc"
  proof (intro exI conjI)
    show "vote_inv aj dp vote ?n"
      by (rule vote_inv_frame [OF inv]) (use that da vote_invD(7) [OF inv] in auto)
  qed (use that(3) in simp_all)
  show ?thesis using fv vote_invD(3) [OF inv da] t js
  proof (cases rule: frozen_view_cases)
    case same
    show ?thesis
    proof (cases r)
      case (Inl e)
      then show ?thesis using keep same(1,2) by simp
    next
      case (Inr doc)
      define epoch where "epoch = (now div 300) * 300"
      have got: "map_of ?votes epoch = Some doc" using same(3) [OF Inr] by (simp add: epoch_def)
      note va = votes_wf_key [OF wf got]
      have in_votes: "doc \<in> set (map snd ?votes)" using imageI [OF map_of_SomeD [OF got], of snd] by simp
      have old: "x = doc" if "vote epoch = Some x" for x
      proof -
        have "cd_valid_after y \<le> epoch" if "y \<in> set (map snd ?votes)" for y
          using same(4) [OF Inr mem [OF that]] by (simp add: epoch_def)
        then have "x \<in> set (map snd ?votes)"
          using vote_invD(5) [OF inv da that] unfolding covers_def by (meson leD)
        from mem [OF this] got show ?thesis using vote_invD(1) [OF inv that] by simp
      qed
      obtain docs where docs: "disk_votes aj ?p (no_disk n) = Some docs" using vote_invD(6) [OF inv da got] by blast
      have "vote_inv aj dp (vote(epoch \<mapsto> doc)) (n\<lparr>no_authority := Some (da\<lparr>da_signed_epochs := ?votes\<rparr>), no_disk := d'\<rparr>)"
      proof (rule vote_inv_change [OF inv da wf])
        show "disk_votes aj ?p d' = Some docs" by (simp add: same(2) docs)
        show "covers docs (cd_valid_after y) y" if "y \<in> set (map snd ?votes)" for y
          using vote_invD(6) [OF inv da mem [OF that]] docs by simp
      qed (use old va in_votes covers_self in \<open>auto simp: map_le_def split: if_splits\<close>)
      then show ?thesis using same(1) Inr old va by (intro exI [of _ "vote(epoch \<mapsto> doc)"]) (auto simp: map_le_def)
    qed
  next
    case (cast doc)
    let ?next = "next_votes (cd_valid_after doc) doc ?votes"
    note nv = next_votes [OF wf cast(1) refl]
    have cov: "covers (map snd ?next) (cd_valid_after y) y" if "y \<in> set (map snd ?votes)" for y
      using nv(3) [OF covers_self [OF that] refl] .
    have none: "vote (cd_valid_after doc) = None"
    proof (rule ccontr)
      assume "vote (cd_valid_after doc) \<noteq> None"
      then obtain x where x: "vote (cd_valid_after doc) = Some x" by blast
      have "cd_valid_after y \<le> cd_valid_after doc" if "y \<in> set (map snd ?votes)" for y
        using cast(2) [OF mem [OF that]] .
      then have "x \<in> set (map snd ?votes)"
        using vote_invD(5) [OF inv da x] unfolding covers_def by (meson leD)
      from mem [OF this] cast(1) vote_invD(1) [OF inv x] show False by simp
    qed
    show ?thesis using cast(3)
    proof (elim disjE)
      assume "da' = da \<and> r = Inl CannotPersistVote \<and> disk_votes aj ?p d' = disk_votes aj ?p (no_disk n)"
      then show ?thesis using keep by simp
    next
      assume c: "da' = da \<and> r = Inl CannotPersistVote \<and> disk_votes aj ?p d' = Some (map snd ?next)"
      have "vote_inv aj dp vote (n\<lparr>no_authority := Some (da\<lparr>da_signed_epochs := ?votes\<rparr>), no_disk := d'\<rparr>)"
        by (rule vote_inv_change [OF inv da wf, where docs' = "map snd ?next"]) (use c cov covers_self in auto)
      then show ?thesis using c by (intro exI [of _ vote]) simp
    next
      assume c: "da' = da\<lparr>da_signed_epochs := ?next\<rparr> \<and> r = Inr doc \<and> disk_votes aj ?p d' = Some (map snd ?next)"
      have "vote_inv aj dp (vote(cd_valid_after doc \<mapsto> doc)) (n\<lparr>no_authority := Some (da\<lparr>da_signed_epochs := ?next\<rparr>), no_disk := d'\<rparr>)"
        by (rule vote_inv_change [OF inv da nv(1), where docs' = "map snd ?next"])
          (use c cov covers_self none nv(2) in \<open>auto simp: map_le_def split: if_splits\<close>)
      then show ?thesis using c none by (intro exI [of _ "vote(cd_valid_after doc \<mapsto> doc)"]) (auto simp: map_le_def)
    qed
  qed
qed

text \<open>A start that leaves an authority running read its votes.\<close>

lemma start_node_Some:
  assumes "no_authority (start_node sg aj dp fault revoked endpoints peers n) = Some da"
  obtains da0 where "with_persistent_key sg aj fault (dp_authority_id dp) (dp_listen_addr dp) (dp_pow_difficulty dp) (dp_signing_key dp)
      (dp_vote_path dp) (no_disk n) = Some da0"
    "da = (with_revoked_identities revoked da0)\<lparr>da_peer_authorities := peers\<rparr>"
  using assms by (auto simp: start_node_def Let_def split: option.splits if_splits)

lemma vote_start:
  assumes inv: "vote_inv aj dp vote n"
  shows "vote_inv aj dp vote (start_node sg aj dp fault revoked endpoints peers n)"
proof -
  let ?n = "start_node sg aj dp fault revoked endpoints peers n" and ?p = "dp_vote_path dp"
  have same: "no_disk ?n = no_disk n" "task_of h ?n = AtRest" for h by (simp_all add: start_node_def task_of_def)
  have auth: "da_vote_path da' = Some ?p \<and> votes_wf (da_signed_epochs da') \<and>
      (\<forall>e doc. vote e = Some doc \<longrightarrow> covers (map snd (da_signed_epochs da')) e doc) \<and>
      (\<forall>e doc. map_of (da_signed_epochs da') e = Some doc \<longrightarrow>
         (\<exists>docs. disk_votes aj ?p (no_disk n) = Some docs \<and> covers docs e doc))"
    if running: "no_authority ?n = Some da'" for da'
  proof -
    obtain da where start: "with_persistent_key sg aj fault (dp_authority_id dp) (dp_listen_addr dp) (dp_pow_difficulty dp)
        (dp_signing_key dp) ?p (no_disk n) = Some da" and da': "da' = (with_revoked_identities revoked da)\<lparr>da_peer_authorities := peers\<rparr>"
      by (rule start_node_Some [OF running]) blast
    have eq: "da_vote_path da' = da_vote_path da" "da_signed_epochs da' = da_signed_epochs da"
      by (simp_all add: da' with_revoked_identities_def)
    note sv = start_votes [OF start]
    show ?thesis using sv(3)
    proof
      assume none: "map_of (no_disk n) ?p = None \<and> da_signed_epochs da = []"
      then have "vote e = None" for e
        using vote_invD(2) [OF inv, of e] by (cases "vote e") (auto simp: disk_votes_def)
      then show ?thesis using none sv(1,2) by (simp add: eq)
    next
      assume "\<exists>docs. disk_votes aj ?p (no_disk n) = Some docs \<and> snd ` set (da_signed_epochs da) = set docs"
      then obtain docs where d: "disk_votes aj ?p (no_disk n) = Some docs" "snd ` set (da_signed_epochs da) = set docs" by blast
      have "covers (map snd (da_signed_epochs da)) e doc" if "vote e = Some doc" for e doc
        using vote_invD(2) [OF inv that] d by (simp add: covers_def)
      moreover have "covers docs e doc" if "map_of (da_signed_epochs da) e = Some doc" for e doc
        using imageI [OF map_of_SomeD [OF that], of snd] d(2) by (simp add: covers_self)
      ultimately show ?thesis using d(1) sv(1,2) by (simp add: eq)
    qed
  qed
  show ?thesis unfolding vote_inv_def using vote_invD(1,2) [OF inv] auth by (simp add: same)
qed

text \<open>The signatures a cross-check adds.\<close>

definition cosigned :: "sigs \<Rightarrow> bytes \<Rightarrow> bytes \<Rightarrow> AuthoritySignature \<Rightarrow> bool" where
  "cosigned sg dg pin s \<longleftrightarrow>
    (\<exists>pf. Signature_from_slice (as_signature_bytes s) = Inr pf \<and> is_ok (verify_strict sg pin dg pf))"

lemma cross_checks_extra:
  "\<exists>extra. cross_checks sg dg received peers signatures = signatures @ map snd extra \<and>
    distinct (map fst extra) \<and> set (map fst extra) \<inter> set received = {} \<and>
    (\<forall>(pin, s) \<in> set extra. Some pin \<in> fst ` set peers \<and> cosigned sg dg pin s)"
proof (induction peers arbitrary: received signatures)
  case (Cons peer rest)
  obtain pinned answer where peer: "peer = (pinned, answer)" by (cases peer)
  show ?case
  proof (cases "\<exists>peer_sig pubkey pf. answer = Some peer_sig \<and> pinned = Some pubkey \<and>
      Signature_from_slice (as_signature_bytes peer_sig) = Inr pf \<and> is_ok (verify_strict sg pubkey dg pf) \<and> pubkey \<notin> set received")
    case True
    then obtain peer_sig pubkey pf where t: "answer = Some peer_sig" "pinned = Some pubkey"
      "Signature_from_slice (as_signature_bytes peer_sig) = Inr pf" "is_ok (verify_strict sg pubkey dg pf)" "pubkey \<notin> set received" by blast
    from Cons.IH [of "pubkey # received" "signatures @ [peer_sig]"] obtain extra where e:
      "cross_checks sg dg (pubkey # received) rest (signatures @ [peer_sig]) = (signatures @ [peer_sig]) @ map snd extra"
      "distinct (map fst extra)" "set (map fst extra) \<inter> set (pubkey # received) = {}"
      "\<forall>(pin, s) \<in> set extra. Some pin \<in> fst ` set rest \<and> cosigned sg dg pin s" by blast
    show ?thesis
      by (rule exI [of _ "(pubkey, peer_sig) # extra"]) (use e t in \<open>auto simp: peer cosigned_def\<close>)
  next
    case False
    then have skip: "cross_checks sg dg received ((pinned, answer) # rest) signatures = cross_checks sg dg received rest signatures"
      by (auto split: option.split sum.split)
    show ?thesis unfolding peer skip using Cons.IH [of received signatures] by fastforce
  qed
qed simp

text \<open>
  A published document is the vote of its epoch with signatures of enough different pinned
  authorities; a signature given to another authority is the one on a vote.
\<close>

fun out_ok :: "sigs \<Rightarrow> (u64 \<rightharpoonup> ConsensusDocument) \<Rightarrow> auth_out \<Rightarrow> bool" where
  "out_ok sg vote (Published h c) \<longleftrightarrow>
    (\<exists>doc extra. vote (cd_valid_after c) = Some doc \<and> c = doc\<lparr>cd_signatures := cd_signatures doc @ map snd extra\<rparr> \<and>
       distinct (map fst extra) \<and> (\<forall>(pin, s) \<in> set extra. cosigned sg (compute_digest sg c) pin s))"
| "out_ok sg vote (Cosigned h s) \<longleftrightarrow>
    (\<exists>e doc. vote e = Some doc \<and> cd_signatures doc \<noteq> [] \<and> s = last (cd_signatures doc))"
| "out_ok sg vote _ \<longleftrightarrow> True"

lemma out_ok_mono: "out_ok sg vote out \<Longrightarrow> vote \<subseteq>\<^sub>m vote' \<Longrightarrow> out_ok sg vote' out"
  by (cases out) (auto simp: map_le_def dom_def, metis+)

lemma digest_signatures [simp]: "compute_digest sg (doc\<lparr>cd_signatures := ss\<rparr>) = compute_digest sg doc"
  by (simp add: compute_digest_def consensus_bytes_def)

lemma finish_consensus_extra:
  assumes "finish_consensus sg da answers doc = Inr c"
  shows "\<exists>extra. c = doc\<lparr>cd_signatures := cd_signatures doc @ map snd extra\<rparr> \<and>
    distinct (map fst extra) \<and> verifying_key sg (da_signing_key da) \<notin> set (map fst extra) \<and>
    (\<forall>(pin, s) \<in> set extra. Some pin \<in> snd ` set (cross_peers da) \<and> cosigned sg (compute_digest sg c) pin s) \<and>
    length (cd_signatures doc) + length extra \<ge> required_signatures sg da"
proof -
  let ?peers = "zip (map snd (cross_peers da)) answers"
  have sub: "fst ` set ?peers \<subseteq> snd ` set (cross_peers da)" by (auto dest: set_zip_leftD)
  from cross_checks_extra [of sg "compute_digest sg doc" "[verifying_key sg (da_signing_key da)]" ?peers "cd_signatures doc"]
  obtain extra where e: "cross_checks sg (compute_digest sg doc) [verifying_key sg (da_signing_key da)] ?peers (cd_signatures doc) =
      cd_signatures doc @ map snd extra" "distinct (map fst extra)"
    "set (map fst extra) \<inter> set [verifying_key sg (da_signing_key da)] = {}"
    "\<forall>(pin, s) \<in> set extra. Some pin \<in> fst ` set ?peers \<and> cosigned sg (compute_digest sg doc) pin s" by blast
  have c: "c = doc\<lparr>cd_signatures := cd_signatures doc @ map snd extra\<rparr>"
    "length (cd_signatures doc) + length extra \<ge> required_signatures sg da"
    using assms e(1) by (auto simp: finish_consensus_def Let_def split: if_splits)
  have "\<forall>(pin, s) \<in> set extra. Some pin \<in> snd ` set (cross_peers da) \<and> cosigned sg (compute_digest sg c) pin s"
    using e(4) sub unfolding c(1) digest_signatures by blast
  then show ?thesis using c e(2,3) by (intro exI [of _ extra]) auto
qed

text \<open>The temporary file of an atomic write is not the file it replaces.\<close>

fun own_temp :: "auth_deployment \<Rightarrow> auth_event \<Rightarrow> bool" where
  "own_temp dp (Vote h de now) \<longleftrightarrow> de_temp de \<noteq> dp_vote_path dp"
| "own_temp dp _ \<longleftrightarrow> True"

lemma vote_auth_step:
  assumes inv: "vote_inv aj dp vote n" and js: "auth_json_ok aj" and t: "own_temp dp e"
    and step: "auth_step sg hx aj dp e n = (n', outs)"
  shows "\<exists>vote'. vote \<subseteq>\<^sub>m vote' \<and> vote_inv aj dp vote' n' \<and> list_all (out_ok sg vote') outs"
proof -
  have frame: ?thesis
    if "no_disk n' = no_disk n" "list_all (out_ok sg vote) outs"
      "\<And>da'. no_authority n' = Some da' \<Longrightarrow>
         \<exists>da. no_authority n = Some da \<and> da_signed_epochs da' = da_signed_epochs da \<and> da_vote_path da' = da_vote_path da"
      "\<And>h doc. task_of h n' = CrossChecking doc \<Longrightarrow> task_of h n = CrossChecking doc"
  proof -
    have "vote_inv aj dp vote n'"
      by (rule vote_inv_frame [OF inv]) (simp_all add: that(1,3) vote_invD(7) [OF inv that(4)])
    then show ?thesis using that(2) by (intro exI [of _ vote]) simp
  qed
  show ?thesis
  proof (cases "no_authority n")
    case None
    then show ?thesis
    proof (cases e)
      case (Start fault revoked endpoints peers)
      then show ?thesis using vote_start [OF inv] step by (intro exI [of _ vote]) auto
    qed (use step None in \<open>intro frame; auto\<close>)+
  next
    case (Some da)
    show ?thesis
    proof (cases e)
      case (Start fault revoked endpoints peers)
      then show ?thesis using vote_start [OF inv] step by (intro exI [of _ vote]) auto
    next
      case (Request h frame now)
      have reg: "da_signed_epochs da' = da_signed_epochs da" "da_vote_path da' = da_vote_path da"
        if "register_relay sg now desc da = (da', r)" for desc da' r
        using that by (auto simp: register_relay_def Let_def split: option.splits sum.splits prod.splits if_splits)
      show ?thesis
        by (rule frame) (use step Request Some in \<open>auto simp: on_request_def Let_def evict_stale_def dest: reg
            split: auth_task.splits auth_request.splits option.splits prod.splits if_splits\<close>)
    next
      case (Lists h replies)
      show ?thesis
        by (rule frame) (use step Lists Some in \<open>auto simp: on_lists_def reconcile_persist_def Let_def
            split: auth_task.splits if_splits\<close>)
    next
      case (Sweep now)
      show ?thesis by (rule frame) (use step Sweep Some in \<open>auto simp: evict_periodic_def\<close>)
    next
      case (Answers h answers)
      show ?thesis
      proof (cases "task_of h n")
        case (CrossChecking doc)
        have n': "n' = put_task h AtRest n" using step Answers Some CrossChecking by (simp add: on_answers_def)
        have "list_all (out_ok sg vote) outs"
        proof (cases "finish_consensus sg da answers doc")
          case (Inr c)
          from finish_consensus_extra [OF Inr] obtain extra where x: "c = doc\<lparr>cd_signatures := cd_signatures doc @ map snd extra\<rparr>"
            "distinct (map fst extra)" "\<forall>(pin, s) \<in> set extra. cosigned sg (compute_digest sg c) pin s" by blast
          have "out_ok sg vote (Published h c)"
            unfolding out_ok.simps
            by (rule exI [of _ doc], rule exI [of _ extra]) (use x vote_invD(7) [OF inv CrossChecking] in simp)
          then show ?thesis using step Answers Some CrossChecking Inr by (auto simp: on_answers_def)
        qed (use step Answers Some CrossChecking in \<open>auto simp: on_answers_def\<close>)
        then show ?thesis by (intro frame) (auto simp: n' split: if_splits)
      qed (use step Answers Some in \<open>intro frame; auto\<close>)+
    next
      case (Vote h de now)
      show ?thesis
      proof (cases "task_of h n")
        case (Reconciled goal relays)
        obtain da' d' r where fv: "frozen_view sg aj de now relays da (no_disk n) = (da', d', r)" by (metis prod_cases3)
        have "de_temp de \<noteq> dp_vote_path dp" using t Vote by simp
        from vote_step [OF inv Some fv this js] obtain vote' where v: "vote \<subseteq>\<^sub>m vote'"
          "vote_inv aj dp vote' (n\<lparr>no_authority := Some da', no_disk := d'\<rparr>)"
          "\<And>doc. r = Inr doc \<Longrightarrow> vote' (cd_valid_after doc) = Some doc" by blast
        have s: "on_vote sg hx aj h de now goal relays da n = (n', outs)" using step Vote Some Reconciled by simp
        have "vote_inv aj dp vote' n'"
          by (rule vote_inv_frame [OF v(2)])
            (use s fv v(3) vote_invD(7) [OF v(2)] in \<open>auto simp: on_vote_def Let_def split: auth_goal.splits sum.splits if_splits\<close>)
        moreover have "list_all (out_ok sg vote') outs"
        proof (cases r)
          case (Inr doc)
          have "out_ok sg vote' (Cosigned h x)" if "rev (cd_signatures doc) = x # xs" for x xs
            unfolding out_ok.simps
            by (rule exI [of _ "cd_valid_after doc"], rule exI [of _ doc]) (use v(3) [OF Inr] that in \<open>simp add: rev_eq_Cons_iff\<close>)
          then show ?thesis using s fv Inr by (auto simp: on_vote_def Let_def simp del: out_ok.simps(2) split: auth_goal.splits list.splits if_splits)
        qed (use s fv in \<open>auto simp: on_vote_def Let_def split: auth_goal.splits\<close>)
        ultimately show ?thesis using v(1) by blast
      qed (use step Vote Some in \<open>intro frame; auto\<close>)+
    qed
  qed
qed

lemma vote_auth_run:
  assumes "vote_inv aj dp vote n" "auth_json_ok aj"
    and "list_all (own_temp dp) es"
    and "auth_run sg hx aj dp es n = (n', outs)"
  shows "\<exists>vote'. vote \<subseteq>\<^sub>m vote' \<and> vote_inv aj dp vote' n' \<and> list_all (out_ok sg vote') outs"
  using assms
proof (induction es arbitrary: vote n outs)
  case Nil
  then show ?case by (intro exI [of _ vote]) simp
next
  case (Cons e es)
  obtain n1 o1 where s: "auth_step sg hx aj dp e n = (n1, o1)" by (cases "auth_step sg hx aj dp e n")
  obtain o2 where r: "auth_run sg hx aj dp es n1 = (n', o2)" and outs: "outs = o1 @ o2"
    using Cons.prems(4) s by (auto simp: Let_def split: prod.splits)
  from vote_auth_step [OF Cons.prems(1,2) _ s] Cons.prems(3) obtain v1 where v1: "vote \<subseteq>\<^sub>m v1" "vote_inv aj dp v1 n1" "list_all (out_ok sg v1) o1"
    by auto
  from Cons.IH [OF v1(2) Cons.prems(2) _ r] Cons.prems(3) obtain v2 where v2: "v1 \<subseteq>\<^sub>m v2" "vote_inv aj dp v2 n'" "list_all (out_ok sg v2) o2"
    by auto
  have "list_all (out_ok sg v2) o1" using v1(3) out_ok_mono [OF _ v2(1)] by (auto simp: list_all_iff)
  then show ?case using v2 map_le_trans [OF v1(1) v2(1)] by (intro exI [of _ v2]) (simp add: outs)
qed

lemma vote_inv_fresh: "vote_inv aj dp Map.empty (fresh_node d)"
  by (simp add: vote_inv_def fresh_node_def task_of_def)


end
