(* ===== verification/AuthorityRegistry.thy ===== *)
theory AuthorityRegistry
  imports Authority Revocation
begin

text \<open>
  The registry of a directory authority over all its requests: every entry is genuine, entries do
  not share identities, component keys or endpoints, their number is bounded and none goes back in
  time, whatever is registered directly or arrives from other authorities.
\<close>

section \<open>The registry\<close>

definition clash :: "RelayDescriptor \<Rightarrow> RelayDescriptor \<Rightarrow> bool" where
  "clash a b \<longleftrightarrow> rd_node_id a \<noteq> rd_node_id b \<and>
    (rd_identity_pin a = rd_identity_pin b
     \<or> length (rd_signature a) = PROOF_SIZE \<and> length (rd_signature b) = PROOF_SIZE \<and>
       (subslice 8 40 (rd_signature a) = subslice 8 40 (rd_signature b)
        \<or> subslice 40 PUBLIC_KEY_SIZE (rd_signature a) = subslice 40 PUBLIC_KEY_SIZE (rd_signature b))
     \<or> rd_host a = rd_host b \<and> rd_port a = rd_port b)"

lemma relay_conflicts_iff: "relay_conflicts m c \<longleftrightarrow> (\<exists>(k, r) \<in> set m. clash r c)"
  by (auto simp: relay_conflicts_def clash_def list_ex_iff split: prod.splits)

lemma clash_sym: "clash a b \<Longrightarrow> clash b a"
  unfolding clash_def by metis

definition genuine :: "sigs \<Rightarrow> bytes list \<Rightarrow> relay_map \<Rightarrow> bool" where
  "genuine sg revoked m \<longleftrightarrow> distinct (map fst m) \<and>
    (\<forall>(k, r) \<in> set m. rd_node_id r = k \<and> verify_identity sg r \<and> rd_identity_pin r \<notin> set revoked)"

definition registry_wf :: "sigs \<Rightarrow> bytes list \<Rightarrow> relay_map \<Rightarrow> bool" where
  "registry_wf sg revoked m \<longleftrightarrow> genuine sg revoked m \<and> length m \<le> MAX_DIRECTORY_RELAYS \<and>
    (\<forall>(k, r) \<in> set m. \<forall>(k', r') \<in> set m. \<not> clash r r')"

text \<open>No entry goes back: what stays keeps its identity and its time does not decrease.\<close>

definition grows :: "relay_map \<Rightarrow> relay_map \<Rightarrow> bool" where
  "grows m m' \<longleftrightarrow> (\<forall>k r. map_of m k = Some r \<longrightarrow>
    (\<exists>r'. map_of m' k = Some r' \<and> rd_identity_pin r' = rd_identity_pin r \<and> rd_registered_at r \<le> rd_registered_at r'))"

lemma grows_refl [simp]: "grows m m"
  by (simp add: grows_def)

lemma grows_trans: "grows m m' \<Longrightarrow> grows m' m'' \<Longrightarrow> grows m m''"
proof -
  assume a: "grows m m'" "grows m' m''"
  have "\<exists>r''. map_of m'' k = Some r'' \<and> rd_identity_pin r'' = rd_identity_pin r \<and> rd_registered_at r \<le> rd_registered_at r''"
    if "map_of m k = Some r" for k r
  proof -
    from a(1) that obtain r' where r': "map_of m' k = Some r'" "rd_identity_pin r' = rd_identity_pin r" "rd_registered_at r \<le> rd_registered_at r'"
      unfolding grows_def by blast
    from a(2) r'(1) obtain r'' where "map_of m'' k = Some r''" "rd_identity_pin r'' = rd_identity_pin r'" "rd_registered_at r' \<le> rd_registered_at r''"
      unfolding grows_def by blast
    with r'(2,3) show ?thesis by (auto intro: order_trans)
  qed
  then show ?thesis unfolding grows_def by blast
qed

lemma update_set: "(k, r) \<in> set (AList.update i desc m) \<Longrightarrow> distinct (map fst m) \<Longrightarrow> (k, r) = (i, desc) \<or> k \<noteq> i \<and> (k, r) \<in> set m"
  by (induction m) (auto split: if_splits intro: rev_image_eqI)

lemma genuine_update:
  assumes "genuine sg revoked m" "verify_identity sg desc" "rd_identity_pin desc \<notin> set revoked" "rd_node_id desc = i"
  shows "genuine sg revoked (AList.update i desc m)"
proof -
  have d: "distinct (map fst m)" using assms(1) by (simp add: genuine_def)
  have "rd_node_id r = k \<and> verify_identity sg r \<and> rd_identity_pin r \<notin> set revoked"
    if "(k, r) \<in> set (AList.update i desc m)" for k r
    using update_set [OF that d] assms by (auto simp: genuine_def)
  then show ?thesis using d by (auto simp: genuine_def distinct_update)
qed

lemma length_update: "length (AList.update i v m) = (if map_of m i = None then Suc (length m) else length m)"
  by (induction m) auto

lemma registry_update:
  assumes m: "registry_wf sg revoked m" and v: "verify_identity sg desc" "rd_identity_pin desc \<notin> set revoked" "rd_node_id desc = i"
    and c: "\<not> relay_conflicts m desc" "\<not> (map_of m i = None \<and> length m \<ge> MAX_DIRECTORY_RELAYS)"
  shows "registry_wf sg revoked (AList.update i desc m)"
proof -
  have g: "genuine sg revoked m" and d: "distinct (map fst m)" using m by (simp_all add: registry_wf_def genuine_def)
  have "length (AList.update i desc m) \<le> MAX_DIRECTORY_RELAYS"
    using m c(2) by (auto simp: registry_wf_def length_update)
  moreover have "\<not> clash r r'"
    if a: "(k, r) \<in> set (AList.update i desc m)" "(k', r') \<in> set (AList.update i desc m)" for k r k' r'
  proof -
    have n: "\<not> clash x desc" "\<not> clash desc x" if "(j, x) \<in> set m" for j x
      using c(1) that clash_sym [of desc x] by (auto simp: relay_conflicts_iff)
    have "\<not> clash desc desc" by (simp add: clash_def)
    then show ?thesis using update_set [OF a(1) d] update_set [OF a(2) d] n m by (auto simp: registry_wf_def)
  qed
  ultimately show ?thesis using genuine_update [OF g v] by (auto simp: registry_wf_def)
qed

lemma registry_filter: "registry_wf sg revoked m \<Longrightarrow> registry_wf sg revoked (filter P m)"
  by (auto simp: registry_wf_def genuine_def distinct_map_filter intro: order_trans [OF length_filter_le])

lemma grows_update:
  assumes "\<forall>x. map_of m i = Some x \<longrightarrow> rd_identity_pin desc = rd_identity_pin x \<and> rd_registered_at x < rd_registered_at desc"
  shows "grows m (AList.update i desc m)"
  using assms by (auto simp: grows_def update_conv' intro: less_imp_le)

section \<open>The operations\<close>

lemma register_relay_registry:
  assumes m: "registry_wf sg (da_revoked da) (da_active_relays da)" and r: "register_relay sg now desc da = (da', res)"
  shows "registry_wf sg (da_revoked da) (da_active_relays da')" "grows (da_active_relays da) (da_active_relays da')"
    "da_revoked da' = da_revoked da" "da_signed_epochs da' = da_signed_epochs da"
proof -
  let ?m = "da_active_relays da" and ?i = "rd_node_id desc"
  have cases: "da_active_relays da' = ?m \<or> da_active_relays da' = AList.update ?i desc ?m \<and>
      rd_identity_pin desc \<notin> set (da_revoked da) \<and> verify_identity sg desc \<and> \<not> relay_conflicts ?m desc \<and>
      \<not> (map_of ?m ?i = None \<and> length ?m \<ge> MAX_DIRECTORY_RELAYS) \<and>
      (\<forall>x. map_of ?m ?i = Some x \<longrightarrow> rd_identity_pin desc = rd_identity_pin x \<and> rd_registered_at x < rd_registered_at desc)"
    using r by (auto simp: register_relay_def Let_def not_le split: option.splits sum.splits prod.splits if_splits)
  then show "registry_wf sg (da_revoked da) (da_active_relays da')" using registry_update [OF m] m by auto
  from cases show "grows ?m (da_active_relays da')" using grows_update [of ?m ?i desc] by auto
  show "da_revoked da' = da_revoked da" "da_signed_epochs da' = da_signed_epochs da"
    using r by (auto simp: register_relay_def Let_def split: option.splits sum.splits prod.splits if_splits)
qed

lemma gossip_genuine:
  assumes "genuine sg (da_revoked da) local"
  shows "genuine sg (da_revoked da) (gossip sg da now desc local)"
  using assms by (auto simp: gossip_def intro!: genuine_update split: option.split)

lemma fold_inv: "(\<And>x s. x \<in> set xs \<Longrightarrow> P s \<Longrightarrow> P (f x s)) \<Longrightarrow> P s \<Longrightarrow> P (fold f xs s)"
  by (induction xs arbitrary: s) auto

lemma gossip_all_genuine:
  assumes "genuine sg (da_revoked da) local"
  shows "genuine sg (da_revoked da) (gossip_all sg da replies local)"
  unfolding gossip_all_def
proof (rule fold_inv [where P = "genuine sg (da_revoked da)", OF _ assms])
  fix x :: "u64 \<times> RelayDescriptor list option" and m
  assume m: "genuine sg (da_revoked da) m"
  obtain now reply where x: "x = (now, reply)" by (cases x)
  show "genuine sg (da_revoked da) ((case x of (now, list) \<Rightarrow> case list of None \<Rightarrow> id | Some descs \<Rightarrow> fold (gossip sg da now) descs) m)"
  proof (cases reply)
    case (Some descs)
    have "genuine sg (da_revoked da) (fold (gossip sg da now) descs m)"
      by (rule fold_inv [where P = "genuine sg (da_revoked da)", OF _ m]) (rule gossip_genuine)
    then show ?thesis by (simp add: x Some)
  qed (simp add: x m)
qed

lemma persist_one_registry:
  assumes m: "registry_wf sg revoked m" and v: "verify_identity sg desc" "rd_identity_pin desc \<notin> set revoked" "rd_node_id desc = i"
  shows "registry_wf sg revoked (persist_one (i, desc) m) \<and> grows m (persist_one (i, desc) m)"
proof -
  have cases: "persist_one (i, desc) m = m \<or> persist_one (i, desc) m = AList.update i desc m \<and> \<not> relay_conflicts m desc \<and>
      \<not> (map_of m i = None \<and> length m \<ge> MAX_DIRECTORY_RELAYS) \<and>
      (\<forall>x. map_of m i = Some x \<longrightarrow> rd_identity_pin desc = rd_identity_pin x \<and> rd_registered_at x < rd_registered_at desc)"
    by (auto simp: persist_one_def not_le split: option.splits)
  then show ?thesis using registry_update [OF m v] m grows_update [of m i desc] by auto
qed

lemma reconcile_persist_registry:
  assumes m: "registry_wf sg (da_revoked da) (da_active_relays da)" and l: "genuine sg (da_revoked da) local"
    and r: "reconcile_persist local da = (da', relays)"
  shows "registry_wf sg (da_revoked da) (da_active_relays da')" "grows (da_active_relays da) (da_active_relays da')"
    "da_revoked da' = da_revoked da" "da_signed_epochs da' = da_signed_epochs da"
proof -
  have same: "reconcile_local da = da_active_relays da"
    using m by (auto simp: reconcile_local_def registry_wf_def genuine_def intro!: filter_True)
  have "registry_wf sg (da_revoked da) (fold persist_one local (da_active_relays da)) \<and>
      grows (da_active_relays da) (fold persist_one local (da_active_relays da))"
  proof (rule fold_inv [where P = "\<lambda>k. registry_wf sg (da_revoked da) k \<and> grows (da_active_relays da) k"])
    fix x k
    assume x: "x \<in> set local" and k: "registry_wf sg (da_revoked da) k \<and> grows (da_active_relays da) k"
    obtain i desc where xi: "x = (i, desc)" by (cases x)
    have "verify_identity sg desc" "rd_identity_pin desc \<notin> set (da_revoked da)" "rd_node_id desc = i"
      using l x by (auto simp: genuine_def xi)
    from persist_one_registry [OF conjunct1 [OF k] this] k
    show "registry_wf sg (da_revoked da) (persist_one x k) \<and> grows (da_active_relays da) (persist_one x k)"
      unfolding xi by (blast intro: grows_trans)
  qed (simp add: m)
  then show "registry_wf sg (da_revoked da) (da_active_relays da')" "grows (da_active_relays da) (da_active_relays da')"
    using r by (auto simp: reconcile_persist_def Let_def same)
  show "da_revoked da' = da_revoked da" "da_signed_epochs da' = da_signed_epochs da"
    using r by (auto simp: reconcile_persist_def Let_def)
qed

definition doc_fine :: "sigs \<Rightarrow> ConsensusDocument \<Rightarrow> bool" where
  "doc_fine sg doc \<longleftrightarrow> list_all (verify_identity sg) (cd_relays doc) \<and> length (cd_relays doc) \<le> MAX_DIRECTORY_RELAYS"

definition votes_fine :: "sigs \<Rightarrow> (u64 \<times> ConsensusDocument) list \<Rightarrow> bool" where
  "votes_fine sg votes \<longleftrightarrow> list_all (doc_fine sg) (map snd votes)"

lemma set_update_subset: "set (map snd (AList.update k v m)) \<subseteq> insert v (set (map snd m))"
  by (induction m) auto

lemma votes_fine_update: "votes_fine sg votes \<Longrightarrow> doc_fine sg doc \<Longrightarrow> votes_fine sg (AList.update e doc (filter P votes))"
  using set_update_subset [of e doc "filter P votes"] by (fastforce simp: votes_fine_def list_all_iff)

lemma frozen_view_fine:
  assumes v: "votes_fine sg (da_signed_epochs da)" and fv: "frozen_view sg aj de now relays da d = (da', d', r)"
  shows "votes_fine sg (da_signed_epochs da')" "r = Inr doc \<Longrightarrow> doc_fine sg doc"
    "da_active_relays da' = da_active_relays da" "da_revoked da' = da_revoked da"
proof -
  have got: "doc_fine sg x" if "map_of (da_signed_epochs da) e = Some x" for e x
    using imageI [OF map_of_SomeD [OF that], of snd] v by (auto simp: votes_fine_def list_all_iff)
  have new: "doc_fine sg x" if "sign_with_authority sg i k (ConsensusDocument_new a b (filter (eligible sg da now) relays)) = Inr x"
    "\<not> length relays > MAX_DIRECTORY_RELAYS" for x i k a b
    using that le_trans [OF length_filter_le [of "eligible sg da now" relays]]
    by (auto simp: sign_with_authority_def ebind_eq_Inr ConsensusDocument_new_def doc_fine_def list_all_iff eligible_def)
  show "votes_fine sg (da_signed_epochs da')"
    using fv v new by (auto simp: frozen_view_def Let_def intro!: votes_fine_update
        split: if_splits option.splits sum.splits prod.splits)
  show "doc_fine sg doc" if "r = Inr doc"
    using fv got new that by (auto simp: frozen_view_def Let_def split: if_splits option.splits sum.splits prod.splits)
  show "da_active_relays da' = da_active_relays da" "da_revoked da' = da_revoked da"
    using fv by (auto simp: frozen_view_def Let_def split: if_splits option.splits sum.splits prod.splits)
qed

lemma load_votes_fine: "load_votes sg own epochs docs = Some epochs' \<Longrightarrow> votes_fine sg epochs \<Longrightarrow> votes_fine sg epochs'"
proof (induction docs arbitrary: epochs)
  case (Cons doc docs)
  have "doc_fine sg doc" "load_votes sg own (AList.update (cd_valid_after doc) doc epochs) docs = Some epochs'"
    using Cons.prems(1) by (auto simp: doc_fine_def split: if_splits)
  then show ?case using Cons.IH votes_fine_update [OF Cons.prems(2), where P = "\<lambda>_. True"] by simp
qed simp

section \<open>The process\<close>

definition node_inv :: "sigs \<Rightarrow> auth_node \<Rightarrow> bool" where
  "node_inv sg n \<longleftrightarrow>
    (\<forall>da. no_authority n = Some da \<longrightarrow> registry_wf sg (da_revoked da) (da_active_relays da) \<and> votes_fine sg (da_signed_epochs da) \<and>
       (\<forall>h goal local. task_of h n = Reconciling goal local \<longrightarrow> genuine sg (da_revoked da) local)) \<and>
    (\<forall>h doc. task_of h n = CrossChecking doc \<longrightarrow> doc_fine sg doc)"

definition advances :: "relay_map \<Rightarrow> relay_map \<Rightarrow> bool" where
  "advances m m' \<longleftrightarrow> (\<forall>k r r'. map_of m k = Some r \<longrightarrow> map_of m' k = Some r' \<longrightarrow>
    rd_identity_pin r' = rd_identity_pin r \<and> rd_registered_at r \<le> rd_registered_at r')"

lemma grows_advances: "grows m m' \<Longrightarrow> advances m m'"
  unfolding grows_def advances_def by fastforce

lemma advances_refl [simp]: "advances m m"
  by (simp add: advances_def)

lemma filter_advances:
  assumes "registry_wf sg revoked m"
  shows "advances m (filter P m)"
proof -
  have d: "distinct (map fst m)" using assms by (simp add: registry_wf_def genuine_def)
  then have "r' = r" if "map_of m k = Some r" "map_of (filter P m) k = Some r'" for k r r'
    using that(1) map_of_SomeD [OF that(2)] by (metis filter_is_subset map_of_is_SomeI option.inject subsetD)
  then show ?thesis unfolding advances_def by blast
qed

text \<open>How a step changes the authority it finds, one lemma for all events that do not start a process.\<close>

definition good_change :: "sigs \<Rightarrow> DirectoryAuthority \<Rightarrow> DirectoryAuthority \<Rightarrow> bool" where
  "good_change sg da da' \<longleftrightarrow> registry_wf sg (da_revoked da) (da_active_relays da') \<and> votes_fine sg (da_signed_epochs da') \<and>
    da_revoked da' = da_revoked da \<and> advances (da_active_relays da) (da_active_relays da')"

definition good_task :: "sigs \<Rightarrow> bytes list \<Rightarrow> auth_task \<Rightarrow> bool" where
  "good_task sg revoked t \<longleftrightarrow> (case t of Reconciling goal local \<Rightarrow> genuine sg revoked local | CrossChecking doc \<Rightarrow> doc_fine sg doc | _ \<Rightarrow> True)"

lemma node_invD:
  assumes "node_inv sg n"
  shows "no_authority n = Some da \<Longrightarrow> registry_wf sg (da_revoked da) (da_active_relays da)"
    "no_authority n = Some da \<Longrightarrow> votes_fine sg (da_signed_epochs da)"
    "no_authority n = Some da \<Longrightarrow> good_task sg (da_revoked da) (task_of h n)"
    "task_of h n = CrossChecking doc \<Longrightarrow> doc_fine sg doc"
  using assms by (auto simp: node_inv_def good_task_def split: auth_task.split)

lemma good_change_refl: "node_inv sg n \<Longrightarrow> no_authority n = Some da \<Longrightarrow> good_change sg da da"
  using node_invD(1,2) by (simp add: good_change_def)

lemma node_inv_change:
  assumes inv: "node_inv sg n" and da: "no_authority n = Some da" and c: "good_change sg da da'"
    and n': "no_authority n' = Some da'"
    and t: "\<And>h'. h' \<noteq> h \<Longrightarrow> task_of h' n' = task_of h' n" "good_task sg (da_revoked da) (task_of h n')"
  shows "node_inv sg n'"
proof -
  have ok: "good_task sg (da_revoked da) (task_of h' n')" for h'
    using t node_invD(3) [OF inv da, of h'] by (cases "h' = h") auto
  have g: "task_of h' n' = Reconciling goal local \<Longrightarrow> genuine sg (da_revoked da) local"
    "task_of h' n' = CrossChecking doc \<Longrightarrow> doc_fine sg doc" for h' goal local doc
    using ok [of h'] by (simp_all add: good_task_def)
  then show ?thesis using c n' by (auto simp: node_inv_def good_change_def)
qed

lemma node_start:
  "node_inv sg (start_node sg aj dp fault revoked endpoints peers n)"
proof -
  have "registry_wf sg (da_revoked da) (da_active_relays da) \<and> votes_fine sg (da_signed_epochs da)"
    if "no_authority (start_node sg aj dp fault revoked endpoints peers n) = Some da" for da
    using that by (elim start_node_Some) (auto simp: with_persistent_key_def with_difficulty_def with_revoked_identities_def Let_def
        registry_wf_def genuine_def votes_fine_def [of sg "[]"] split: option.splits if_splits intro: load_votes_fine)
  then show ?thesis by (simp add: node_inv_def start_node_def task_of_def)
qed

lemma node_vote:
  assumes inv: "node_inv sg n" and da: "no_authority n = Some da"
    and s: "on_vote sg hx aj h de now goal relays da n = (n', outs)"
  shows "node_inv sg n' \<and> (\<exists>da'. no_authority n' = Some da' \<and> good_change sg da da') \<and> (\<forall>h c. Published h c \<notin> set outs)"
proof -
  obtain da' d' r where fv: "frozen_view sg aj de now relays da (no_disk n) = (da', d', r)" by (metis prod_cases3)
  note f = frozen_view_fine [OF node_invD(2) [OF inv da] fv]
  have n': "no_authority n' = Some da'" "\<And>h'. h' \<noteq> h \<Longrightarrow> task_of h' n' = task_of h' n"
    "task_of h n' = AtRest \<or> (\<exists>doc. r = Inr doc \<and> task_of h n' = CrossChecking doc)"
    using s fv by (auto simp: on_vote_def Let_def split: auth_goal.splits sum.splits)
  have c: "good_change sg da da'" using f node_invD(1) [OF inv da] by (simp add: good_change_def)
  have "good_task sg (da_revoked da) (task_of h n')" using n'(3) f(2) by (auto simp: good_task_def)
  from node_inv_change [OF inv da c n'(1,2) this] have "node_inv sg n'" .
  moreover have "Published h' x \<notin> set outs" for h' x
    using s fv by (auto simp: on_vote_def Let_def split: auth_goal.splits sum.splits list.splits if_splits)
  ultimately show ?thesis using n'(1) c by blast
qed

lemma node_request:
  assumes inv: "node_inv sg n" and da: "no_authority n = Some da"
    and s: "on_request sg aj h frame now da n = (n', outs)"
  shows "node_inv sg n' \<and> (\<exists>da'. no_authority n' = Some da' \<and> good_change sg da da') \<and> (\<forall>h c. Published h c \<notin> set outs)"
proof -
  note reg = node_invD(1) [OF inv da] and vf = node_invD(2) [OF inv da]
  have gl: "good_task sg (da_revoked x) (Reconciling g (reconcile_local x))" if "registry_wf sg (da_revoked x) (da_active_relays x)" for x g
    using registry_filter [OF that] by (simp add: good_task_def reconcile_local_def registry_wf_def)
  have step: ?thesis if "no_authority n' = Some da'" "good_change sg da da'" "\<And>h'. h' \<noteq> h \<Longrightarrow> task_of h' n' = task_of h' n"
    "good_task sg (da_revoked da) (task_of h n')" "\<And>h c. Published h c \<notin> set outs" for da'
    using node_inv_change [OF inv da that(2,1,3,4)] that by blast
  have ev: "good_change sg da (evict_stale now da)"
    using registry_filter [OF reg] filter_advances [OF reg] vf by (simp add: good_change_def evict_stale_def)
  show ?thesis
  proof (cases "parse_request frame")
    case GetConsensus
    have n': "n' = put_task h (Reconciling ForConsensus (reconcile_local (evict_stale now da))) (n\<lparr>no_authority := Some (evict_stale now da)\<rparr>)"
      "outs = []" using s GetConsensus by (simp_all add: on_request_def Let_def)
    have "da_revoked (evict_stale now da) = da_revoked da" by (simp add: evict_stale_def)
    with gl [of "evict_stale now da" ForConsensus] ev show ?thesis
      by (intro step [of "evict_stale now da"]) (auto simp: n' good_change_def)
  next
    case (RegisterRelay json_part)
    show ?thesis
    proof (cases "aj_descriptor aj json_part")
      case (Some desc)
      obtain da' res where r: "register_relay sg now desc da = (da', res)" by (cases "register_relay sg now desc da")
      note rr = register_relay_registry [OF reg r]
      have "good_change sg da da'" using rr vf by (simp add: good_change_def grows_advances)
      then show ?thesis using s RegisterRelay Some r node_invD(3) [OF inv da, of h]
        by (intro step [of da']) (auto simp: on_request_def Let_def)
    qed (use s RegisterRelay inv da good_change_refl [OF inv da] in \<open>auto simp: on_request_def\<close>)
  next
    case (BftCrossCheck digest_hex)
    then show ?thesis using s gl [OF reg] good_change_refl [OF inv da] da
      by (intro step [of da]) (auto simp: on_request_def)
  qed (use s inv da good_change_refl [OF inv da] in \<open>auto simp: on_request_def\<close>)
qed

lemma node_step:
  assumes inv: "node_inv sg n" and s: "auth_step sg hx aj dp e n = (n', outs)"
  shows "node_inv sg n'" "Published h c \<in> set outs \<Longrightarrow> doc_fine sg c"
    "no_authority n = Some da \<Longrightarrow> no_authority n' = Some da' \<Longrightarrow> (\<And>f r c p. e \<noteq> Start f r c p) \<Longrightarrow>
     advances (da_active_relays da) (da_active_relays da')"
proof -
  have "node_inv sg n' \<and> (\<forall>h c. Published h c \<in> set outs \<longrightarrow> doc_fine sg c) \<and>
    ((\<forall>f r c p. e \<noteq> Start f r c p) \<longrightarrow> (\<forall>da. no_authority n = Some da \<longrightarrow> (\<exists>da'. no_authority n' = Some da' \<and> good_change sg da da')))"
  proof (cases "no_authority n")
    case None
    then show ?thesis using s inv node_start by (cases e) auto
  next
    case (Some da)
    have idle: ?thesis if "n' = n" "outs = []" using that inv good_change_refl [OF inv] by auto
    show ?thesis
    proof (cases e)
      case (Start fault revoked endpoints peers)
      then show ?thesis using s node_start by auto
    next
      case (Request h frame now)
      then show ?thesis using s Some idle node_request [OF inv Some, of aj h frame now n' outs] by (auto split: auth_task.splits)
    next
      case (Lists h replies)
      show ?thesis
      proof (cases "task_of h n")
        case (Reconciling goal local)
        obtain da' relays where r: "reconcile_persist (gossip_all sg da replies local) da = (da', relays)"
          by (cases "reconcile_persist (gossip_all sg da replies local) da")
        have "genuine sg (da_revoked da) local" using node_invD(3) [OF inv Some, of h] Reconciling by (simp add: good_task_def)
        note rr = reconcile_persist_registry [OF node_invD(1) [OF inv Some] gossip_all_genuine [OF this] r]
        have c: "good_change sg da da'" using rr node_invD(2) [OF inv Some] by (simp add: good_change_def grows_advances)
        have n': "n' = put_task h (Reconciled goal relays) (n\<lparr>no_authority := Some da'\<rparr>)" "outs = []"
          using s Lists Some Reconciling r by (simp_all add: on_lists_def)
        have "node_inv sg n'" by (rule node_inv_change [OF inv Some c, of _ h]) (simp_all add: n' good_task_def)
        then show ?thesis using c n' Some by auto
      qed (use s Lists Some idle in auto)
    next
      case (Vote h de now)
      then show ?thesis using s Some idle node_vote [OF inv Some] by (auto split: auth_task.splits)
    next
      case (Answers h answers)
      show ?thesis
      proof (cases "task_of h n")
        case (CrossChecking doc)
        have n': "n' = put_task h AtRest n" using s Answers Some CrossChecking by (simp add: on_answers_def)
        have "node_inv sg n'"
          by (rule node_inv_change [OF inv Some good_change_refl [OF inv Some], of _ h]) (simp_all add: n' good_task_def Some)
        moreover have "doc_fine sg x" if "Published h' x \<in> set outs" for h' x
        proof -
          from that s Answers Some CrossChecking have "finish_consensus sg da answers doc = Inr x"
            by (auto simp: on_answers_def split: sum.splits)
          from finish_consensus_extra [OF this] node_invD(4) [OF inv CrossChecking] show ?thesis by (auto simp: doc_fine_def)
        qed
        ultimately show ?thesis using n' Some good_change_refl [OF inv] by auto
      qed (use s Answers Some idle in auto)
    next
      case (Sweep now)
      have c: "good_change sg da (evict_periodic now da)"
        using registry_filter [OF node_invD(1) [OF inv Some]] filter_advances [OF node_invD(1) [OF inv Some]] node_invD(2) [OF inv Some]
        by (simp add: good_change_def evict_periodic_def)
      have n': "n' = n\<lparr>no_authority := Some (evict_periodic now da)\<rparr>" "outs = []" using s Sweep Some by simp_all
      have "node_inv sg n'"
        by (rule node_inv_change [OF inv Some c, of _ 0]) (use node_invD(3) [OF inv Some, of 0] in \<open>simp_all add: n'\<close>)
      then show ?thesis using c n' Some by auto
    qed
  qed
  then show "node_inv sg n'" "Published h c \<in> set outs \<Longrightarrow> doc_fine sg c"
    "no_authority n = Some da \<Longrightarrow> no_authority n' = Some da' \<Longrightarrow> (\<And>f r c p. e \<noteq> Start f r c p) \<Longrightarrow>
     advances (da_active_relays da) (da_active_relays da')"
    by (auto simp: good_change_def)
qed

lemma node_run:
  "node_inv sg n \<Longrightarrow> auth_run sg hx aj dp es n = (n', outs) \<Longrightarrow> node_inv sg n' \<and> (\<forall>h c. Published h c \<in> set outs \<longrightarrow> doc_fine sg c)"
proof (induction es arbitrary: n outs)
  case (Cons e es)
  obtain n1 o1 where s: "auth_step sg hx aj dp e n = (n1, o1)" by (cases "auth_step sg hx aj dp e n")
  obtain o2 where r: "auth_run sg hx aj dp es n1 = (n', o2)" "outs = o1 @ o2"
    using Cons.prems(2) s by (auto simp: Let_def split: prod.splits)
  from Cons.IH [OF node_step(1) [OF Cons.prems(1) s] r(1)] node_step(2) [OF Cons.prems(1) s] r(2) show ?case by auto
qed simp

lemma node_inv_fresh: "node_inv sg (fresh_node d)"
  by (simp add: node_inv_def fresh_node_def task_of_def)

text \<open>
  C8. The registry of a directory authority stays sound. Whatever is registered, gossiped, evicted or
  restarted: each entry stands under its node name with a descriptor that its own identity signed, no
  entry belongs to a retired identity, there are at most 512, and two entries never share an identity
  pin, a component key or an endpoint; published documents list only such descriptors; and no event of
  a running process replaces an entry by one of another identity or of an earlier time.
\<close>

theorem authority_registry_sound:
  assumes "auth_run sg hx aj dp es (fresh_node d) = (n, outs)" and "no_authority n = Some da"
  shows "distinct (map fst (da_active_relays da)) \<and> length (da_active_relays da) \<le> MAX_DIRECTORY_RELAYS
    \<and> (\<forall>(k, r) \<in> set (da_active_relays da). rd_node_id r = k \<and> verify_identity sg r \<and> rd_identity_pin r \<notin> set (da_revoked da))
    \<and> (\<forall>(k, r) \<in> set (da_active_relays da). \<forall>(k', r') \<in> set (da_active_relays da). k \<noteq> k' \<longrightarrow>
        rd_identity_pin r \<noteq> rd_identity_pin r' \<and> subslice 8 40 (rd_signature r) \<noteq> subslice 8 40 (rd_signature r') \<and>
        subslice 40 PUBLIC_KEY_SIZE (rd_signature r) \<noteq> subslice 40 PUBLIC_KEY_SIZE (rd_signature r') \<and>
        (rd_host r, rd_port r) \<noteq> (rd_host r', rd_port r'))
    \<and> (\<forall>h c. Published h c \<in> set outs \<longrightarrow> list_all (verify_identity sg) (cd_relays c) \<and> length (cd_relays c) \<le> MAX_DIRECTORY_RELAYS)
    \<and> (\<forall>e n' os da' k r r'. auth_step sg hx aj dp e n = (n', os) \<and> (\<forall>f i c p. e \<noteq> Start f i c p) \<and> no_authority n' = Some da' \<and>
        map_of (da_active_relays da) k = Some r \<and> map_of (da_active_relays da') k = Some r' \<longrightarrow>
        rd_identity_pin r' = rd_identity_pin r \<and> rd_registered_at r \<le> rd_registered_at r')"
proof -
  note run = node_run [OF node_inv_fresh assms(1)]
  have inv: "node_inv sg n" using run ..
  have wf: "registry_wf sg (da_revoked da) (da_active_relays da)" by (rule node_invD(1) [OF inv assms(2)])
  have size: "length (rd_signature r) = PROOF_SIZE" if "verify_identity sg r" for r
    using that by (auto simp: verify_identity_def split: if_splits)
  have adv: "rd_identity_pin r' = rd_identity_pin r \<and> rd_registered_at r \<le> rd_registered_at r'"
    if "auth_step sg hx aj dp e n = (n', os)" "\<forall>f i c p. e \<noteq> Start f i c p" "no_authority n' = Some da'"
      "map_of (da_active_relays da) k = Some r" "map_of (da_active_relays da') k = Some r'" for e n' os da' k r r'
    using node_step(3) [OF inv that(1) assms(2) that(3)] that(2,4,5) unfolding advances_def by blast
  have apart: "rd_identity_pin r \<noteq> rd_identity_pin r' \<and> subslice 8 40 (rd_signature r) \<noteq> subslice 8 40 (rd_signature r') \<and>
        subslice 40 PUBLIC_KEY_SIZE (rd_signature r) \<noteq> subslice 40 PUBLIC_KEY_SIZE (rd_signature r') \<and>
        (rd_host r, rd_port r) \<noteq> (rd_host r', rd_port r')"
    if "(k, r) \<in> set (da_active_relays da)" "(k', r') \<in> set (da_active_relays da)" "k \<noteq> k'" for k r k' r'
  proof -
    have "verify_identity sg r" "verify_identity sg r'" "rd_node_id r = k" "rd_node_id r' = k'" "\<not> clash r r'"
      using wf that(1,2) by (auto simp: registry_wf_def genuine_def)
    with size [of r] size [of r'] that(3) show ?thesis by (simp add: clash_def)
  qed
  show ?thesis
  proof (intro conjI allI impI ballI; (elim conjE)?)
    show "distinct (map fst (da_active_relays da))" "length (da_active_relays da) \<le> MAX_DIRECTORY_RELAYS"
      using wf by (simp_all add: registry_wf_def genuine_def)
    show "case x of (k, r) \<Rightarrow> rd_node_id r = k \<and> verify_identity sg r \<and> rd_identity_pin r \<notin> set (da_revoked da)"
      if "x \<in> set (da_active_relays da)" for x
      using wf that by (auto simp: registry_wf_def genuine_def)
    show "list_all (verify_identity sg) (cd_relays c)" "length (cd_relays c) \<le> MAX_DIRECTORY_RELAYS"
      if "Published h c \<in> set outs" for h c
      using run that by (auto simp: doc_fine_def)
  next
    fix x
    assume "x \<in> set (da_active_relays da)"
    with apart show "case x of (k, r) \<Rightarrow> \<forall>(k', r') \<in> set (da_active_relays da). k \<noteq> k' \<longrightarrow>
        rd_identity_pin r \<noteq> rd_identity_pin r' \<and> subslice 8 40 (rd_signature r) \<noteq> subslice 8 40 (rd_signature r') \<and>
        subslice 40 PUBLIC_KEY_SIZE (rd_signature r) \<noteq> subslice 40 PUBLIC_KEY_SIZE (rd_signature r') \<and>
        (rd_host r, rd_port r) \<noteq> (rd_host r', rd_port r')"
      by (cases x) blast
  qed (use adv in blast)+
qed

section \<open>Witnesses\<close>

text \<open>An exit relay under the key of the second authority of the consensus witnesses.\<close>

definition descriptor_w :: RelayDescriptor where
  "descriptor_w = RelayDescriptor_new (ascii ''r1'') (ascii ''192.0.2.7'') 9001 (replicate 32 5) [] True 7 300"

definition relay_w :: RelayDescriptor where
  "relay_w = (case sign_with_key sum_sigs auth_b descriptor_w of Inr r \<Rightarrow> r | Inl _ \<Rightarrow> descriptor_w)"

lemma host_w: "valid_host (ascii ''192.0.2.7'')"
  by code_simp

lemma pin_w: "verifying_key sum_sigs auth_b \<noteq> replicate 32 0"
proof
  assume "verifying_key sum_sigs auth_b = replicate 32 0"
  also have "replicate 32 (0 :: u8) = sg_sha256 sum_sigs []"
  proof -
    have "to_be 4 (0 :: u32) = replicate 4 0" by code_simp
    then show ?thesis by (simp add: sum_sigs_def fit_def flip: replicate_add)
  qed
  finally show False
    by (simp add: verifying_key_def fingerprint_def sum_sha_eq_iff public_key_def sum_sigs_public fit_eq_iff sum_fit auth_b_def ascii_def Let_def MAGIC_def)
qed

lemma relay_w: "verify_identity sum_sigs relay_w" "rd_identity_pin relay_w = verifying_key sum_sigs auth_b"
  "rd_node_id relay_w = ascii ''r1''" "rd_is_exit relay_w" "rd_registered_at relay_w = 300" "rd_pow_nonce relay_w = 7"
proof -
  let ?d = "descriptor_w\<lparr>rd_identity_pin := verifying_key sum_sigs auth_b\<rparr>"
  have l: "length (verifying_key sum_sigs auth_b) = 32"
    using sigs_ok_sum by (simp add: verifying_key_def fingerprint_def sigs_okD)
  have "length (compute_signing_bytes ?d) \<le> MAX_MESSAGE"
    by (simp add: compute_signing_bytes_def descriptor_fields_def descriptor_w_def RelayDescriptor_new_def size_defs l)
  from identity_sign_Inr [OF this, of sum_sigs auth_b] obtain pf where pf: "identity_sign sum_sigs auth_b (compute_signing_bytes ?d) = Inr pf"
    by (auto simp: is_ok_iff)
  then have r: "relay_w = ?d\<lparr>rd_signature := pf\<rparr>"
    by (simp add: relay_w_def sign_with_key_def Let_def)
  have same: "compute_signing_bytes relay_w = compute_signing_bytes ?d"
    by (simp add: r compute_signing_bytes_def descriptor_fields_def)
  show "rd_identity_pin relay_w = verifying_key sum_sigs auth_b" "rd_node_id relay_w = ascii ''r1''" "rd_is_exit relay_w"
    "rd_registered_at relay_w = 300" "rd_pow_nonce relay_w = 7"
    by (simp_all add: r descriptor_w_def RelayDescriptor_new_def)
  have f: "rd_host relay_w = ascii ''192.0.2.7''" "rd_port relay_w = 9001" "rd_node_id relay_w = ascii ''r1''"
    "rd_signature relay_w = pf" "rd_identity_pin relay_w = verifying_key sum_sigs auth_b"
    by (simp_all add: r descriptor_w_def RelayDescriptor_new_def)
  have c: "list_all (\<lambda>b. is_lower b \<or> is_upper b \<or> is_digit b \<or> b = 45 \<or> b = 95 \<or> b = 46) (ascii ''r1'')"
    by code_simp
  have ne: "ascii ''r1'' \<noteq> []" "ascii ''192.0.2.7'' \<noteq> []" by (simp_all add: ascii_def)
  show "verify_identity sum_sigs relay_w"
    unfolding verify_identity_def same f
    using host_w c ne pin_w identity_sign_length [OF sigs_ok_sum pf] identity_sign_verify_aux [OF sigs_ok_sum pf]
    by (simp add: VerifyingKey_from_bytes_def is_ok_iff)
qed

text \<open>A concrete encoding of votes, for the JSON parameter.\<close>

definition enc_relay :: "RelayDescriptor \<Rightarrow> bytes" where
  "enc_relay r = enc_texts [rd_node_id r, rd_host r, to_be 2 (rd_port r), rd_onion_key_x25519 r, rd_identity_pin r,
     [if rd_is_exit r then 1 else 0], to_be 8 (rd_pow_nonce r), to_be 8 (rd_registered_at r), rd_signature r]"

definition dec_relay :: "bytes \<Rightarrow> RelayDescriptor option" where
  "dec_relay bs =
    (case dec_texts (length bs) bs of
       Some [n, h, p, k, i, x, w, t, s] \<Rightarrow>
         Some \<lparr>rd_node_id = n, rd_host = h, rd_port = from_be p, rd_onion_key_x25519 = k, rd_identity_pin = i,
           rd_is_exit = (x = [1]), rd_pow_nonce = from_be w, rd_registered_at = from_be t, rd_signature = s\<rparr>
     | _ \<Rightarrow> None)"

definition enc_sig :: "AuthoritySignature \<Rightarrow> bytes" where
  "enc_sig s = enc_texts [as_authority_id s, as_signature_bytes s]"

definition dec_sig :: "bytes \<Rightarrow> AuthoritySignature option" where
  "dec_sig bs = (case dec_texts (length bs) bs of Some [i, s] \<Rightarrow> Some \<lparr>as_authority_id = i, as_signature_bytes = s\<rparr> | _ \<Rightarrow> None)"

definition dec_all :: "(bytes \<Rightarrow> 'a option) \<Rightarrow> bytes \<Rightarrow> 'a list option" where
  "dec_all f bs = (case dec_texts (length bs) bs of None \<Rightarrow> None | Some ts \<Rightarrow> those (map f ts))"

definition enc_doc :: "ConsensusDocument \<Rightarrow> bytes" where
  "enc_doc cd = enc_texts [to_be 8 (cd_valid_after cd), to_be 8 (cd_valid_until cd), enc_texts (map enc_relay (cd_relays cd)),
     enc_texts (map enc_sig (cd_signatures cd))]"

definition dec_doc :: "bytes \<Rightarrow> ConsensusDocument option" where
  "dec_doc bs =
    (case dec_texts (length bs) bs of
       Some [a, b, rs, ss] \<Rightarrow>
         (case (dec_all dec_relay rs, dec_all dec_sig ss) of
            (Some relays, Some sigs) \<Rightarrow>
              Some \<lparr>cd_valid_after = from_be a, cd_valid_until = from_be b, cd_relays = relays, cd_signatures = sigs\<rparr>
          | _ \<Rightarrow> None)
     | _ \<Rightarrow> None)"

definition plain_json :: auth_json where
  "plain_json = \<lparr>aj_votes = dec_all dec_doc, aj_encode = (\<lambda>docs. enc_texts (map enc_doc docs)), aj_descriptor = (\<lambda>_. Some relay_w)\<rparr>"

lemma dec_all_enc: "(\<And>x. f (g x) = Some x) \<Longrightarrow> dec_all f (enc_texts (map g xs)) = Some xs"
proof -
  assume "\<And>x. f (g x) = Some x"
  then have "those (map f (map g xs)) = Some xs" by (induction xs) simp_all
  then show ?thesis by (simp add: dec_all_def dec_enc_texts)
qed

lemma plain_json_ok: "auth_json_ok plain_json"
proof -
  have r: "dec_relay (enc_relay r) = Some r" for r
    unfolding dec_relay_def enc_relay_def by (subst dec_enc_texts) (simp_all add: be16.dec_enc be64.dec_enc)
  have s: "dec_sig (enc_sig x) = Some x" for x
    unfolding dec_sig_def enc_sig_def by (subst dec_enc_texts) simp_all
  have d: "dec_doc (enc_doc cd) = Some cd" for cd
    unfolding dec_doc_def enc_doc_def by (subst dec_enc_texts) (simp_all add: be64.dec_enc dec_all_enc [OF r] dec_all_enc [OF s])
  show ?thesis unfolding auth_json_ok_def plain_json_def by (simp add: dec_all_enc [OF d])
qed

definition deployment_w :: auth_deployment where
  "deployment_w = \<lparr>dp_authority_id = [65], dp_listen_addr = [], dp_pow_difficulty = 0, dp_signing_key = auth_a, dp_vote_path = ''votes''\<rparr>"

text \<open>A process that starts without a vote file and registers the relay.\<close>

definition register_w :: "auth_event list" where
  "register_w = [Start (\<lambda>_. False) [] [] [], Request 0 (ascii ''REGISTER_RELAY {}'') 300]"

lemma request_w: "parse_request (ascii ''REGISTER_RELAY {}'') = RegisterRelay (ascii ''{}'')"
  by code_simp

lemma register_run_w:
  "\<exists>n da. auth_run sum_sigs lower_hex plain_json deployment_w register_w (fresh_node []) = (n, [Answered 0 (ascii ''OK_REGISTERED'')]) \<and>
    no_authority n = Some da \<and> da_active_relays da = [(ascii ''r1'', relay_w)]"
proof -
  define da where "da = (with_difficulty [65] [] 0 auth_a)\<lparr>da_require_usable := True, da_vote_path := Some ''votes''\<rparr>"
  define n1 where "n1 = (fresh_node [])\<lparr>no_authority := Some da\<rparr>"
  have start: "auth_step sum_sigs lower_hex plain_json deployment_w (Start (\<lambda>_. False) [] [] []) (fresh_node []) = (n1, [])"
    by (simp add: start_node_def deployment_w_def with_persistent_key_def read_bounded_file_def open_regular_file_def ebind_def
        size_defs n1_def da_def fresh_node_def with_revoked_identities_def with_difficulty_def)
  have "ascii ''r1'' \<noteq> []" by (simp add: ascii_def)
  then have reg: "\<exists>da'. register_relay sum_sigs 300 relay_w da = (da', Inr ()) \<and> da_active_relays da' = [(ascii ''r1'', relay_w)]"
    by (simp add: register_relay_def relay_w da_def with_difficulty_def verify_pow_def abs_diff_def relay_conflicts_def
        check_and_record_def NonceRegistry_new_def purge_def size_defs Let_def)
  then obtain da' where da': "register_relay sum_sigs 300 relay_w da = (da', Inr ())" "da_active_relays da' = [(ascii ''r1'', relay_w)]"
    by blast
  have "auth_step sum_sigs lower_hex plain_json deployment_w (Request 0 (ascii ''REGISTER_RELAY {}'') 300) n1 =
      (n1\<lparr>no_authority := Some da'\<rparr>, [Answered 0 (ascii ''OK_REGISTERED'')])"
    by (simp add: n1_def task_of_def fresh_node_def on_request_def request_w plain_json_def is_ok_def da')
  then show ?thesis using da'(2) by (simp add: register_w_def start del: auth_step.simps)
qed

theorem authority_registry_sound_witness:
  "\<exists>n da. auth_run sum_sigs lower_hex plain_json deployment_w register_w (fresh_node []) = (n, [Answered 0 (ascii ''OK_REGISTERED'')]) \<and>
    no_authority n = Some da \<and> da_active_relays da = [(ascii ''r1'', relay_w)] \<and> verify_identity sum_sigs relay_w \<and>
    rd_identity_pin relay_w \<notin> set (da_revoked da)"
proof -
  obtain n da where r: "auth_run sum_sigs lower_hex plain_json deployment_w register_w (fresh_node []) = (n, [Answered 0 (ascii ''OK_REGISTERED'')])"
    "no_authority n = Some da" "da_active_relays da = [(ascii ''r1'', relay_w)]" using register_run_w by blast
  with authority_registry_sound [OF r(1,2)] show ?thesis by auto
qed

text \<open>A process that finds the vote of the epoch on disk and publishes it.\<close>

definition base_w :: ConsensusDocument where
  "base_w = ConsensusDocument_new 300 900 [relay_w, relay_w, relay_w]"

definition vote_w :: ConsensusDocument where
  "vote_w = (case sign_with_authority sum_sigs [65] auth_a base_w of Inr cd \<Rightarrow> cd | Inl _ \<Rightarrow> base_w)"

definition votes_file_w :: bytes where
  "votes_file_w = aj_encode plain_json [vote_w]"

lemma vote_w:
  "sign_with_authority sum_sigs [65] auth_a base_w = Inr vote_w"
  "cd_valid_after vote_w = 300" "cd_relays vote_w = [relay_w, relay_w, relay_w]"
  "\<exists>pf. cd_signatures vote_w = [\<lparr>as_authority_id = [65], as_signature_bytes = pf\<rparr>] \<and> length pf = PROOF_SIZE"
proof -
  have "length (compute_digest sum_sigs base_w) \<le> MAX_MESSAGE"
    using sigs_ok_sum by (simp add: compute_digest_def sigs_okD size_defs)
  from identity_sign_Inr [OF this, of sum_sigs auth_a] obtain pf where pf: "identity_sign sum_sigs auth_a (compute_digest sum_sigs base_w) = Inr pf"
    by (auto simp: is_ok_iff)
  then have s: "sign_with_authority sum_sigs [65] auth_a base_w =
      Inr (base_w\<lparr>cd_signatures := [\<lparr>as_authority_id = [65], as_signature_bytes = pf\<rparr>]\<rparr>)"
    by (simp add: sign_with_authority_def base_w_def ConsensusDocument_new_def)
  then have v: "vote_w = base_w\<lparr>cd_signatures := [\<lparr>as_authority_id = [65], as_signature_bytes = pf\<rparr>]\<rparr>" by (simp add: vote_w_def)
  show "sign_with_authority sum_sigs [65] auth_a base_w = Inr vote_w" by (simp add: s v)
  show "cd_valid_after vote_w = 300" "cd_relays vote_w = [relay_w, relay_w, relay_w]"
    by (simp_all add: v base_w_def ConsensusDocument_new_def)
  show "\<exists>pf. cd_signatures vote_w = [\<lparr>as_authority_id = [65], as_signature_bytes = pf\<rparr>] \<and> length pf = PROOF_SIZE"
    using identity_sign_length [OF sigs_ok_sum pf] by (simp add: v)
qed

lemma vote_quorum_w: "verify_quorum sum_sigs vote_w [([65], verifying_key sum_sigs auth_a)] 1 300"
  using aggregation_quorum [OF sigs_ok_sum, of base_w 300 "[([65], auth_a)]" vote_w "[]"] vote_w(1)
  by (simp add: base_w_def ConsensusDocument_new_def merge_all_def)

lemma length_enc_text: "length (enc_text bs) = 2 * length bs + 1"
  by (induction bs) simp_all

lemma length_enc_texts: "length (enc_texts ts) = 1 + (\<Sum>t \<leftarrow> ts. 2 * length t + 2)"
  by (induction ts) (simp_all add: length_enc_text)

lemma votes_file_bound_w: "length votes_file_w \<le> VOTES_LIMIT"
proof -
  have s: "length (rd_signature relay_w) = PROOF_SIZE" "length (rd_host relay_w) \<le> 253" "length (rd_node_id relay_w) \<le> 128"
    using relay_w(1) by (auto simp: verify_identity_def split: if_splits)
  have i: "length (rd_identity_pin relay_w) = 32"
    using sigs_ok_sum by (simp add: relay_w(2) verifying_key_def fingerprint_def sigs_okD)
  have k: "length (rd_onion_key_x25519 relay_w) = 32"
    by (auto simp: relay_w_def descriptor_w_def RelayDescriptor_new_def sign_with_key_def Let_def ebind_def split: sum.split)
  have "length (enc_relay relay_w) \<le> 13000"
    using s i k by (simp add: enc_relay_def length_enc_texts length_enc_text size_defs)
  moreover obtain pf where "cd_signatures vote_w = [\<lparr>as_authority_id = [65], as_signature_bytes = pf\<rparr>]" "length pf = PROOF_SIZE"
    using vote_w(4) by blast
  ultimately show ?thesis
    by (simp add: votes_file_w_def plain_json_def enc_doc_def enc_sig_def length_enc_texts length_enc_text vote_w(3) size_defs)
qed

definition publish_w :: "auth_event list" where
  "publish_w = [Start (\<lambda>_. False) [] [] [], Request 0 (ascii ''GET_CONSENSUS'') 310, Lists 0 [],
     Vote 0 \<lparr>de_fault = (\<lambda>_. False), de_part = 0, de_temp = ''tmp''\<rparr> 310, Answers 0 []]"

definition disk_w :: fs where
  "disk_w = [(''votes'', plain_file votes_file_w)]"

definition authority_w :: DirectoryAuthority where
  "authority_w = (with_difficulty [65] [] 0 auth_a)
     \<lparr>da_require_usable := True, da_signed_epochs := [(300, vote_w)], da_vote_path := Some ''votes''\<rparr>"

definition node_w :: "auth_task \<Rightarrow> auth_node" where
  "node_w t = put_task 0 t \<lparr>no_authority = Some authority_w, no_tasks = [], no_disk = disk_w\<rparr>"

lemma node_w_simps [simp]:
  "no_authority (node_w t) = Some authority_w" "no_disk (node_w t) = disk_w" "task_of 0 (node_w t) = t"
  "put_task 0 t' (node_w t) = node_w t'" "put_task 0 t' ((node_w t)\<lparr>no_authority := Some authority_w\<rparr>) = node_w t'"
  "put_task 0 t' ((node_w t)\<lparr>no_authority := Some authority_w, no_disk := disk_w\<rparr>) = node_w t'"
  by (simp_all add: node_w_def) (simp_all add: put_task_def)

lemma frozen_view_w: "frozen_view sg aj de 310 [] authority_w disk_w = (authority_w, disk_w, Inr vote_w)"
proof -
  have "(310 :: u64) div 300 * 300 = 300" by code_simp
  then show ?thesis
    by (simp add: frozen_view_def authority_w_def with_difficulty_def vote_w(3) usable_def relay_w(4))
qed

lemma publish_steps_w:
  assumes relay: "verify_identity sg relay_w" and quorum: "verify_quorum sg vote_w [([65], verifying_key sg auth_a)] 1 300"
  shows "auth_step sg hx plain_json deployment_w (Start (\<lambda>_. False) [] [] []) (fresh_node disk_w) =
      (\<lparr>no_authority = Some authority_w, no_tasks = [], no_disk = disk_w\<rparr>, [])"
    and "auth_step sg hx plain_json deployment_w (Request 0 (ascii ''GET_CONSENSUS'') 310)
      \<lparr>no_authority = Some authority_w, no_tasks = [], no_disk = disk_w\<rparr> = (node_w (Reconciling ForConsensus []), [])"
    and "auth_step sg hx plain_json deployment_w (Lists 0 []) (node_w (Reconciling ForConsensus [])) = (node_w (Reconciled ForConsensus []), [])"
    and "auth_step sg hx plain_json deployment_w (Vote 0 de 310) (node_w (Reconciled ForConsensus [])) = (node_w (CrossChecking vote_w), [])"
    and "auth_step sg hx plain_json deployment_w (Answers 0 []) (node_w (CrossChecking vote_w)) = (node_w AtRest, [Published 0 vote_w])"
proof -
  obtain pf where pf: "cd_signatures vote_w = [\<lparr>as_authority_id = [65], as_signature_bytes = pf\<rparr>]" using vote_w(4) by blast
  have read: "read_bounded_file (\<lambda>_. False) ''votes'' VOTES_LIMIT disk_w = Inr votes_file_w"
    using votes_file_bound_w by (simp add: read_bounded_file_def open_regular_file_def ebind_def disk_w_def plain_file_def size_defs)
  have "aj_votes plain_json votes_file_w = Some [vote_w]"
    using plain_json_ok by (simp add: auth_json_ok_def votes_file_w_def)
  moreover have "load_votes sg [([65], verifying_key sg auth_a)] [] [vote_w] = Some [(300, vote_w)]"
    using quorum by (simp add: vote_w(2,3) pf relay size_defs)
  ultimately show "auth_step sg hx plain_json deployment_w (Start (\<lambda>_. False) [] [] []) (fresh_node disk_w) =
      (\<lparr>no_authority = Some authority_w, no_tasks = [], no_disk = disk_w\<rparr>, [])"
    by (simp add: start_node_def deployment_w_def with_persistent_key_def read authority_w_def fresh_node_def with_revoked_identities_def
        with_difficulty_def del: load_votes.simps)
  have e: "evict_stale 310 authority_w = authority_w" "reconcile_local authority_w = []"
    by (simp_all add: evict_stale_def reconcile_local_def authority_w_def with_difficulty_def)
  have "parse_request (ascii ''GET_CONSENSUS'') = GetConsensus" by code_simp
  with e show "auth_step sg hx plain_json deployment_w (Request 0 (ascii ''GET_CONSENSUS'') 310)
      \<lparr>no_authority = Some authority_w, no_tasks = [], no_disk = disk_w\<rparr> = (node_w (Reconciling ForConsensus []), [])"
    by (simp add: on_request_def task_of_def node_w_def Let_def)
  have "da_active_relays authority_w = []" by (simp add: authority_w_def with_difficulty_def)
  with e(2) have "reconcile_persist [] authority_w = (authority_w, [])" by (simp add: reconcile_persist_def)
  then show "auth_step sg hx plain_json deployment_w (Lists 0 []) (node_w (Reconciling ForConsensus [])) = (node_w (Reconciled ForConsensus []), [])"
    by (simp add: on_lists_def gossip_all_def)
  show "auth_step sg hx plain_json deployment_w (Vote 0 de 310) (node_w (Reconciled ForConsensus [])) = (node_w (CrossChecking vote_w), [])"
    by (simp add: on_vote_def frozen_view_w)
  have "finish_consensus sg authority_w [] vote_w = Inr vote_w"
    by (simp add: finish_consensus_def authority_w_def with_difficulty_def required_signatures_def independent_def List.map_filter_def pf Let_def)
  then show "auth_step sg hx plain_json deployment_w (Answers 0 []) (node_w (CrossChecking vote_w)) = (node_w AtRest, [Published 0 vote_w])"
    by (simp add: on_answers_def)
qed

lemma publish_run_w:
  "\<exists>n. auth_run sum_sigs lower_hex plain_json deployment_w publish_w (fresh_node disk_w) = (n, [Published 0 vote_w])"
  unfolding publish_w_def
  by (simp add: publish_steps_w [OF relay_w(1) vote_quorum_w] del: auth_step.simps)


end
