(* ===== verification/Agreement.thy ===== *)
theory Agreement
  imports AuthorityRegistry
begin

text \<open>
  Agreement across the directory: what clients may conclude when authorities that behave like the
  model vote, and fewer than the rest of the quorum misbehave. It joins the quorum check of clients
  (\<open>src/src/mesh/consensus.rs\<close>) with the one vote per epoch of authorities
  (\<open>src/src/mesh/authority.rs\<close>).
\<close>

section \<open>The votes of a run\<close>

definition vote_of :: "sigs \<Rightarrow> auth_json \<Rightarrow> auth_event \<Rightarrow> auth_node \<Rightarrow> ConsensusDocument option" where
  "vote_of sg aj e n =
    (case e of
       Vote h de now \<Rightarrow>
         (case (no_authority n, task_of h n) of
            (Some da, Reconciled goal relays) \<Rightarrow>
              (case frozen_view sg aj de now relays da (no_disk n) of (_, _, Inr doc) \<Rightarrow> Some doc | _ \<Rightarrow> None)
          | _ \<Rightarrow> None)
     | _ \<Rightarrow> None)"

fun votes_of :: "sigs \<Rightarrow> hexc \<Rightarrow> auth_json \<Rightarrow> auth_deployment \<Rightarrow> auth_event list \<Rightarrow> auth_node \<Rightarrow> ConsensusDocument list" where
  "votes_of sg hx aj dp [] n = []"
| "votes_of sg hx aj dp (e # es) n =
    (case vote_of sg aj e n of None \<Rightarrow> [] | Some doc \<Rightarrow> [doc]) @ votes_of sg hx aj dp es (fst (auth_step sg hx aj dp e n))"

lemma vote_of_step:
  assumes inv: "vote_inv aj dp vote n" and js: "auth_json_ok aj" and t: "own_temp dp e"
  shows "\<exists>vote'. vote \<subseteq>\<^sub>m vote' \<and> vote_inv aj dp vote' (fst (auth_step sg hx aj dp e n)) \<and>
    (\<forall>doc. vote_of sg aj e n = Some doc \<longrightarrow> vote' (cd_valid_after doc) = Some doc)"
proof (cases "vote_of sg aj e n")
  case None
  then show ?thesis using vote_auth_step [OF inv js t, of sg hx] by (cases "auth_step sg hx aj dp e n") auto
next
  case (Some doc)
  then obtain h de now da goal relays da' d' where e: "e = Vote h de now" and da: "no_authority n = Some da"
    and r: "task_of h n = Reconciled goal relays" and fv: "frozen_view sg aj de now relays da (no_disk n) = (da', d', Inr doc)"
    by (auto simp: vote_of_def split: auth_event.splits option.splits auth_task.splits prod.splits sum.splits)
  have "de_temp de \<noteq> dp_vote_path dp" using t e by simp
  from vote_step [OF inv da fv this js] obtain vote' where v: "vote \<subseteq>\<^sub>m vote'"
    "vote_inv aj dp vote' (n\<lparr>no_authority := Some da', no_disk := d'\<rparr>)" "vote' (cd_valid_after doc) = Some doc" by blast
  have "vote_inv aj dp vote' (fst (auth_step sg hx aj dp e n))"
    by (rule vote_inv_frame [OF v(2)])
      (use e da r fv v(3) vote_invD(7) [OF v(2)] in \<open>auto simp: on_vote_def Let_def split: auth_goal.splits if_splits\<close>)
  then show ?thesis using v Some by auto
qed

lemma votes_of_run:
  "vote_inv aj dp vote n \<Longrightarrow> auth_json_ok aj \<Longrightarrow> list_all (own_temp dp) es \<Longrightarrow>
   \<exists>vote'. vote \<subseteq>\<^sub>m vote' \<and> (\<forall>doc \<in> set (votes_of sg hx aj dp es n). vote' (cd_valid_after doc) = Some doc)"
proof (induction es arbitrary: vote n)
  case Nil
  then show ?case by (intro exI [of _ vote]) simp
next
  case (Cons e es)
  have t: "own_temp dp e" "list_all (own_temp dp) es" using Cons.prems(3) by simp_all
  from vote_of_step [OF Cons.prems(1,2) t(1)] obtain v1 where v1: "vote \<subseteq>\<^sub>m v1"
    "vote_inv aj dp v1 (fst (auth_step sg hx aj dp e n))"
    "\<And>doc. vote_of sg aj e n = Some doc \<Longrightarrow> v1 (cd_valid_after doc) = Some doc" by blast
  from Cons.IH [OF v1(2) Cons.prems(2) t(2)] obtain v2 where v2: "v1 \<subseteq>\<^sub>m v2"
    "\<forall>doc \<in> set (votes_of sg hx aj dp es (fst (auth_step sg hx aj dp e n))). v2 (cd_valid_after doc) = Some doc" by blast
  have "v2 (cd_valid_after doc) = Some doc" if "vote_of sg aj e n = Some doc" for doc
    using v1(3) [OF that] v2(1) by (metis domI map_le_def)
  then show ?case using v2(2) map_le_trans [OF v1(1) v2(1)] by (intro exI [of _ v2]) (auto split: option.splits)
qed

lemma one_vote_per_epoch:
  assumes "auth_json_ok aj" "list_all (own_temp dp) es" "x \<in> set (votes_of sg hx aj dp es (fresh_node d))"
    "y \<in> set (votes_of sg hx aj dp es (fresh_node d))" "cd_valid_after x = cd_valid_after y"
  shows "x = y"
proof -
  from votes_of_run [OF vote_inv_fresh assms(1,2), of sg hx d] obtain vote where
    "\<forall>doc \<in> set (votes_of sg hx aj dp es (fresh_node d)). vote (cd_valid_after doc) = Some doc" by blast
  with assms(3-5) show ?thesis by (metis option.inject)
qed

section \<open>Quorums\<close>

lemma quorum_pins:
  assumes "verify_quorum sg cd trusted t now"
  obtains Q where "Q \<subseteq> snd ` set trusted" "t \<le> card Q" "\<And>p. p \<in> Q \<Longrightarrow> \<exists>pf. verify_strict sg p (compute_digest sg cd) pf = Inr ()"
proof -
  from assms obtain v where v: "quorum_loop sg trusted (compute_digest sg cd) no_votes (cd_signatures cd) = Some v" and q: "t \<le> vo_count v"
    by (auto simp: verify_quorum_def split: if_splits option.splits)
  from quorum_loop_sound [OF tally_no_votes v] obtain ss where ss: "tally sg trusted (compute_digest sg cd) v ss" by auto
  let ?pin = "\<lambda>s. the (map_of trusted (as_authority_id s))"
  have d: "distinct (map ?pin ss)" "t \<le> length ss" "list_all (counts sg trusted (compute_digest sg cd)) ss"
    using ss q by (auto simp: tally_def)
  have pin: "?pin s \<in> snd ` set trusted" if s: "s \<in> set ss" for s
  proof -
    from d(3) s obtain pin where "map_of trusted (as_authority_id s) = Some pin" by (auto simp: list_all_iff counts_def)
    with imageI [OF map_of_SomeD [OF this], of snd] show ?thesis by simp
  qed
  show thesis
  proof
    show "set (map ?pin ss) \<subseteq> snd ` set trusted" using pin by auto
    show "t \<le> card (set (map ?pin ss))" using d(1,2) distinct_card [OF d(1)] by simp
    show "\<exists>pf. verify_strict sg p (compute_digest sg cd) pf = Inr ()" if "p \<in> set (map ?pin ss)" for p
      using that d(3) by (fastforce simp: list_all_iff counts_def)
  qed
qed

lemma quorums_meet:
  fixes U :: "'a set"
  assumes "finite U" "A \<subseteq> U" "B \<subseteq> U" "t \<le> card A" "t \<le> card B" "card (U - H) + card U < 2 * t"
  obtains p where "p \<in> A" "p \<in> B" "p \<in> H"
proof (rule ccontr)
  assume "\<not> thesis"
  then have sub: "A \<inter> B \<subseteq> U - H" using that assms(2) by blast
  have fin: "finite A" "finite B" using assms(1-3) finite_subset by blast+
  have "card A + card B = card (A \<union> B) + card (A \<inter> B)" by (rule card_Un_Int [OF fin])
  moreover have "card (A \<union> B) \<le> card U" using assms(1-3) by (intro card_mono) auto
  moreover have "card (A \<inter> B) \<le> card (U - H)" using assms(1) sub by (intro card_mono) auto
  ultimately show False using assms(4-6) by linarith
qed

section \<open>Agreement\<close>

text \<open>An authority that runs the program: its pin, and everything that happens to it.\<close>

record honest_run =
  hr_deployment :: auth_deployment
  hr_events :: "auth_event list"
  hr_disk :: fs

definition cast_votes :: "sigs \<Rightarrow> hexc \<Rightarrow> auth_json \<Rightarrow> honest_run \<Rightarrow> ConsensusDocument set" where
  "cast_votes sg hx aj hr = set (votes_of sg hx aj (hr_deployment hr) (hr_events hr) (fresh_node (hr_disk hr)))"

text \<open>
  What is assumed of the signatures: a proof on the digest of a document that verifies under the pin
  of an honest authority is over the digest of a vote that authority handed on.
\<close>

definition unforgeable :: "sigs \<Rightarrow> hexc \<Rightarrow> auth_json \<Rightarrow> (bytes \<times> honest_run) list \<Rightarrow> bool" where
  "unforgeable sg hx aj hrs \<longleftrightarrow> (\<forall>(pin, hr) \<in> set hrs. \<forall>c pf. verify_strict sg pin (compute_digest sg c) pf = Inr () \<longrightarrow>
    compute_digest sg c \<in> compute_digest sg ` cast_votes sg hx aj hr)"

text \<open>What is assumed of the hash: no collision between the texts at hand.\<close>

definition collision_free :: "sigs \<Rightarrow> ConsensusDocument set \<Rightarrow> bool" where
  "collision_free sg docs \<longleftrightarrow> inj_on (sg_sha256 sg) (consensus_bytes ` docs)"

lemma consensus_bytes_epoch: "consensus_bytes x = consensus_bytes y \<Longrightarrow> cd_valid_after x = cd_valid_after y"
  by (simp add: consensus_bytes_def be64.enc_append_eq_iff)


section \<open>Witness\<close>

text \<open>
  An instance whose signatures cannot be forged for the pin of the first authority: a transcript
  that carries this pin is accepted only when it is the one of the authority's vote.
\<close>

abbreviation "pin_w \<equiv> verifying_key sum_sigs auth_a"
abbreviation "digest_w \<equiv> compute_digest sum_sigs vote_w"

definition transcript_w :: "bytes \<Rightarrow> bytes \<Rightarrow> bytes" where
  "transcript_w pin dg = ascii ''AnonGuard-HybridIdentity-Proof-v1'' @ pin @ [of_nat (length NETWORK_PURPOSE)] @ NETWORK_PURPOSE @
     to_be 8 (of_nat (length dg) :: u64) @ dg"

definition sealed_sigs :: sigs where
  "sealed_sigs = sum_sigs\<lparr>ed_verify := \<lambda>pk m s. ed_verify sum_sigs pk m s \<and>
     (take 65 m = take 65 (transcript_w pin_w digest_w) \<longrightarrow> m = transcript_w pin_w digest_w)\<rparr>"

lemma sealed_sel [simp]:
  "sg_sha256 sealed_sigs = sg_sha256 sum_sigs" "ed_public sealed_sigs = ed_public sum_sigs" "ed_valid sealed_sigs = ed_valid sum_sigs"
  "ed_weak sealed_sigs = ed_weak sum_sigs" "ed_sig_ok sealed_sigs = ed_sig_ok sum_sigs" "pq_public sealed_sigs = pq_public sum_sigs"
  "pq_sig_ok sealed_sigs = pq_sig_ok sum_sigs" "pq_verify sealed_sigs = pq_verify sum_sigs"
  by (simp_all add: sealed_sigs_def)

lemma sealed_ed_verify: "ed_verify sealed_sigs pk m s \<longleftrightarrow> ed_verify sum_sigs pk m s \<and>
     (take 65 m = take 65 (transcript_w pin_w digest_w) \<longrightarrow> m = transcript_w pin_w digest_w)"
  by (simp add: sealed_sigs_def)

lemma sealed_same [simp]:
  "fingerprint sealed_sigs k = fingerprint sum_sigs k"
  "verifying_key sealed_sigs key = verifying_key sum_sigs key" "compute_digest sealed_sigs cd = compute_digest sum_sigs cd"
  "Signature_public_key sealed_sigs b = Signature_public_key sum_sigs b" "component_pins sealed_sigs b = component_pins sum_sigs b"
  by (simp_all add: fingerprint_def verifying_key_def public_key_def compute_digest_def Signature_public_key_def
      decode_public_key_def component_pins_def Let_def)

lemma sealed_verify:
  assumes "length pin = 32" and v: "verify_strict sum_sigs pin dg pf = Inr ()"
  shows "verify_strict sealed_sigs pin dg pf = Inr () \<longleftrightarrow> (pin = pin_w \<longrightarrow> dg = digest_w)"
proof -
  from v obtain key where key: "Signature_public_key sum_sigs pf = Inr key" "fingerprint sum_sigs key = pin"
    and h: "hybrid_verify sum_sigs key NETWORK_PURPOSE dg (drop PUBLIC_KEY_SIZE pf) = Inr ()"
    by (auto simp: verify_strict_def ebind_eq_Inr split: if_splits)
  have l: "length pin_w = 32" using sigs_ok_sum by (simp add: verifying_key_def fingerprint_def sigs_okD)
  have t: "transcript sg key NETWORK_PURPOSE dg = Inr (transcript_w pin dg)" if "fingerprint sg key = pin" "sg = sum_sigs \<or> sg = sealed_sigs" for sg
    using h that key(2) by (auto simp: hybrid_verify_def ebind_eq_Inr transcript_def transcript_w_def split: if_splits)
  have "take 65 (transcript_w pin dg) = take 65 (transcript_w pin_w digest_w) \<longleftrightarrow> pin = pin_w"
    using assms(1) l by (simp add: transcript_w_def)
  moreover have "transcript_w pin_w dg = transcript_w pin_w digest_w \<longleftrightarrow> dg = digest_w"
    by (auto simp: transcript_w_def be64.enc_append_eq_iff)
  ultimately have "(take 65 (transcript_w pin dg) = take 65 (transcript_w pin_w digest_w) \<longrightarrow> transcript_w pin dg = transcript_w pin_w digest_w)
      \<longleftrightarrow> (pin = pin_w \<longrightarrow> dg = digest_w)" by auto
  with h show ?thesis
    by (simp add: verify_strict_def key ebind_def hybrid_verify_def t key(2) Let_def sealed_ed_verify split: if_splits sum.splits)
qed

lemma sealed_weaker: "verify_strict sealed_sigs pin dg pf = Inr () \<Longrightarrow> verify_strict sum_sigs pin dg pf = Inr ()"
  by (auto simp: verify_strict_def hybrid_verify_def transcript_def sealed_ed_verify ebind_eq_Inr Let_def split: if_splits)

lemma length_pins: "length (verifying_key sum_sigs k) = 32"
  using sigs_ok_sum by (simp add: verifying_key_def fingerprint_def sigs_okD)

lemma sealed_relay: "verify_identity sealed_sigs relay_w"
proof -
  have "verify_strict sum_sigs (verifying_key sum_sigs auth_b) (compute_signing_bytes relay_w) (rd_signature relay_w) = Inr ()"
    using relay_w(1) by (auto simp: verify_identity_def relay_w(2) VerifyingKey_from_bytes_def is_ok_iff split: if_splits)
  from sealed_verify [OF length_pins this] sum_keys(3)
  have "verify_strict sealed_sigs (verifying_key sum_sigs auth_b) (compute_signing_bytes relay_w) (rd_signature relay_w) = Inr ()" by simp
  then show ?thesis
    using relay_w(1) by (auto simp: verify_identity_def relay_w(2) VerifyingKey_from_bytes_def is_ok_iff split: if_splits)
qed

definition junk_w :: AuthoritySignature where
  "junk_w = \<lparr>as_authority_id = [66], as_signature_bytes = []\<rparr>"

lemma sealed_quorum:
  "verify_quorum sealed_sigs vote_w [([65], pin_w)] 1 300"
  "verify_quorum sealed_sigs (vote_w\<lparr>cd_signatures := junk_w # cd_signatures vote_w\<rparr>) [([65], pin_w)] 1 300"
proof -
  obtain pf where pf: "cd_signatures vote_w = [\<lparr>as_authority_id = [65], as_signature_bytes = pf\<rparr>]" "length pf = PROOF_SIZE"
    using vote_w(4) by blast
  have u: "cd_valid_until vote_w = 900" using vote_w(1)
    by (clarsimp simp: sign_with_authority_def ebind_eq_Inr base_w_def ConsensusDocument_new_def) (metis ConsensusDocument.select_convs(2))
  have q: "verify_strict sum_sigs pin_w digest_w pf = Inr ()" "\<exists>c q. component_pins sum_sigs pf = Inr (c, q)"
    using vote_quorum_w
    by (auto simp: verify_quorum_def pf no_votes_def Signature_from_slice_def is_ok_iff split: if_splits option.splits sum.splits)
  from sealed_verify [OF length_pins q(1)] have "verify_strict sealed_sigs pin_w digest_w pf = Inr ()" by simp
  with q(2) show "verify_quorum sealed_sigs vote_w [([65], pin_w)] 1 300"
    "verify_quorum sealed_sigs (vote_w\<lparr>cd_signatures := junk_w # cd_signatures vote_w\<rparr>) [([65], pin_w)] 1 300"
    by (auto simp: verify_quorum_def pf no_votes_def Signature_from_slice_def is_ok_iff vote_w(2) u junk_w_def)
qed

definition run_w :: honest_run where
  "run_w = \<lparr>hr_deployment = deployment_w, hr_events = publish_w, hr_disk = disk_w\<rparr>"

lemma cast_votes_w: "cast_votes sealed_sigs lower_hex plain_json run_w = {vote_w}"
proof -
  have "verify_quorum sealed_sigs vote_w [([65], verifying_key sealed_sigs auth_a)] 1 300"
    using sealed_quorum(1) by (simp add: sealed_same)
  note steps = publish_steps_w [OF sealed_relay this]
  have "vote_of sealed_sigs plain_json (Vote 0 de 310) (node_w (Reconciled ForConsensus [])) = Some vote_w" for de
    by (simp add: vote_of_def frozen_view_w)
  moreover have "vote_of sealed_sigs plain_json e n = None" if "\<And>h de now. e \<noteq> Vote h de now" for e n
    using that by (auto simp: vote_of_def split: auth_event.split)
  ultimately show ?thesis
    by (simp add: cast_votes_def run_w_def publish_w_def steps del: auth_step.simps)
qed


end
