(* ===== verification/Spec2Isabelle.thy ===== *)
theory Spec2Isabelle
  imports OnionPath Flow SessionProps MultipathRouter Admission Sybil Revocation Relay Guarded DirTransport Link Tracker Agreement
begin

text \<open>
  Verification of AnonGuard, an onion-routing gateway written in Rust (\<open>src/src/\<close>). A client
  builds a circuit of relays, puts the bytes of its applications into cells of a fixed size, wraps
  every cell once per relay and sends the cells over covered TLS links; relays peel one layer each
  and the exit relay connects to the destination. Directory authorities collect signed relay
  descriptors and publish one signed consensus per epoch; a tracker joins clients with relays that
  cannot be dialled.

  \<^bold>\<open>Conventions.\<close> Bytes are \<open>8 word\<close> and integers of the source keep their width as words, with
  the wrap-around of words where the source wraps and a test where it checks. A \<open>Result\<close> is a sum
  (\<open>Inl\<close> the error), a panic is a value of its own, \<open>ebind\<close> is the question mark. A \<open>HashMap\<close> is
  an association list, a \<open>BTreeMap\<close> one with increasing keys (theory \<open>Containers\<close>). Times are
  naturals in nanoseconds, seconds where the source counts seconds. Code of other crates is an
  argument: records of functions (\<open>crypto\<close>, \<open>sigs\<close>, \<open>kex\<close>, \<open>json\<close>, \<open>x509\<close>, \<open>hexc\<close>, \<open>auth_json\<close>)
  with a predicate for what the program relies on (\<open>crypto_ok\<close> and so on) and a concrete
  instance that satisfies it, on which the witnesses run. Random bytes, clock readings, results of
  sockets and faults of the disk are arguments of the step in which they occur, and theorems hold
  for all of them. Concurrent code is cut at its points of suspension; a run is a list of events in
  any order.

  \<^bold>\<open>Cells and circuits.\<close> \<open>Cell\<close> is \<open>onion/cell.rs\<close>. \<open>Replay\<close>, \<open>Circuit\<close> and \<open>Handshake\<close> are
  \<open>onion/circuit.rs\<close>: the sequence numbers and the anti-replay window, refined to a set of seen
  counters; layered encryption (\<open>wrap_forward\<close>, \<open>peel_forward\<close>, \<open>unwrap_backward\<close>); CREATE, CREATED
  and EXTEND with key derivation and proofs. \<open>OnionPath\<close> composes hops into circuits of any length,
  with delivery in both directions. \<open>Flow\<close> is \<open>onion/flow.rs\<close>, \<open>onion/pacing.rs\<close> and
  \<open>onion/padding.rs\<close>. \<open>Relay\<close> is \<open>handle_relay_inner\<close> of \<open>gateway/server.rs\<close>, every branch of its
  loop: the exit stream is faithful and sockets go only where the policy permits.

  \<^bold>\<open>Sessions.\<close> \<open>Session\<close> is \<open>onion/session.rs\<close>: the loop with all its branches and the worker tasks.
  \<open>SessionInv\<close> proves its invariant for each branch; \<open>SessionProps\<close> draws the consequences:
  bounded state, no internal fault, stream identifiers that never come back, a constant send rate
  and a bounded receive rate. \<open>Multipath\<close> and \<open>MultipathRouter\<close> are \<open>onion/multipath.rs\<close> and
  \<open>gateway/multipath_router.rs\<close>: reassembly gives the stream in order.

  \<^bold>\<open>Links.\<close> \<open>LinkCover\<close> is \<open>onion/link_cover.rs\<close>: what is written is delivered, and the times and
  sizes on the wire do not depend on it. \<open>Link\<close> is \<open>onion/link.rs\<close>: a link that comes up is
  authenticated, and two matching sides come up. \<open>Tcp\<close> is the byte stream under both and under
  \<open>DirTransport\<close>, which is \<open>mesh/transport.rs\<close>: agreement of the handshake, authenticity of frames
  and round trip of documents.

  \<^bold>\<open>Identities and policies.\<close> \<open>Identity\<close> is \<open>crypto/hybrid_identity.rs\<close> and \<open>crypto/identity.rs\<close>:
  a proof needs both component signatures. \<open>Revocation\<close> is \<open>core/revocation.rs\<close> over \<open>Storage\<close>
  (\<open>core/storage.rs\<close>): retirement never goes back. \<open>Net\<close> and \<open>Strings\<close> are the
  parts of the standard library these use. \<open>ExitPolicy\<close> is \<open>kernel/exit_policy.rs\<close>, compared with
  a table of the prefixes it must refuse; \<open>Guarded\<close> is \<open>kernel/killswitch.rs\<close> and
  \<open>core/state_machine.rs\<close>: the exact condition of the kill switch, and type safety of the socket
  states.

  \<^bold>\<open>Directory.\<close> \<open>Admission\<close> is \<open>mesh/admission.rs\<close>, \<open>Sybil\<close> is \<open>mesh/sybil.rs\<close>, \<open>Consensus\<close> is
  \<open>mesh/consensus.rs\<close>: quorums are of different pins. \<open>Authority\<close> is \<open>mesh/authority.rs\<close> with the
  start of an authority in \<open>main.rs\<close>: one vote per epoch over all interleavings of requests,
  crashes, restarts and disk faults. \<open>AuthorityRegistry\<close> is the invariant of its registry.
  \<open>Agreement\<close> joins them: two clients that accept a consensus of the same epoch accept the same
  one. \<open>Tracker\<close> is \<open>mesh/tracker.rs\<close>, \<open>Hex\<close> the codec it shares with the authority.

  \<^bold>\<open>Shared theories.\<close> \<open>Prelude\<close> holds the types, the collections of lemmas and four interfaces as
  locales: \<open>be_codec\<close> (big-endian integers), \<open>payload_codec\<close> (length-prefixed payloads),
  \<open>stateful_filter\<close> and its extension \<open>replay_filter\<close> (a filter that accepts a key once);
  \<open>Containers\<close> has \<open>dict\<close>. Each is interpreted on the definitions of the components.

  \<^bold>\<open>Bounds and fuel.\<close> All recursions are on the data or have a termination proof, and all constants
  are those of the source. The proof-of-work search tries ten million nonces, as the source does, and
  is shown to find one exactly when one of them solves the puzzle.

  \<^bold>\<open>Assumptions of Agreement.\<close> Signatures of honest authorities on document digests cannot be forged,
  the hash has no collision on the documents at hand, and the temporary file of a vote is not the
  file of the votes. What a running disk loses is modelled by \<open>Storage\<close>: a call may fail, and a
  write may stop anywhere.

  \<^bold>\<open>Not modelled.\<close> The client side of \<open>gateway/server.rs\<close> (accept loop, circuit building and
  streaming over sockets; the cell functions it calls are modelled), \<open>gateway/session_cache.rs\<close>,
  the SOCKS5 dialogue of \<open>gateway/chain.rs\<close> and \<open>kernel/dns.rs\<close>, the choice of paths in
  \<open>mesh/pool.rs\<close>, \<open>mesh/guards.rs\<close> and \<open>mesh/node.rs\<close>, the fetches of \<open>mesh/directory_client.rs\<close>,
  the pluggable transports of \<open>onion/transport.rs\<close>, command line and configuration
  (\<open>main.rs\<close>, \<open>core/config.rs\<close>), creation of key files, and what is only operating system, floating
  point, tables or counters: \<open>kernel/netns.rs\<close>, \<open>morphing/\<close>, \<open>gateway/chaffing.rs\<close>,
  \<open>crypto/ja4.rs\<close>, \<open>crypto/headers.rs\<close>, \<open>observability.rs\<close>. Secrecy in the sense of cryptography
  (indistinguishability, key erasure) is outside: the theorems are about what is sent, accepted,
  stored and when.
\<close>

section \<open>Properties across components\<close>

text \<open>
  C1. End to end: the bytes an application hands to the client, put into a data cell and wrapped for a
  circuit of any length, are written to the destination unchanged by the exit relay of the circuit, which
  then owes the client an acknowledgement for one more cell. Assumed are the laws of the ciphers, that no
  earlier relay opens the box, that the exit's counters are in step, that its upload is open and
  that the write to the destination succeeds.
\<close>

theorem data_reaches_destination:
  assumes "crypto_ok cr" and "OnionCell_new rnd cid q Data sid data = Inr cell" and "length rnd = 32"
    and "oc_hops oc = path_keys rs @ [rh_crypt (rc_hop s)]"
    and "chained (oc_circuit_id oc) rs (rh_circuit_id (rc_hop s))"
    and "wrap_forward cr oc cell = Inr (oc', cell', raw)"
    and "no_early_open cr rs (build_nonce 1 0 (oc_sequence_no oc)) (oc_sequence_no oc)
       (sealed_body cr (forward_aead_key (rh_crypt (rc_hop s))) (build_nonce 1 0 (oc_sequence_no oc))
         (oc_sequence_no oc) (drop 8 (serialize cell')))"
    and "rh_expected_recv_seq (rc_hop s) \<le> oc_sequence_no oc"
      "oc_sequence_no oc - rh_expected_recv_seq (rc_hop s) \<le> MAX_SEQ_GAP"
    and "rc_mode s = ExitHop" "\<not> rc_upload_closed s" "rc_received s \<noteq> - 1" "\<not> exit_done s"
  shows "\<exists>wire s'. forward_path cr rs raw = Some wire \<and>
    relay_turn cr rnd' now True env (ClientCell (Some wire)) s = (Go s', [ToDestination data]) \<and>
    rc_received s' = rc_received s + 1 \<and> rc_pending_ack s' = Some (rc_received s + 1)"
proof -
  obtain wire buf where w: "forward_path cr rs raw = Some wire"
    "peel_forward cr (rc_hop s) wire = ((rc_hop s)\<lparr>rh_expected_recv_seq := oc_sequence_no oc + 1\<rparr>, buf,
       Inr (AddressedToThisRelay Data (length data)))"
    "subslice 45 (45 + length data) buf = data"
    by (rule delivered_payload [OF assms(1-9)])
  then show ?thesis
    using assms(10-) by (simp add: relay_turn_def exit_on_client_def Let_def checked_add_one)
qed

definition exit0 :: relay_conn where
  "exit0 = (relay_start 0 relay_b)\<lparr>rc_mode := ExitHop\<rparr>"

definition data_cell0 :: OnionCell where
  "data_cell0 = \<lparr>cell_circuit_id = 1, cell_sequence_no = 0, cell_command = Data, cell_stream_id = 1,
     cell_length = 3, cell_ephemeral_key = replicate 32 0, cell_mac = replicate 16 0,
     cell_payload = put 0 [71, 69, 84] (replicate PAYLOAD_SIZE 0)\<rparr>"

lemma data_cell0_new: "OnionCell_new (replicate 32 0) 1 0 Data 1 [71, 69, 84] = Inr data_cell0"
  by (simp add: OnionCell_new_def data_cell0_def size_defs)

theorem data_reaches_destination_witness:
  "\<exists>oc' cell' raw wire s'. wrap_forward xor_crypto circuit_ab data_cell0 = Inr (oc', cell', raw) \<and>
     forward_path xor_crypto [(relay_a, 5)] raw = Some wire \<and>
     relay_turn xor_crypto [] 1 True env0 (ClientCell (Some wire)) exit0 = (Go s', [ToDestination [71, 69, 84]])"
proof -
  have hop: "rc_hop exit0 = relay_b" by (simp add: exit0_def relay_start_def)
  have d: "oc_hops circuit_ab = path_keys [(relay_a, 5)] @ [rh_crypt (rc_hop exit0)]"
    "chained (oc_circuit_id circuit_ab) [(relay_a, 5)] (rh_circuit_id (rc_hop exit0))"
    "rh_expected_recv_seq (rc_hop exit0) \<le> oc_sequence_no circuit_ab"
    "oc_sequence_no circuit_ab - rh_expected_recv_seq (rc_hop exit0) \<le> MAX_SEQ_GAP"
    "forward_aead_key (rh_crypt (rc_hop exit0)) = [2]"
    by (simp_all add: hop circuit_ab_def relay_a_def relay_b_def RelayCircuitHop_new_def path_keys_def flat_keys_def)
  obtain oc' cell' raw where w: "wrap_forward xor_crypto circuit_ab data_cell0 = Inr (oc', cell', raw)"
    and c: "cell' = data_cell0\<lparr>cell_sequence_no := 1\<rparr>"
    by (auto simp: wrap_forward_def circuit_ab_def data_cell0_def Let_def checked_add_one split_beta)
  have wfc: "wf_cell cell'"
    using OnionCell_new_Inr(1) [OF data_cell0_new] by (simp add: c wf_cell_def)
  have e: "rc_mode exit0 = ExitHop" "\<not> rc_upload_closed exit0" "rc_received exit0 \<noteq> - 1" "\<not> exit_done exit0"
    by (simp_all add: exit0_def relay_start_def exit_done_def)
  have rnd: "length (replicate 32 (0 :: u8)) = 32" by simp
  from data_reaches_destination [OF crypto_ok_xor data_cell0_new rnd d(1,2) w
      no_early_open_ab [OF wfc, folded d(5)] d(3,4) e] w
  show ?thesis by blast
qed

end
